(* ===== verification/Prelude.thy ===== *)
theory Prelude
  imports Complex_Main
begin

text \<open>
  Shared vocabulary of the development: the exceptions and values of the Python program, the
  pure error results, the stateful programs with their combinators, the requests a coroutine
  makes of the outside world, and the string operations of the standard library the source uses.

  A pure computation that may raise is an \<open>exn + 'a\<close>. A coroutine is a function from a state to
  \<open>((exn + 'a) \<times> state) option\<close>: \<open>None\<close> stands for a computation that never returns (a loop
  that polls forever, a lock that is never released), \<open>Some (Inl e, s)\<close> for one that raises \<open>e\<close>
  after leaving the state \<open>s\<close>, \<open>Some (Inr a, s)\<close> for one that returns \<open>a\<close>.

  The state of every component extends the record \<open>io\<close>, whose only field is the trace of
  requests made so far; what the outside world answers is given by a record \<open>env\<close> of functions of
  that trace, so a theorem that quantifies over \<open>env\<close> holds for every behaviour of the remote
  hosts, the clock and the random source.
\<close>

named_theorems prog_simps \<open>equations that evaluate the program combinators\<close>
named_theorems io_frame \<open>introduction rules for programs that change the trace only\<close>
named_theorems keeps_intro \<open>introduction rules for programs that keep a view of the state\<close>
named_theorems adv_intro \<open>introduction rules for programs that only append to the trace\<close>
named_theorems ok_intro \<open>introduction rules for programs that succeed from good states\<close>
named_theorems honest_intro \<open>introduction rules for programs that do not hide a cancellation\<close>
named_theorems total_intro \<open>introduction rules for programs that always return\<close>

section \<open>Exceptions and values\<close>

datatype exn =
    KeyError string
  | TypeError
  | AttributeError
  | IndexError
  | ValueError string
  | UnboundLocalError
  | RuntimeError
  | OSError int
  | ConnectionError
  | TimeoutError
  | CancelledError
  | SSHError string
  | GenericError string  \<comment> \<open>a plain \<^verbatim>\<open>Exception(msg)\<close>\<close>
  | ForeignError string  \<comment> \<open>raised by code outside the repository\<close>
  | Unmodelled           \<comment> \<open>the source leaves the fragment of the standard library modelled here\<close>

text \<open>
  Values of YAML configuration entries and of decoded JSON events. A dictionary is an
  association list in insertion order; floating point numbers are exact rationals.
\<close>

datatype pyval =
    PNone
  | PBool bool
  | PInt int
  | PFloat rat
  | PStr string
  | PList "pyval list"
  | PDict "(string \<times> pyval) list"

type_synonym 'a result = "exn + 'a"
type_synonym ('s, 'a) prog = "'s \<Rightarrow> ('a result \<times> 's) option"

fun truthy :: "pyval \<Rightarrow> bool" where
  "truthy PNone = False"
| "truthy (PBool b) = b"
| "truthy (PInt n) = (n \<noteq> 0)"
| "truthy (PFloat x) = (x \<noteq> 0)"
| "truthy (PStr s) = (s \<noteq> [])"
| "truthy (PList xs) = (xs \<noteq> [])"
| "truthy (PDict d) = (d \<noteq> [])"

section \<open>Pure results\<close>

definition bindR :: "'a result \<Rightarrow> ('a \<Rightarrow> 'b result) \<Rightarrow> 'b result" where
  "bindR r f = (case r of Inl e \<Rightarrow> Inl e | Inr a \<Rightarrow> f a)"

lemma bindR_simps [simp]:
  "bindR (Inl e) f = Inl e"
  "bindR (Inr a) f = f a"
  by (simp_all add: bindR_def)

lemma bindR_Inr_iff: "bindR r f = Inr b \<longleftrightarrow> (\<exists>a. r = Inr a \<and> f a = Inr b)"
  by (cases r) auto

lemma bindR_Inl_iff: "bindR r f = Inl e \<longleftrightarrow> r = Inl e \<or> (\<exists>a. r = Inr a \<and> f a = Inl e)"
  by (cases r) auto

text \<open>A list comprehension whose body may raise: the first exception wins.\<close>

fun mapR :: "('a \<Rightarrow> 'b result) \<Rightarrow> 'a list \<Rightarrow> 'b list result" where
  "mapR f [] = Inr []"
| "mapR f (x # xs) = bindR (f x) (\<lambda>y. bindR (mapR f xs) (\<lambda>ys. Inr (y # ys)))"

lemma mapR_length: "mapR f xs = Inr ys \<Longrightarrow> length ys = length xs"
  by (induction xs arbitrary: ys) (auto simp: bindR_Inr_iff)

lemma mapR_nth: "mapR f xs = Inr ys \<Longrightarrow> i < length xs \<Longrightarrow> f (xs ! i) = Inr (ys ! i)"
  by (induction xs arbitrary: ys i) (auto simp: bindR_Inr_iff nth_Cons split: nat.splits)

lemma mapR_Inr_all: "(\<And>x. x \<in> set xs \<Longrightarrow> f x = Inr (g x)) \<Longrightarrow> mapR f xs = Inr (map g xs)"
  by (induction xs) auto

section \<open>Dictionaries\<close>

fun dlookup :: "(string \<times> 'v) list \<Rightarrow> string \<Rightarrow> 'v option" where
  "dlookup [] k = None"
| "dlookup ((k', v) # d) k = (if k' = k then Some v else dlookup d k)"

text \<open>Assignment \<^verbatim>\<open>d[k] = v\<close>: an existing key keeps its place.\<close>

fun dset :: "(string \<times> 'v) list \<Rightarrow> string \<Rightarrow> 'v \<Rightarrow> (string \<times> 'v) list" where
  "dset [] k v = [(k, v)]"
| "dset ((k', w) # d) k v = (if k' = k then (k, v) # d else (k', w) # dset d k v)"

definition dupdate :: "(string \<times> 'v) list \<Rightarrow> (string \<times> 'v) list \<Rightarrow> (string \<times> 'v) list" where
  "dupdate d e = foldl (\<lambda>d (k, v). dset d k v) d e"

definition dkeys :: "(string \<times> 'v) list \<Rightarrow> string set" where
  "dkeys d = fst ` set d"

lemma dlookup_map_of: "dlookup d k = map_of d k"
  by (induction d k rule: dlookup.induct) auto

lemma dlookup_dset [simp]: "dlookup (dset d k v) k' = (if k' = k then Some v else dlookup d k')"
  by (induction d k v rule: dset.induct) auto

lemma dkeys_dset [simp]: "dkeys (dset d k v) = insert k (dkeys d)"
  by (induction d k v rule: dset.induct) (auto simp: dkeys_def)

lemma distinct_dset [simp]: "distinct (map fst d) \<Longrightarrow> distinct (map fst (dset d k v))"
proof (induction d k v rule: dset.induct)
  case (2 k' w d k v)
  have "fst ` set (dset d k v) = insert k (fst ` set d)"
    using dkeys_dset [of d k v] by (simp add: dkeys_def)
  with 2 show ?case by auto
qed simp

lemma dlookup_None_iff: "dlookup d k = None \<longleftrightarrow> k \<notin> dkeys d"
  by (simp add: dlookup_map_of dkeys_def map_of_eq_None_iff)

lemma dlookup_dupdate:
  "dlookup (dupdate d e) k = (case dlookup (rev e) k of Some v \<Rightarrow> Some v | None \<Rightarrow> dlookup d k)"
proof (induction e rule: rev_induct)
  case (snoc x e)
  then show ?case by (cases x) (simp add: dupdate_def)
qed (simp add: dupdate_def)

section \<open>Operations on Python values\<close>

text \<open>\<^verbatim>\<open>v[k]\<close> with a string key: only a dictionary has such items.\<close>

fun getitem :: "pyval \<Rightarrow> string \<Rightarrow> pyval result" where
  "getitem (PDict d) k = (case dlookup d k of Some v \<Rightarrow> Inr v | None \<Rightarrow> Inl (KeyError k))"
| "getitem _ k = Inl TypeError"

text \<open>\<^verbatim>\<open>v.get(k, dflt)\<close>: only a dictionary has a \<^verbatim>\<open>get\<close> method.\<close>

fun getdef :: "pyval \<Rightarrow> string \<Rightarrow> pyval \<Rightarrow> pyval result" where
  "getdef (PDict d) k dflt = Inr (case dlookup d k of Some v \<Rightarrow> v | None \<Rightarrow> dflt)"
| "getdef _ k dflt = Inl AttributeError"

text \<open>Iterating over a value in a \<^verbatim>\<open>for\<close> loop: a dictionary yields its keys, a string its characters.\<close>

fun py_iter :: "pyval \<Rightarrow> pyval list result" where
  "py_iter (PList xs) = Inr xs"
| "py_iter (PDict d) = Inr (map (PStr \<circ> fst) d)"
| "py_iter (PStr s) = Inr (map (\<lambda>c. PStr [c]) s)"
| "py_iter _ = Inl TypeError"

fun py_items :: "pyval \<Rightarrow> (string \<times> pyval) list result" where
  "py_items (PDict d) = Inr d"
| "py_items _ = Inl AttributeError"

fun as_str :: "exn \<Rightarrow> pyval \<Rightarrow> string result" where
  "as_str e (PStr s) = Inr s"
| "as_str e _ = Inl e"

lemma getitem_Inr_iff: "getitem v k = Inr w \<longleftrightarrow> (\<exists>d. v = PDict d \<and> dlookup d k = Some w)"
  by (cases v) (auto split: option.splits)

lemma getitem_KeyError_iff:
  "getitem v k = Inl (KeyError j) \<longleftrightarrow> (\<exists>d. v = PDict d \<and> dlookup d k = None \<and> j = k)"
  by (cases v) (auto split: option.splits)

section \<open>Stateful programs\<close>

definition ret :: "'a \<Rightarrow> ('s, 'a) prog" where
  "ret a = (\<lambda>s. Some (Inr a, s))"

definition raise :: "exn \<Rightarrow> ('s, 'a) prog" where
  "raise e = (\<lambda>s. Some (Inl e, s))"

definition bnd :: "('s, 'a) prog \<Rightarrow> ('a \<Rightarrow> ('s, 'b) prog) \<Rightarrow> ('s, 'b) prog" where
  "bnd m f = (\<lambda>s. Option.bind (m s)
     (\<lambda>(r, s'). (case r of Inl e \<Rightarrow> Some (Inl e, s') | Inr a \<Rightarrow> f a s')))"

text \<open>\<^verbatim>\<open>try: m  except Exception as e: h(e)\<close>, with \<open>h\<close> re-raising what it does not handle.\<close>

definition catch :: "('s, 'a) prog \<Rightarrow> (exn \<Rightarrow> ('s, 'a) prog) \<Rightarrow> ('s, 'a) prog" where
  "catch m h = (\<lambda>s. Option.bind (m s)
     (\<lambda>(r, s'). (case r of Inl e \<Rightarrow> h e s' | Inr a \<Rightarrow> Some (Inr a, s'))))"

definition liftR :: "'a result \<Rightarrow> ('s, 'a) prog" where
  "liftR r = (\<lambda>s. Some (r, s))"

definition gets :: "('s \<Rightarrow> 'a) \<Rightarrow> ('s, 'a) prog" where
  "gets f = (\<lambda>s. Some (Inr (f s), s))"

definition modify :: "('s \<Rightarrow> 's) \<Rightarrow> ('s, unit) prog" where
  "modify f = (\<lambda>s. Some (Inr (), f s))"

text \<open>A computation that never returns, such as waiting for a lock its own caller holds.\<close>

definition block :: "('s, 'a) prog" where
  "block = (\<lambda>s. None)"

fun forM :: "'b list \<Rightarrow> ('b \<Rightarrow> ('s, unit) prog) \<Rightarrow> ('s, unit) prog" where
  "forM [] f = ret ()"
| "forM (x # xs) f = bnd (f x) (\<lambda>_. forM xs f)"

fun mapM :: "('b \<Rightarrow> ('s, 'a) prog) \<Rightarrow> 'b list \<Rightarrow> ('s, 'a list) prog" where
  "mapM f [] = ret []"
| "mapM f (x # xs) = bnd (f x) (\<lambda>y. bnd (mapM f xs) (\<lambda>ys. ret (y # ys)))"

lemmas prog_defs = ret_def raise_def bnd_def catch_def liftR_def gets_def modify_def block_def

lemma bnd_ret [simp]: "bnd (ret a) f = f a"
  by (simp add: bnd_def ret_def)

lemma bnd_raise [simp]: "bnd (raise e) f = raise e"
  by (simp add: bnd_def raise_def)

lemma bnd_block [simp]: "bnd block f = block"
  by (simp add: bnd_def block_def)

lemma bnd_ret_right [simp]: "bnd m ret = m"
  by (rule ext) (auto simp: bnd_def ret_def Option.bind_eq_Some_conv split: bind_splits sum.splits)

lemma bnd_assoc: "bnd (bnd m f) g = bnd m (\<lambda>a. bnd (f a) g)"
  by (rule ext) (auto simp: bnd_def split: bind_splits sum.splits)

lemma catch_ret [simp]: "catch (ret a) h = ret a"
  by (simp add: catch_def ret_def)

lemma catch_raise [simp]: "catch (raise e) h = h e"
  by (simp add: catch_def raise_def)

lemma forM_append: "forM (xs @ ys) f = bnd (forM xs f) (\<lambda>_. forM ys f)"
  by (induction xs) (simp_all only: append.simps forM.simps bnd_ret bnd_assoc)

lemma liftR_simps [simp]:
  "liftR (Inr a) = ret a"
  "liftR (Inl e) = raise e"
  by (simp_all add: liftR_def ret_def raise_def)

lemma run_simps [simp, prog_simps]:
  "ret a s = Some (Inr a, s)"
  "raise e s = Some (Inl e, s)"
  "gets g s = Some (Inr (g s), s)"
  "modify h s = Some (Inr (), h s)"
  "block s = None"
  by (simp_all add: prog_defs)

lemma bnd_run [prog_simps]:
  "m s = None \<Longrightarrow> bnd m f s = None"
  "m s = Some (Inl e, s') \<Longrightarrow> bnd m f s = Some (Inl e, s')"
  "m s = Some (Inr a, s') \<Longrightarrow> bnd m f s = f a s'"
  by (simp_all add: bnd_def)

lemma catch_run [prog_simps]:
  "m s = None \<Longrightarrow> catch m h s = None"
  "m s = Some (Inl e, s') \<Longrightarrow> catch m h s = h e s'"
  "m s = Some (Inr a, s') \<Longrightarrow> catch m h s = Some (Inr a, s')"
  by (simp_all add: catch_def)

text \<open>Symbolic execution of the first statement of a sequence.\<close>

lemma bnd_step: "m s = Some (Inr a, u) \<Longrightarrow> f a u = y \<Longrightarrow> bnd m f s = y"
  by (simp add: bnd_def)

lemma bnd_stop: "m s = Some (Inl e, u) \<Longrightarrow> y = Some (Inl e, u) \<Longrightarrow> bnd m f s = y"
  by (simp add: bnd_def)

lemma bnd_gets [simp]: "bnd (gets g) f s = f (g s) s"
  by (simp add: bnd_def)

lemma bnd_modify [simp]: "bnd (modify h) f s = f () (h s)"
  by (simp add: bnd_def)

lemma bnd_SomeE:
  assumes "bnd m f s = Some (r, t)"
  obtains (raised) e where "m s = Some (Inl e, t)" "r = Inl e"
    | (returned) a u where "m s = Some (Inr a, u)" "f a u = Some (r, t)"
  using assms by (cases "m s"; cases "fst (the (m s))") (auto simp: bnd_def)

lemma bnd_InrE:
  assumes "bnd m f s = Some (Inr b, t)"
  obtains a u where "m s = Some (Inr a, u)" "f a u = Some (Inr b, t)"
  using assms by (auto elim: bnd_SomeE)

lemma catch_SomeE:
  assumes "catch m h s = Some (r, t)"
  obtains (raised) e u where "m s = Some (Inl e, u)" "h e u = Some (r, t)"
    | (returned) a where "m s = Some (Inr a, t)" "r = Inr a"
  using assms by (cases "m s"; cases "fst (the (m s))") (auto simp: catch_def)

text \<open>Loops defined by \<^theory_text>\<open>partial_function (option)\<close> may recurse under the combinators.\<close>

lemma bnd_mono [partial_function_mono]:
  assumes mf: "mono_option (\<lambda>f. m f s)" and mg: "\<And>a u. mono_option (\<lambda>f. g a f u)"
  shows "mono_option (\<lambda>f. bnd (m f) (\<lambda>a. g a f) s)"
  unfolding bnd_def
proof (rule Partial_Function.bind_mono [OF mf])
  fix y
  show "mono_option (\<lambda>f. case y of (r, s') \<Rightarrow>
      (case r of Inl e \<Rightarrow> Some (Inl e, s') | Inr a \<Rightarrow> g a f s'))"
    using mg by (cases y; cases "fst y") (simp_all add: option.const_mono)
qed

section \<open>Contracts of a program\<close>

text \<open>\<open>keeps g m\<close>: whatever \<open>m\<close> does, it does not change the part \<open>g\<close> of the state.\<close>

definition keeps :: "('s \<Rightarrow> 'v) \<Rightarrow> ('s, 'a) prog \<Rightarrow> bool" where
  "keeps g m \<longleftrightarrow> (\<forall>s r t. m s = Some (r, t) \<longrightarrow> g t = g s)"

lemma keepsD: "keeps g m \<Longrightarrow> m s = Some (r, t) \<Longrightarrow> g t = g s"
  by (simp add: keeps_def)

lemma keepsI: "(\<And>s r t. m s = Some (r, t) \<Longrightarrow> g t = g s) \<Longrightarrow> keeps g m"
  by (simp add: keeps_def)

lemma keeps_comp: "keeps g m \<Longrightarrow> keeps (\<lambda>s. f (g s)) m"
  by (simp add: keeps_def)

lemma keeps_atomic [keeps_intro]:
  "keeps g (ret a)" "keeps g (raise e)" "keeps g (liftR r)" "keeps g (gets f)" "keeps g block"
  by (auto simp: keeps_def prog_defs)

lemma keeps_modify [keeps_intro]: "(\<And>s. g (h s) = g s) \<Longrightarrow> keeps g (modify h)"
  by (simp add: keeps_def)

lemma keeps_bnd [keeps_intro]: "keeps g m \<Longrightarrow> (\<And>a. keeps g (f a)) \<Longrightarrow> keeps g (bnd m f)"
  by (rule keepsI, erule bnd_SomeE) (auto simp: keeps_def)

lemma keeps_catch [keeps_intro]: "keeps g m \<Longrightarrow> (\<And>e. keeps g (h e)) \<Longrightarrow> keeps g (catch m h)"
  by (rule keepsI, erule catch_SomeE) (auto simp: keeps_def)

lemma keeps_forM [keeps_intro]: "(\<And>x. x \<in> set xs \<Longrightarrow> keeps g (f x)) \<Longrightarrow> keeps g (forM xs f)"
  by (induction xs) (auto intro!: keeps_intro)

lemma keeps_mapM [keeps_intro]: "(\<And>x. x \<in> set xs \<Longrightarrow> keeps g (f x)) \<Longrightarrow> keeps g (mapM f xs)"
  by (induction xs) (auto intro!: keeps_intro)

lemma keeps_if [keeps_intro]: "(b \<Longrightarrow> keeps g m) \<Longrightarrow> (\<not> b \<Longrightarrow> keeps g n) \<Longrightarrow> keeps g (if b then m else n)"
  by simp

lemma keeps_case_option [keeps_intro]:
  "keeps g m \<Longrightarrow> (\<And>y. keeps g (n y)) \<Longrightarrow> keeps g (case x of None \<Rightarrow> m | Some y \<Rightarrow> n y)"
  by (cases x) simp_all

lemma keeps_case_prod [keeps_intro]: "(\<And>a b. keeps g (f a b)) \<Longrightarrow> keeps g (case x of (a, b) \<Rightarrow> f a b)"
  by (cases x) simp

text \<open>\<open>returns m\<close>: \<open>m\<close> returns or raises from every state.\<close>

definition returns :: "('s, 'a) prog \<Rightarrow> bool" where
  "returns m \<longleftrightarrow> (\<forall>s. \<exists>r t. m s = Some (r, t))"

lemma totalI: "(\<And>s. \<exists>y. m s = Some y) \<Longrightarrow> returns m"
  by (fastforce simp: returns_def)

lemma totalE: assumes "returns m" obtains r t where "m s = Some (r, t)"
  using assms unfolding returns_def by blast

lemma total_atomic [total_intro]:
  "returns (ret a)" "returns (raise e)" "returns (liftR r)" "returns (gets f)" "returns (modify h)"
  by (auto simp: returns_def prog_defs)

lemma total_bnd [total_intro]: "returns m \<Longrightarrow> (\<And>a. returns (f a)) \<Longrightarrow> returns (bnd m f)"
proof (rule totalI)
  fix s
  assume m: "returns m" and f: "\<And>a. returns (f a)"
  from m obtain r t where rt: "m s = Some (r, t)" by (rule totalE)
  show "\<exists>y. bnd m f s = Some y"
  proof (cases r)
    case (Inr a)
    from f [of a] obtain r' t' where "f a t = Some (r', t')" by (rule totalE)
    with rt Inr show ?thesis by (simp add: bnd_run)
  qed (use rt in \<open>simp add: bnd_run\<close>)
qed

lemma total_catch [total_intro]: "returns m \<Longrightarrow> (\<And>e. returns (h e)) \<Longrightarrow> returns (catch m h)"
proof (rule totalI)
  fix s
  assume m: "returns m" and h: "\<And>e. returns (h e)"
  from m obtain r t where rt: "m s = Some (r, t)" by (rule totalE)
  show "\<exists>y. catch m h s = Some y"
  proof (cases r)
    case (Inl e)
    from h [of e] obtain r' t' where "h e t = Some (r', t')" by (rule totalE)
    with rt Inl show ?thesis by (simp add: catch_run)
  qed (use rt in \<open>simp add: catch_run\<close>)
qed

lemma total_forM [total_intro]: "(\<And>x. x \<in> set xs \<Longrightarrow> returns (f x)) \<Longrightarrow> returns (forM xs f)"
  by (induction xs) (auto intro!: total_intro)

lemma total_mapM [total_intro]: "(\<And>x. x \<in> set xs \<Longrightarrow> returns (f x)) \<Longrightarrow> returns (mapM f xs)"
  by (induction xs) (auto intro!: total_intro)

lemma total_if [total_intro]: "(b \<Longrightarrow> returns m) \<Longrightarrow> (\<not> b \<Longrightarrow> returns n) \<Longrightarrow> returns (if b then m else n)"
  by simp

lemma total_case_option [total_intro]:
  "returns m \<Longrightarrow> (\<And>y. returns (n y)) \<Longrightarrow> returns (case x of None \<Rightarrow> m | Some y \<Rightarrow> n y)"
  by (cases x) simp_all

lemma total_case_prod [total_intro]: "(\<And>a b. returns (f a b)) \<Longrightarrow> returns (case x of (a, b) \<Rightarrow> f a b)"
  by (cases x) simp

text \<open>Rules that remember what a pure step returned.\<close>

lemma total_liftR: "(\<And>a. r = Inr a \<Longrightarrow> returns (f a)) \<Longrightarrow> returns (bnd (liftR r) f)"
  by (cases r) (simp_all add: total_atomic)

lemma keeps_liftR: "(\<And>a. r = Inr a \<Longrightarrow> keeps g (f a)) \<Longrightarrow> keeps g (bnd (liftR r) f)"
  by (cases r) (simp_all add: keeps_atomic)

text \<open>\<open>succeeds I m\<close>: from a state with \<open>I\<close> the program returns a value, in a state with \<open>I\<close>.\<close>

definition succeeds :: "('s \<Rightarrow> bool) \<Rightarrow> ('s, 'a) prog \<Rightarrow> bool" where
  "succeeds I m \<longleftrightarrow> (\<forall>s. I s \<longrightarrow> (\<exists>a t. m s = Some (Inr a, t) \<and> I t))"

lemma succeedsE:
  assumes "succeeds I m" and "I s"
  obtains a t where "m s = Some (Inr a, t)" "I t"
  using assms unfolding succeeds_def by blast

lemma succeeds_atomic [ok_intro]: "succeeds I (ret a)" "succeeds I (gets f)" "succeeds I (liftR (Inr a))"
  by (simp_all add: succeeds_def)

lemma succeeds_modify [ok_intro]: "(\<And>s. I s \<Longrightarrow> I (h s)) \<Longrightarrow> succeeds I (modify h)"
  by (simp add: succeeds_def)

lemma succeeds_bnd [ok_intro]: "succeeds I m \<Longrightarrow> (\<And>a. succeeds I (f a)) \<Longrightarrow> succeeds I (bnd m f)"
  unfolding succeeds_def by (metis bnd_step)

lemma succeeds_forM [ok_intro]: "(\<And>x. x \<in> set xs \<Longrightarrow> succeeds I (f x)) \<Longrightarrow> succeeds I (forM xs f)"
proof (induction xs)
  case (Cons x xs)
  show ?case unfolding forM.simps by (rule succeeds_bnd) (use Cons in simp_all)
qed (simp add: succeeds_def)

lemma succeeds_mapM [ok_intro]: "(\<And>x. x \<in> set xs \<Longrightarrow> succeeds I (f x)) \<Longrightarrow> succeeds I (mapM f xs)"
proof (induction xs)
  case (Cons x xs)
  show ?case unfolding mapM.simps by (intro succeeds_bnd succeeds_atomic) (use Cons in simp_all)
qed (simp add: succeeds_def)

lemma succeeds_if [ok_intro]: "(b \<Longrightarrow> succeeds I m) \<Longrightarrow> (\<not> b \<Longrightarrow> succeeds I n) \<Longrightarrow> succeeds I (if b then m else n)"
  by simp

lemma succeeds_case_option [ok_intro]:
  "(x = None \<Longrightarrow> succeeds I m) \<Longrightarrow> (\<And>y. x = Some y \<Longrightarrow> succeeds I (n y)) \<Longrightarrow>
     succeeds I (case x of None \<Rightarrow> m | Some y \<Rightarrow> n y)"
  by (cases x) simp_all

end
