(* ===== verification/World.thy ===== *)
theory World
  imports Prelude "HOL-Library.Sublist"
begin

text \<open>
  The outside world of the program: what a coroutine asks of the operating system, the remote
  hosts, the clock and the random source, as a trace of requests, and the answers, as a record of
  functions of that trace. Every primitive below appends one request to the trace and returns what
  the environment answers; a primitive that yields to the event loop may be answered by a
  cancellation. The predicate \<open>emits\<close> says which requests a program can make and that it changes
  nothing else of the state.
\<close>

datatype req =
    Exec "string list" "string option"  \<comment> \<open>\<^verbatim>\<open>create_subprocess_exec\<close>, with its standard input\<close>
  | Connect string string               \<comment> \<open>\<^verbatim>\<open>open_connection\<close>\<close>
  | Sleep rat
  | Clock
  | Sample nat nat                      \<comment> \<open>\<^verbatim>\<open>random.sample\<close> of k out of n\<close>
  | RandInt int int
  | Shuffle nat
  | MakeDirs string
  | ReadFile string
  | OpenLog string
  | LogWrite string
  | LogClose
  | Terminate                           \<comment> \<open>\<^verbatim>\<open>process.terminate()\<close>\<close>
  | SshNew                              \<comment> \<open>an \<^verbatim>\<open>AsyncSSH\<close> instance is created\<close>
  | SshReady nat                        \<comment> \<open>an instance sets its flag \<^verbatim>\<open>_ready\<close>\<close>

datatype pstatus = Exited int | ReadCancelled

text \<open>What a subprocess does: the lines read from its output, and how reading ended.\<close>

record proc =
  p_lines :: "string list"
  p_status :: pstatus

record env =
  spawn :: "req list \<Rightarrow> string list \<Rightarrow> string option \<Rightarrow> proc"
  dial :: "req list \<Rightarrow> string \<Rightarrow> string \<Rightarrow> exn option"
  clock :: "req list \<Rightarrow> rat"
  cancelled :: "req list \<Rightarrow> bool"  \<comment> \<open>of the trace that ends with the awaited request\<close>
  rnd_sample :: "req list \<Rightarrow> nat \<Rightarrow> nat \<Rightarrow> nat list"
  rnd_int :: "req list \<Rightarrow> int \<Rightarrow> int \<Rightarrow> int"
  rnd_shuffle :: "req list \<Rightarrow> nat \<Rightarrow> nat list"
  mkdirs_errno :: "req list \<Rightarrow> string \<Rightarrow> int option"
  file_lines :: "req list \<Rightarrow> string \<Rightarrow> string list result"
  open_errno :: "req list \<Rightarrow> string \<Rightarrow> int option"

record io =
  trace :: "req list"

section \<open>Primitives\<close>

definition io_do :: "req \<Rightarrow> (req list \<Rightarrow> 'a result) \<Rightarrow> ('x io_scheme, 'a) prog" where
  "io_do q ans = (\<lambda>s. Some (ans (trace s), s\<lparr>trace := trace s @ [q]\<rparr>))"

definition yielding :: "env \<Rightarrow> 'a \<Rightarrow> req list \<Rightarrow> 'a result" where
  "yielding E a tr = (if cancelled E tr then Inl CancelledError else Inr a)"

definition sleep :: "env \<Rightarrow> rat \<Rightarrow> ('x io_scheme, unit) prog" where
  "sleep E t = io_do (Sleep t) (\<lambda>tr. yielding E () (tr @ [Sleep t]))"

definition now :: "env \<Rightarrow> ('x io_scheme, rat) prog" where
  "now E = io_do Clock (\<lambda>tr. Inr (clock E tr))"

definition subprocess :: "env \<Rightarrow> string list \<Rightarrow> string option \<Rightarrow> ('x io_scheme, proc) prog" where
  "subprocess E argv stdin = io_do (Exec argv stdin) (\<lambda>tr. Inr (spawn E tr argv stdin))"

definition open_connection :: "env \<Rightarrow> string \<Rightarrow> string \<Rightarrow> ('x io_scheme, unit) prog" where
  "open_connection E host port = io_do (Connect host port)
     (\<lambda>tr. case dial E tr host port of None \<Rightarrow> Inr () | Some e \<Rightarrow> Inl e)"

definition random_sample :: "env \<Rightarrow> nat \<Rightarrow> nat \<Rightarrow> ('x io_scheme, nat list) prog" where
  "random_sample E n k = io_do (Sample n k)
     (\<lambda>tr. if k \<le> n then Inr (rnd_sample E tr n k) else Inl (ValueError ''sample''))"

definition random_randint :: "env \<Rightarrow> int \<Rightarrow> int \<Rightarrow> ('x io_scheme, int) prog" where
  "random_randint E a b = io_do (RandInt a b)
     (\<lambda>tr. if a \<le> b then Inr (rnd_int E tr a b) else Inl (ValueError ''randrange''))"

definition random_shuffle :: "env \<Rightarrow> 'a list \<Rightarrow> ('x io_scheme, 'a list) prog" where
  "random_shuffle E xs = io_do (Shuffle (length xs))
     (\<lambda>tr. Inr (map (nth xs) (rnd_shuffle E tr (length xs))))"

text \<open>
  \<^verbatim>\<open>asyncio.wait_for(m, timeout)\<close>: the coroutine runs in a world in which the first request it waits for that is
  not answered before the deadline is answered by a cancellation instead; the caller gets a
  \<open>TimeoutError\<close> then, whatever the coroutine does with its cancellation.
\<close>

fun waits :: "req \<Rightarrow> bool" where
  "waits (Sleep t) = True"
| "waits (Exec argv i) = True"
| "waits (Connect h p) = True"
| "waits q = False"

definition late :: "env \<Rightarrow> rat \<Rightarrow> nat \<Rightarrow> req list \<Rightarrow> nat \<Rightarrow> bool" where
  "late E D n tr j \<longleftrightarrow> n \<le> j \<and> waits (tr ! j) \<and> D \<le> clock E (take (Suc j) tr)"

text \<open>The deadline \<open>D\<close> passed during a request made after the first \<open>n\<close> ones.\<close>

definition timed_out :: "env \<Rightarrow> rat \<Rightarrow> nat \<Rightarrow> req list \<Rightarrow> bool" where
  "timed_out E D n tr \<longleftrightarrow> list_ex (late E D n tr) [0..<length tr]"

text \<open>The last request of the trace is the first one that is late.\<close>

definition cut :: "env \<Rightarrow> rat \<Rightarrow> nat \<Rightarrow> req list \<Rightarrow> bool" where
  "cut E D n tr \<longleftrightarrow> timed_out E D n tr \<and> \<not> timed_out E D n (butlast tr)"

definition with_deadline :: "env \<Rightarrow> rat \<Rightarrow> nat \<Rightarrow> env" where
  "with_deadline E D n = E\<lparr>
     cancelled := (\<lambda>tr. cut E D n tr \<or> cancelled E tr),
     spawn := (\<lambda>tr argv i. if cut E D n (tr @ [Exec argv i]) then (spawn E tr argv i)\<lparr>p_status := ReadCancelled\<rparr>
                else spawn E tr argv i),
     dial := (\<lambda>tr h p. if cut E D n (tr @ [Connect h p]) then Some CancelledError else dial E tr h p)\<rparr>"

definition wait_for :: "env \<Rightarrow> rat \<Rightarrow> (env \<Rightarrow> ('x io_scheme, 'a) prog) \<Rightarrow> ('x io_scheme, 'a) prog" where
  "wait_for E timeout m = (\<lambda>s.
     let D = clock E (trace s) + timeout; n = length (trace s) in
     Option.bind (m (with_deadline E D n) s) (\<lambda>(r, s').
     Some (if timed_out E D n (trace s') then Inl TimeoutError else r, s')))"

text \<open>What the library documents of the random source: the hypothesis of the theorems that use it.\<close>

definition random_ok :: "env \<Rightarrow> bool" where
  "random_ok E \<longleftrightarrow>
     (\<forall>tr n k. k \<le> n \<longrightarrow> length (rnd_sample E tr n k) = k \<and> distinct (rnd_sample E tr n k)
        \<and> (\<forall>i \<in> set (rnd_sample E tr n k). i < n)) \<and>
     (\<forall>tr a b. a \<le> b \<longrightarrow> a \<le> rnd_int E tr a b \<and> rnd_int E tr a b \<le> b) \<and>
     (\<forall>tr n. distinct (rnd_shuffle E tr n) \<and> set (rnd_shuffle E tr n) = {..<n})"

text \<open>
  What the library documents of the clock: it does not run backwards, and a completed
  \<^verbatim>\<open>asyncio.sleep(t)\<close> takes at least \<open>t\<close> seconds.
\<close>

definition clock_ok :: "env \<Rightarrow> bool" where
  "clock_ok E \<longleftrightarrow> (\<forall>tr q. clock E tr + (case q of Sleep t \<Rightarrow> max 0 t | _ \<Rightarrow> 0) \<le> clock E (tr @ [q]))"

lemma clock_ok_mono: "clock_ok E \<Longrightarrow> clock E tr \<le> clock E (tr @ t)"
proof (induction t rule: rev_induct)
  case (snoc q t)
  have "clock E (tr @ t) + (case q of Sleep u \<Rightarrow> max 0 u | _ \<Rightarrow> 0) \<le> clock E (tr @ t @ [q])"
    using snoc.prems unfolding clock_ok_def by (metis append_assoc)
  moreover have "(0::rat) \<le> (case q of Sleep u \<Rightarrow> max 0 u | _ \<Rightarrow> 0)" by (simp split: req.splits)
  ultimately show ?case using snoc by simp
qed simp

lemma clock_ok_sleep: "clock_ok E \<Longrightarrow> clock E tr + u \<le> clock E (tr @ [Sleep u])"
proof -
  assume "clock_ok E"
  then have "clock E tr + (case Sleep u of Sleep t \<Rightarrow> max 0 t | _ \<Rightarrow> 0) \<le> clock E (tr @ [Sleep u])"
    unfolding clock_ok_def by blast
  then show ?thesis by (simp add: max_def split: if_splits)
qed

lemma io_do_run [simp, prog_simps]: "io_do q ans s = Some (ans (trace s), s\<lparr>trace := trace s @ [q]\<rparr>)"
  by (simp add: io_do_def)

lemmas io_defs = sleep_def now_def subprocess_def open_connection_def random_sample_def
  random_randint_def random_shuffle_def yielding_def

text \<open>An environment on which witnesses are evaluated: every command prints nothing and succeeds.\<close>

definition quiet_env :: env where
  "quiet_env = \<lparr>spawn = (\<lambda>_ _ _. \<lparr>p_lines = [], p_status = Exited 0\<rparr>), dial = (\<lambda>_ _ _. None),
     clock = (\<lambda>tr. of_nat (length tr)), cancelled = (\<lambda>_. False),
     rnd_sample = (\<lambda>_ n k. [0..<k]), rnd_int = (\<lambda>_ a b. a), rnd_shuffle = (\<lambda>_ n. [0..<n]),
     mkdirs_errno = (\<lambda>_ _. None), file_lines = (\<lambda>_ _. Inr []), open_errno = (\<lambda>_ _. None)\<rparr>"

lemma random_ok_quiet [simp]: "random_ok (quiet_env\<lparr>spawn := sp, clock := c\<rparr>)"
  by (auto simp: random_ok_def quiet_env_def)

section \<open>What a program may do\<close>

definition emits :: "(req \<Rightarrow> bool) \<Rightarrow> ('x io_scheme, 'a) prog \<Rightarrow> bool" where
  "emits P m \<longleftrightarrow> (\<forall>s r s'. m s = Some (r, s') \<longrightarrow>
     (\<exists>t. s' = s\<lparr>trace := trace s @ t\<rparr> \<and> list_all P t))"

abbreviation only_io :: "('x io_scheme, 'a) prog \<Rightarrow> bool" where
  "only_io m \<equiv> emits (\<lambda>_. True) m"

lemma emitsD:
  assumes "emits P m" and "m s = Some (r, s')"
  obtains t where "s' = s\<lparr>trace := trace s @ t\<rparr>" "list_all P t"
  using assms unfolding emits_def by blast

lemma emits_more: "emits P m \<Longrightarrow> m s = Some (r, s') \<Longrightarrow> io.more s' = io.more s"
  by (auto elim: emitsD)

lemma emits_mono: "emits P m \<Longrightarrow> (\<And>q. P q \<Longrightarrow> Q q) \<Longrightarrow> emits Q m"
  unfolding emits_def by (metis list_all_iff)

lemma emits_ret [io_frame]: "emits P (ret a)"
  unfolding emits_def ret_def by (auto intro: exI [of _ "[]"])

lemma emits_raise [io_frame]: "emits P (raise e)"
  unfolding emits_def raise_def by (auto intro: exI [of _ "[]"])

lemma emits_liftR [io_frame]: "emits P (liftR r)"
  unfolding emits_def liftR_def by (auto intro: exI [of _ "[]"])

lemma emits_gets [io_frame]: "emits P (gets f)"
  unfolding emits_def gets_def by (auto intro: exI [of _ "[]"])

lemma emits_block [io_frame]: "emits P block"
  by (simp add: emits_def)

lemma emits_io_do [io_frame]: "P q \<Longrightarrow> emits P (io_do q ans)"
  unfolding emits_def by (auto intro: exI [of _ "[q]"])

lemma emits_trans:
  assumes "s1 = s\<lparr>trace := trace s @ t\<rparr>" "list_all P t"
    and "s2 = s1\<lparr>trace := trace s1 @ u\<rparr>" "list_all P u"
  shows "\<exists>v. s2 = s\<lparr>trace := trace s @ v\<rparr> \<and> list_all P v"
  using assms by (auto intro: exI [of _ "t @ u"])

lemma emits_bnd [io_frame]:
  assumes m: "emits P m" and f: "\<And>a. emits P (f a)"
  shows "emits P (bnd m f)"
  unfolding emits_def
proof (intro allI impI)
  fix s r s'
  assume "bnd m f s = Some (r, s')"
  then show "\<exists>t. s' = s\<lparr>trace := trace s @ t\<rparr> \<and> list_all P t"
  proof (cases rule: bnd_SomeE)
    case (returned a u)
    from m returned(1) obtain t where t: "u = s\<lparr>trace := trace s @ t\<rparr>" "list_all P t" by (rule emitsD)
    from f [of a] returned(2) obtain v where "s' = u\<lparr>trace := trace u @ v\<rparr>" "list_all P v" by (rule emitsD)
    with t show ?thesis by (rule emits_trans)
  qed (use m in \<open>auto elim: emitsD\<close>)
qed

lemma emits_catch [io_frame]:
  assumes m: "emits P m" and h: "\<And>e. emits P (h e)"
  shows "emits P (catch m h)"
  unfolding emits_def
proof (intro allI impI)
  fix s r s'
  assume "catch m h s = Some (r, s')"
  then show "\<exists>t. s' = s\<lparr>trace := trace s @ t\<rparr> \<and> list_all P t"
  proof (cases rule: catch_SomeE)
    case (raised e u)
    from m raised(1) obtain t where t: "u = s\<lparr>trace := trace s @ t\<rparr>" "list_all P t" by (rule emitsD)
    from h [of e] raised(2) obtain v where "s' = u\<lparr>trace := trace u @ v\<rparr>" "list_all P v" by (rule emitsD)
    with t show ?thesis by (rule emits_trans)
  qed (use m in \<open>auto elim: emitsD\<close>)
qed

lemma emits_forM [io_frame]: "(\<And>x. x \<in> set xs \<Longrightarrow> emits P (f x)) \<Longrightarrow> emits P (forM xs f)"
  by (induction xs) (auto intro!: io_frame)

lemma emits_mapM [io_frame]: "(\<And>x. x \<in> set xs \<Longrightarrow> emits P (f x)) \<Longrightarrow> emits P (mapM f xs)"
  by (induction xs) (auto intro!: io_frame)

lemma emits_if [io_frame]: "(b \<Longrightarrow> emits P m) \<Longrightarrow> (\<not> b \<Longrightarrow> emits P n) \<Longrightarrow> emits P (if b then m else n)"
  by simp

lemma wait_for_SomeE:
  assumes "wait_for E timeout m s = Some (r, t)"
  obtains D n r' where "m (with_deadline E D n) s = Some (r', t)" "r = r' \<or> r = Inl TimeoutError"
  using assms by (auto simp: wait_for_def Let_def Option.bind_eq_Some_conv split: if_splits)

lemma with_deadline_clock [simp]: "clock (with_deadline E D n) = clock E" "clock_ok (with_deadline E D n) = clock_ok E"
  "random_ok (with_deadline E D n) = random_ok E"
  by (simp_all add: with_deadline_def clock_ok_def random_ok_def)

lemma keeps_wait_for [keeps_intro]: "(\<And>E. keeps g (m E)) \<Longrightarrow> keeps g (wait_for E t m)"
  by (rule keepsI, erule wait_for_SomeE) (auto dest: keepsD)

lemma if_run_mono [partial_function_mono]:
  "mono_option (\<lambda>f. A f u) \<Longrightarrow> mono_option (\<lambda>f. B f u) \<Longrightarrow> mono_option (\<lambda>f. (if b then A f else B f) u)"
  by (cases b) simp_all

lemma case_option_run_mono [partial_function_mono]:
  "mono_option (\<lambda>f. A f u) \<Longrightarrow> (\<And>y. mono_option (\<lambda>f. B y f u)) \<Longrightarrow>
     mono_option (\<lambda>f. (case x of None \<Rightarrow> A f | Some y \<Rightarrow> B y f) u)"
  by (cases x) simp_all

lemma emits_case_option [io_frame]:
  "emits P m \<Longrightarrow> (\<And>y. emits P (n y)) \<Longrightarrow> emits P (case x of None \<Rightarrow> m | Some y \<Rightarrow> n y)"
  by (cases x) simp_all

lemma emits_prims [io_frame]:
  "P (Sleep t) \<Longrightarrow> emits P (sleep E t)"
  "P Clock \<Longrightarrow> emits P (now E)"
  "P (Exec argv i) \<Longrightarrow> emits P (subprocess E argv i)"
  "P (Connect h p) \<Longrightarrow> emits P (open_connection E h p)"
  "P (Sample n k) \<Longrightarrow> emits P (random_sample E n k)"
  "P (RandInt a b) \<Longrightarrow> emits P (random_randint E a b)"
  "P (Shuffle (length xs)) \<Longrightarrow> emits P (random_shuffle E xs)"
  unfolding io_defs by (auto intro: io_frame)

lemma emits_keeps: "emits P m \<Longrightarrow> keeps io.more m"
  by (rule keepsI) (rule emits_more)

lemma total_io_do [total_intro]: "returns (io_do q ans)"
  by (simp add: returns_def)

lemma total_wait_for [total_intro]:
  assumes "\<And>D n. returns (m (with_deadline E D n))"
  shows "returns (wait_for E t m)"
proof (rule totalI)
  fix s
  obtain r u where "m (with_deadline E (clock E (trace s) + t) (length (trace s))) s = Some (r, u)"
    using assms by (rule totalE)
  then show "\<exists>y. wait_for E t m s = Some y" by (simp add: wait_for_def Let_def)
qed

lemma total_prims [total_intro]:
  "returns (sleep E t)" "returns (now E)" "returns (subprocess E argv i)" "returns (open_connection E h p)"
  "returns (random_sample E n k)" "returns (random_randint E a b)" "returns (random_shuffle E xs)"
  unfolding io_defs by (auto intro: total_intro)

section \<open>The trace only grows\<close>

definition advances :: "('x io_scheme, 'a) prog \<Rightarrow> bool" where
  "advances m \<longleftrightarrow> (\<forall>s r t. m s = Some (r, t) \<longrightarrow> prefix (trace s) (trace t))"

lemma advancesD: "advances m \<Longrightarrow> m s = Some (r, t) \<Longrightarrow> prefix (trace s) (trace t)"
  by (simp add: advances_def)

lemma advancesI: "(\<And>s r t. m s = Some (r, t) \<Longrightarrow> prefix (trace s) (trace t)) \<Longrightarrow> advances m"
  by (simp add: advances_def)

lemma advances_atomic [adv_intro]:
  "advances (ret a)" "advances (raise e)" "advances (liftR r)" "advances (gets f)" "advances block"
  by (auto simp: advances_def prog_defs)

lemma advances_modify [adv_intro]: "(\<And>s. trace (h s) = trace s) \<Longrightarrow> advances (modify h)"
  by (simp add: advances_def)

lemma advances_bnd [adv_intro]: "advances m \<Longrightarrow> (\<And>a. advances (f a)) \<Longrightarrow> advances (bnd m f)"
  by (rule advancesI, erule bnd_SomeE) (auto dest: advancesD intro: prefix_order.order_trans)

lemma advances_emits: "emits P m \<Longrightarrow> advances m"
  by (rule advancesI) (auto elim: emitsD)

lemma advances_if [adv_intro]: "(b \<Longrightarrow> advances m) \<Longrightarrow> (\<not> b \<Longrightarrow> advances n) \<Longrightarrow> advances (if b then m else n)"
  by simp

lemma advances_case_prod [adv_intro]: "(\<And>a b. advances (f a b)) \<Longrightarrow> advances (case x of (a, b) \<Rightarrow> f a b)"
  by (cases x) simp

lemma advances_prims [adv_intro]:
  "advances (sleep E t)" "advances (now E)" "advances (random_shuffle E xs)"
  by (rule advances_emits [where P = "\<lambda>_. True"], intro io_frame TrueI)+

lemma advances_clock: "clock_ok E \<Longrightarrow> advances m \<Longrightarrow> m s = Some (r, t) \<Longrightarrow> clock E (trace s) \<le> clock E (trace t)"
  by (drule advancesD, assumption) (auto simp: prefix_def intro: clock_ok_mono)

section \<open>A world in which nothing fails\<close>

definition healthy :: "env \<Rightarrow> bool" where
  "healthy E \<longleftrightarrow> random_ok E \<and> (\<forall>tr. \<not> cancelled E tr) \<and>
     (\<forall>tr argv i. \<exists>ls. spawn E tr argv i = \<lparr>p_lines = ls, p_status = Exited 0\<rparr>)"

lemma healthy_sleep: "healthy E \<Longrightarrow> (\<And>s q. I s \<Longrightarrow> I (s\<lparr>trace := trace s @ [q]\<rparr>)) \<Longrightarrow> succeeds I (sleep E t)"
  by (simp add: healthy_def succeeds_def sleep_def yielding_def)

end
