(* ===== verification/Py_Strings.thy ===== *)
theory Py_Strings
  imports Prelude
begin

text \<open>
  The string operations of the Python standard library that the source uses, as executable
  functions on \<open>string\<close>: splitting and joining, stripping, decimal and hexadecimal printing,
  \<^verbatim>\<open>str.format\<close> with keyword fields, \<^verbatim>\<open>cgi.escape\<close> and \<^verbatim>\<open>os.path.join\<close>. A Python string is modelled by
  its bytes.
\<close>

section \<open>Splitting and joining\<close>

abbreviation newline :: char where "newline \<equiv> CHR 0x0A"

text \<open>\<^verbatim>\<open>s.split(c)\<close> for a one-character separator; never empty, and \<^verbatim>\<open>"".split(c) == [""]\<close>.\<close>

fun split_on :: "char \<Rightarrow> string \<Rightarrow> string list" where
  "split_on c [] = [[]]"
| "split_on c (x # s) = (if x = c then [] # split_on c s
     else (case split_on c s of [] \<Rightarrow> [[x]] | w # ws \<Rightarrow> (x # w) # ws))"

text \<open>\<^verbatim>\<open>s.split(c, n)\<close>: at most \<open>n\<close> cuts.\<close>

fun split_max :: "nat \<Rightarrow> char \<Rightarrow> string \<Rightarrow> string list" where
  "split_max n c [] = [[]]"
| "split_max n c (x # s) = (if x = c \<and> n > 0 then [] # split_max (n - 1) c s
     else (case split_max n c s of [] \<Rightarrow> [[x]] | w # ws \<Rightarrow> (x # w) # ws))"

fun join :: "string \<Rightarrow> string list \<Rightarrow> string" where
  "join sep [] = []"
| "join sep [w] = w"
| "join sep (w # v # ws) = w @ sep @ join sep (v # ws)"

lemma split_on_ne [simp]: "split_on c s \<noteq> []"
  by (induction s) (auto split: list.splits)

lemma split_max_ne [simp]: "split_max n c s \<noteq> []"
  by (induction n c s rule: split_max.induct) (auto split: list.splits)

lemma join_Cons_ne: "ws \<noteq> [] \<Longrightarrow> join sep (w # ws) = w @ sep @ join sep ws"
  by (cases ws) auto

lemma join_Cons_char [simp]: "join sep ((x # w) # ws) = x # join sep (w # ws)"
  by (cases ws) auto

lemma join_split_on: "join [c] (split_on c s) = s"
proof (induction s)
  case (Cons x s)
  then show ?case
    by (cases "split_on c s") (auto simp: join_Cons_ne neq_Nil_conv split: list.splits)
qed simp

lemma join_split_max: "join [c] (split_max n c s) = s"
proof (induction n c s rule: split_max.induct)
  case (2 n c x s)
  then show ?case
    by (cases "split_max n c s") (auto simp: join_Cons_ne neq_Nil_conv split: list.splits)
qed simp

lemma split_on_word: "c \<notin> set w \<Longrightarrow> split_on c w = [w]"
  by (induction w) auto

lemma split_on_append: "c \<notin> set w \<Longrightarrow> split_on c (w @ c # s) = w # split_on c s"
  by (induction w) auto

lemma split_on_join:
  "ws \<noteq> [] \<Longrightarrow> \<forall>w \<in> set ws. c \<notin> set w \<Longrightarrow> split_on c (join [c] ws) = ws"
  by (induction "[c]" ws rule: join.induct) (auto simp: split_on_word split_on_append)

lemma split_on_no_sep: "w \<in> set (split_on c s) \<Longrightarrow> c \<notin> set w"
  by (induction s arbitrary: w) (auto split: list.splits if_splits)

section \<open>Lines and white space\<close>

text \<open>The ASCII line boundaries of \<^verbatim>\<open>str.splitlines\<close>; a carriage return swallows a following newline.\<close>

definition is_linebreak :: "char \<Rightarrow> bool" where
  "is_linebreak c \<longleftrightarrow> c \<in> {CHR 0x0A, CHR 0x0B, CHR 0x0C, CHR 0x0D, CHR 0x1C, CHR 0x1D, CHR 0x1E}"

definition skip_newline :: "string \<Rightarrow> string" where
  "skip_newline s = (case s of y # s' \<Rightarrow> if y = newline then s' else s | [] \<Rightarrow> s)"

lemma length_skip_newline [termination_simp]: "length (skip_newline s) < Suc (length s)"
  by (auto simp: skip_newline_def split: list.splits)

fun splitlines_from :: "string \<Rightarrow> string \<Rightarrow> string list" where
  "splitlines_from acc [] = (if acc = [] then [] else [rev acc])"
| "splitlines_from acc (x # s) =
     (if x = CHR 0x0D then rev acc # splitlines_from [] (skip_newline s)
      else if is_linebreak x then rev acc # splitlines_from [] s
      else splitlines_from (x # acc) s)"

definition splitlines :: "string \<Rightarrow> string list" where
  "splitlines s = splitlines_from [] s"

definition is_space :: "char \<Rightarrow> bool" where
  "is_space c \<longleftrightarrow> c \<in> {CHR '' '', CHR 0x09, CHR 0x0A, CHR 0x0B, CHR 0x0C, CHR 0x0D,
     CHR 0x1C, CHR 0x1D, CHR 0x1E, CHR 0x1F}"

definition strip :: "string \<Rightarrow> string" where
  "strip s = rev (dropWhile is_space (rev (dropWhile is_space s)))"

definition endswith :: "string \<Rightarrow> string \<Rightarrow> bool" where
  "endswith s suf \<longleftrightarrow> length suf \<le> length s \<and> drop (length s - length suf) s = suf"

lemma endswith_append [simp]: "endswith (s @ suf) suf"
  by (simp add: endswith_def)

lemma endswith_char: "endswith s [c] \<longleftrightarrow> s \<noteq> [] \<and> last s = c"
proof (cases s rule: rev_cases)
  case (snoc s' x)
  then show ?thesis by (simp add: endswith_def)
qed (simp add: endswith_def)

section \<open>Numbers\<close>

definition digit :: "nat \<Rightarrow> char" where
  "digit n = char_of (48 + n)"

fun nat_str :: "nat \<Rightarrow> string" where
  "nat_str n = (if n < 10 then [digit n] else nat_str (n div 10) @ [digit (n mod 10)])"

declare nat_str.simps [simp del]

definition int_str :: "int \<Rightarrow> string" where
  "int_str i = (if i < 0 then CHR ''-'' # nat_str (nat (- i)) else nat_str (nat i))"

definition is_digit :: "char \<Rightarrow> bool" where
  "is_digit c \<longleftrightarrow> 48 \<le> (of_char c :: nat) \<and> (of_char c :: nat) \<le> 57"

definition digit_val :: "char \<Rightarrow> nat" where
  "digit_val c = of_char c - 48"

text \<open>\<^verbatim>\<open>int(s)\<close> for a string of digits, as the regular expressions of the source deliver them.\<close>

definition nat_of_digits :: "string \<Rightarrow> nat" where
  "nat_of_digits s = foldl (\<lambda>n c. 10 * n + digit_val c) 0 s"

lemma of_char_digit: "n < 10 \<Longrightarrow> (of_char (digit n) :: nat) = 48 + n"
  by (simp add: digit_def of_char_of)

lemma is_digit_digit [simp]: "n < 10 \<Longrightarrow> is_digit (digit n)"
  by (simp add: is_digit_def of_char_digit)

lemma digit_val_digit [simp]: "n < 10 \<Longrightarrow> digit_val (digit n) = n"
  by (simp add: digit_val_def of_char_digit)

lemma nat_str_ne [simp]: "nat_str n \<noteq> []"
  by (subst nat_str.simps) simp

lemma nat_str_digits: "c \<in> set (nat_str n) \<Longrightarrow> is_digit c"
proof (induction n rule: nat_str.induct)
  case (1 n)
  then show ?case
    by (subst (asm) nat_str.simps) (auto split: if_splits)
qed

lemma nat_of_digits_snoc: "nat_of_digits (s @ [c]) = 10 * nat_of_digits s + digit_val c"
  by (simp add: nat_of_digits_def)

lemma nat_of_digits_nat_str [simp]: "nat_of_digits (nat_str n) = n"
proof (induction n rule: nat_str.induct)
  case (1 n)
  show ?case
  proof (cases "n < 10")
    case True
    then show ?thesis by (subst nat_str.simps) (simp add: nat_of_digits_def)
  next
    case False
    with 1 show ?thesis by (subst nat_str.simps) (simp add: nat_of_digits_snoc)
  qed
qed

lemma nat_str_inject [simp]: "nat_str m = nat_str n \<longleftrightarrow> m = n"
  by (metis nat_of_digits_nat_str)

definition hex_digit :: "nat \<Rightarrow> char" where
  "hex_digit n = (if n < 10 then char_of (48 + n) else char_of (87 + n))"

text \<open>\<^verbatim>\<open>"%02x" % n\<close> for a byte.\<close>

definition hex2 :: "nat \<Rightarrow> string" where
  "hex2 n = [hex_digit (n div 16), hex_digit (n mod 16)]"

text \<open>
  \<^verbatim>\<open>str(v)\<close>, which \<^verbatim>\<open>"%s"\<close> and \<^verbatim>\<open>format\<close> apply to a value. The printing of floating point numbers and
  of containers is outside the fragment.
\<close>

fun py_str :: "pyval \<Rightarrow> string result" where
  "py_str PNone = Inr ''None''"
| "py_str (PBool b) = Inr (if b then ''True'' else ''False'')"
| "py_str (PInt n) = Inr (int_str n)"
| "py_str (PStr s) = Inr s"
| "py_str _ = Inl Unmodelled"

section \<open>Templates, escaping and paths\<close>

fun take_field :: "string \<Rightarrow> (string \<times> string) option" where
  "take_field [] = None"
| "take_field (x # s) = (if x = CHR ''}'' then Some ([], s)
     else map_option (\<lambda>(f, r). (x # f, r)) (take_field s))"

lemma take_field_shorter: "take_field s = Some (f, r) \<Longrightarrow> length r < length s"
  by (induction s arbitrary: f) (force split: if_splits)+

definition plain_field :: "string \<Rightarrow> bool" where
  "plain_field f \<longleftrightarrow> f \<noteq> [] \<and> (\<forall>c \<in> set f. c \<notin> {CHR ''{'', CHR ''!'', CHR '':'', CHR ''.'', CHR ''[''})
     \<and> \<not> is_digit (hd f)"

text \<open>
  \<^verbatim>\<open>tpl.format(**fields)\<close>: doubled braces are literal, \<^verbatim>\<open>{name}\<close> is replaced, a field that is not
  given raises \<open>KeyError\<close>, an unmatched brace \<open>ValueError\<close>. Positional fields, conversions,
  format specifications and attribute access are outside the fragment.
\<close>

function py_format :: "string \<Rightarrow> (string \<times> string) list \<Rightarrow> string result" where
  "py_format [] fs = Inr []"
| "py_format (x # s) fs =
     (if x = CHR ''{'' then
        (case s of
           [] \<Rightarrow> Inl (ValueError ''Single { encountered in format string'')
         | y # s' \<Rightarrow>
             if y = CHR ''{'' then bindR (py_format s' fs) (\<lambda>r. Inr (CHR ''{'' # r))
             else (case take_field s of
                 None \<Rightarrow> Inl (ValueError ''expected } before end of string'')
               | Some (f, r) \<Rightarrow>
                   if \<not> plain_field f then Inl Unmodelled
                   else (case dlookup fs f of
                       None \<Rightarrow> Inl (KeyError f)
                     | Some v \<Rightarrow> bindR (py_format r fs) (\<lambda>t. Inr (v @ t)))))
      else if x = CHR ''}'' then
        (case s of
           y # s' \<Rightarrow> if y = CHR ''}'' then bindR (py_format s' fs) (\<lambda>r. Inr (CHR ''}'' # r))
             else Inl (ValueError ''Single } encountered in format string'')
         | [] \<Rightarrow> Inl (ValueError ''Single } encountered in format string''))
      else bindR (py_format s fs) (\<lambda>r. Inr (x # r)))"
  by pat_completeness auto
termination
  by (relation "measure (\<lambda>(s, fs). length s)") (auto simp del: take_field.simps dest: take_field_shorter)

definition brace_free :: "string \<Rightarrow> bool" where
  "brace_free s \<longleftrightarrow> CHR ''{'' \<notin> set s \<and> CHR ''}'' \<notin> set s"

lemma py_format_text: "brace_free s \<Longrightarrow> py_format (s @ t) fs = bindR (py_format t fs) (\<lambda>r. Inr (s @ r))"
  by (induction s) (auto simp: brace_free_def bindR_def split: sum.splits)

lemma py_format_plain: "brace_free s \<Longrightarrow> py_format s fs = Inr s"
  using py_format_text [of s "[]"] by simp

text \<open>\<^verbatim>\<open>cgi.escape(s)\<close>, without quote conversion.\<close>

definition escape_char :: "char \<Rightarrow> string" where
  "escape_char c = (if c = CHR ''&'' then ''&amp;''
     else if c = CHR ''<'' then ''&lt;'' else if c = CHR ''>'' then ''&gt;'' else [c])"

definition cgi_escape :: "string \<Rightarrow> string" where
  "cgi_escape s = concat (map escape_char s)"

lemma cgi_escape_safe: "CHR ''<'' \<notin> set (cgi_escape s) \<and> CHR ''>'' \<notin> set (cgi_escape s)"
  by (auto simp: cgi_escape_def escape_char_def split: if_splits)

text \<open>\<^verbatim>\<open>os.path.join(a, b)\<close>: an absolute second part replaces the first.\<close>

definition path_join :: "string \<Rightarrow> string \<Rightarrow> string" where
  "path_join a b = (if b \<noteq> [] \<and> hd b = CHR ''/'' then b
     else if a = [] \<or> last a = CHR ''/'' then a @ b else a @ CHR ''/'' # b)"

lemma path_join_relative:
  "b = [] \<or> hd b \<noteq> CHR ''/'' \<Longrightarrow> \<exists>sep. path_join a b = a @ sep @ b \<and> sep \<in> {[], ''/''}"
  by (auto simp: path_join_def)

end
