(* ===== verification/Regex.thy ===== *)
theory Regex
  imports Py_Strings "HOL-Library.Sublist"
begin

text \<open>
  The fragment of Python's \<^verbatim>\<open>re\<close> module that the source relies on: literals, \<^verbatim>\<open>.\<close>, the escapes
  \<^verbatim>\<open>\d\<close> and \<^verbatim>\<open>\s\<close>, a range class such as \<^verbatim>\<open>[a-z]\<close>, the greedy quantifiers \<^verbatim>\<open>+\<close> and \<^verbatim>\<open>*\<close> on one character,
  groups that are not nested, and the anchors \<^verbatim>\<open>^\<close> and \<^verbatim>\<open>$\<close> in \<^verbatim>\<open>MULTILINE\<close> mode. A pattern is parsed
  from its string, so an interpolated name keeps its metacharacters; a pattern outside the fragment
  raises \<open>Unmodelled\<close>. Matching backtracks, longest repetition first, as the library does.
\<close>

datatype atom = Lit char | Dot | Digit | Space | Range char char

datatype ritem = Bol | Eol | GOpen | GClose | One atom | Star atom

section \<open>Parsing patterns\<close>

definition is_alnum :: "char \<Rightarrow> bool" where
  "is_alnum c = (let n = (of_char c :: nat) in
     (48 \<le> n \<and> n \<le> 57) \<or> (65 \<le> n \<and> n \<le> 90) \<or> (97 \<le> n \<and> n \<le> 122))"

definition re_special :: "char \<Rightarrow> bool" where
  "re_special c \<longleftrightarrow> c \<in> set ''^$.*+?()[{|'' \<or> c = CHR 0x5C"

fun parse_atom :: "string \<Rightarrow> (atom \<times> string) option" where
  "parse_atom [] = None"
| "parse_atom (c # s) =
     (if c = CHR 0x5C then
        (case s of
           [] \<Rightarrow> None
         | d # r \<Rightarrow> if d = CHR ''d'' then Some (Digit, r) else if d = CHR ''s'' then Some (Space, r)
                    else if is_alnum d then None else Some (Lit d, r))
      else if c = CHR ''['' then
        (case s of
           x # m # y # z # r \<Rightarrow>
             if m = CHR ''-'' \<and> z = CHR '']'' \<and> is_alnum x \<and> is_alnum y then Some (Range x y, r)
             else None
         | _ \<Rightarrow> None)
      else if c = CHR ''.'' then Some (Dot, s)
      else if re_special c then None
      else Some (Lit c, s))"

lemma parse_atom_shorter: "parse_atom s = Some (a, r) \<Longrightarrow> length r < length s"
  by (cases s) (auto split: if_splits list.splits)

text \<open>The flag says whether a group is open.\<close>

function re_parse :: "bool \<Rightarrow> string \<Rightarrow> ritem list option" where
  "re_parse g [] = (if g then None else Some [])"
| "re_parse g (c # s) =
     (if c = CHR ''^'' then map_option ((#) Bol) (re_parse g s)
      else if c = CHR ''$'' then map_option ((#) Eol) (re_parse g s)
      else if c = CHR ''('' then (if g then None else map_option ((#) GOpen) (re_parse True s))
      else if c = CHR '')'' then (if g then map_option ((#) GClose) (re_parse False s) else None)
      else (case parse_atom (c # s) of
          None \<Rightarrow> None
        | Some (a, r) \<Rightarrow>
            if r \<noteq> [] \<and> hd r = CHR ''+'' then map_option (\<lambda>its. One a # Star a # its) (re_parse g (tl r))
            else if r \<noteq> [] \<and> hd r = CHR ''*'' then map_option ((#) (Star a)) (re_parse g (tl r))
            else map_option ((#) (One a)) (re_parse g r)))"
  by pat_completeness auto
termination
  by (relation "measure (\<lambda>(g, s). length s)")
    (auto simp del: parse_atom.simps dest!: parse_atom_shorter)

section \<open>Matching\<close>

fun amatch :: "atom \<Rightarrow> char \<Rightarrow> bool" where
  "amatch (Lit c) x = (x = c)"
| "amatch Dot x = (x \<noteq> newline)"
| "amatch Digit x = is_digit x"
| "amatch Space x = is_space x"
| "amatch (Range a b) x = ((of_char a :: nat) \<le> of_char x \<and> (of_char x :: nat) \<le> of_char b)"

definition grab :: "string option \<Rightarrow> char \<Rightarrow> string option" where
  "grab cap x = map_option (\<lambda>w. w @ [x]) cap"

text \<open>
  \<open>mt its prev s cap gs\<close>: match the items from here, after the character \<open>prev\<close>, on the rest \<open>s\<close> of
  the subject, with the text of the open group in \<open>cap\<close> and the closed groups in \<open>gs\<close>.
\<close>

fun mt :: "ritem list \<Rightarrow> char option \<Rightarrow> string \<Rightarrow> string option \<Rightarrow> string list \<Rightarrow> string list option" where
  "mt [] p s cap gs = Some gs"
| "mt (Bol # its) p s cap gs = (if p = None \<or> p = Some newline then mt its p s cap gs else None)"
| "mt (Eol # its) p s cap gs = (if s = [] \<or> hd s = newline then mt its p s cap gs else None)"
| "mt (GOpen # its) p s cap gs = mt its p s (Some []) gs"
| "mt (GClose # its) p s cap gs = mt its p s None (gs @ (case cap of Some w \<Rightarrow> [w] | None \<Rightarrow> []))"
| "mt (One a # its) p s cap gs =
     (case s of [] \<Rightarrow> None | x # s' \<Rightarrow> if amatch a x then mt its (Some x) s' (grab cap x) gs else None)"
| "mt (Star a # its) p s cap gs =
     (case s of
        [] \<Rightarrow> mt its p [] cap gs
      | x # s' \<Rightarrow>
          if amatch a x then
            (case mt (Star a # its) (Some x) s' (grab cap x) gs of
               Some r \<Rightarrow> Some r
             | None \<Rightarrow> mt its p (x # s') cap gs)
          else mt its p (x # s') cap gs)"

fun search :: "ritem list \<Rightarrow> char option \<Rightarrow> string \<Rightarrow> string list option" where
  "search its p [] = mt its p [] None []"
| "search its p (x # s) = (case mt its p (x # s) None [] of
     Some r \<Rightarrow> Some r | None \<Rightarrow> search its (Some x) s)"

definition re_compile :: "string \<Rightarrow> ritem list result" where
  "re_compile pat = (case re_parse False pat of None \<Rightarrow> Inl Unmodelled | Some its \<Rightarrow> Inr its)"

text \<open>\<^verbatim>\<open>re.search(pat, s, re.MULTILINE)\<close>: the groups of the first match.\<close>

definition re_search :: "string \<Rightarrow> string \<Rightarrow> string list option result" where
  "re_search pat s = bindR (re_compile pat) (\<lambda>its. Inr (search its None s))"

text \<open>\<^verbatim>\<open>re.compile(pat).match(s)\<close>, anchored at the start.\<close>

definition re_match :: "string \<Rightarrow> string \<Rightarrow> string list option result" where
  "re_match pat s = bindR (re_compile pat) (\<lambda>its. Inr (mt its None s None []))"

text \<open>\<^verbatim>\<open>re.compile(pat).search(s, pos)\<close>: the second argument of the method is a start position.\<close>

definition re_search_pos :: "string \<Rightarrow> string \<Rightarrow> nat \<Rightarrow> string list option result" where
  "re_search_pos pat s pos = bindR (re_compile pat) (\<lambda>its.
     Inr (search its (if pos = 0 \<or> s = [] then None else Some (last (take pos s))) (drop pos s)))"

section \<open>What a search finds\<close>

definition prev_char :: "char option \<Rightarrow> string \<Rightarrow> char option" where
  "prev_char p u = (if u = [] then p else Some (last u))"

lemma prev_char_simps [simp]:
  "prev_char p [] = p"
  "prev_char p (x # u) = prev_char (Some x) u"
  by (simp_all add: prev_char_def)

lemma search_None_iff:
  "search its p s = None \<longleftrightarrow> (\<forall>u v. s = u @ v \<longrightarrow> mt its (prev_char p u) v None [] = None)"
proof (induction s arbitrary: p)
  case (Cons x s)
  have "(\<forall>u v. x # s = u @ v \<longrightarrow> mt its (prev_char p u) v None [] = None) \<longleftrightarrow>
    mt its p (x # s) None [] = None \<and>
    (\<forall>u v. s = u @ v \<longrightarrow> mt its (prev_char (Some x) u) v None [] = None)"
    (is "?all \<longleftrightarrow> ?hd \<and> ?tl")
  proof
    assume A: ?all
    have "mt its (prev_char (Some x) u) v None [] = None" if "s = u @ v" for u v
      using A [rule_format, of "x # u" v] that by simp
    moreover have ?hd using A [rule_format, of "[]" "x # s"] by simp
    ultimately show "?hd \<and> ?tl" by blast
  next
    assume B: "?hd \<and> ?tl"
    show ?all
    proof (intro allI impI)
      fix u v
      assume "x # s = u @ v"
      with B show "mt its (prev_char p u) v None [] = None" by (cases u) auto
    qed
  qed
  with Cons.IH [of "Some x"] show ?case by (simp split: option.splits)
qed simp

definition lits :: "string \<Rightarrow> ritem list" where
  "lits w = map (One \<circ> Lit) w"

lemma mt_lits:
  "mt (lits w @ its) p s None gs =
     (if prefix w s then mt its (prev_char p w) (drop (length w) s) None gs else None)"
proof (induction w arbitrary: p s)
  case (Cons x w)
  then show ?case
    by (cases s) (auto simp: lits_def grab_def prev_char_def)
qed (simp add: lits_def)

lemma mt_lits_end [simp]: "mt (lits w) p s None gs = (if prefix w s then Some gs else None)"
  using mt_lits [of w "[]" p s gs] by simp

text \<open>A plain word parses to itself, unless a quantifier follows it.\<close>

definition plain_word :: "string \<Rightarrow> bool" where
  "plain_word w \<longleftrightarrow> (\<forall>c \<in> set w. \<not> re_special c)"

lemma re_parse_plain:
  assumes "plain_word w" and "r = [] \<or> hd r \<notin> {CHR ''+'', CHR ''*''}"
  shows "re_parse g (w @ r) = map_option (\<lambda>its. lits w @ its) (re_parse g r)"
  using assms
proof (induction w)
  case (Cons c w)
  have special: "\<not> re_special c" and IH: "re_parse g (w @ r) = map_option (\<lambda>its. lits w @ its) (re_parse g r)"
    using Cons by (auto simp: plain_word_def)
  have nx: "w @ r = [] \<or> hd (w @ r) \<notin> {CHR ''+'', CHR ''*''}"
    using Cons.prems by (cases w) (auto simp: plain_word_def re_special_def)
  have "parse_atom (c # (w @ r)) = Some (Lit c, w @ r)"
    using special by (auto simp: re_special_def)
  moreover have "c \<notin> set ''^$()''" using special by (auto simp: re_special_def)
  ultimately have "re_parse g (c # (w @ r)) = map_option ((#) (One (Lit c))) (re_parse g (w @ r))"
    using nx by (auto simp del: parse_atom.simps)
  with IH show ?case by (simp add: lits_def option.map_comp comp_def)
qed (simp add: lits_def option.map_ident fun_eq_iff map_option_cong)

section \<open>Anchored words and lines\<close>

lemma join_mid: "join [c] (xs @ w # ys) = concat (map (\<lambda>x. x @ [c]) xs) @ w @ concat (map ((#) c) ys)"
proof -
  have "join [c] (w # ys) = w @ concat (map ((#) c) ys)" for w
    by (induction ys arbitrary: w) auto
  then show ?thesis by (induction xs) (auto simp: join_Cons_ne)
qed

lemma split_on_suffix: "\<exists>ws. ws \<noteq> [] \<and> split_on c (q @ c # t) = ws @ split_on c t"
proof (induction q)
  case (Cons x q)
  then obtain w ws where "split_on c (q @ c # t) = (w # ws) @ split_on c t" by (metis neq_Nil_conv)
  then show ?case by (auto intro: exI [of _ "[] # w # ws"] exI [of _ "(x # w) # ws"])
qed (auto intro: exI [of _ "[[]]"])

lemma split_on_mem:
  assumes "c \<notin> set w"
  shows "w \<in> set (split_on c s) \<longleftrightarrow>
    (\<exists>u r. s = u @ w @ r \<and> (u = [] \<or> last u = c) \<and> (r = [] \<or> hd r = c))" (is "?L \<longleftrightarrow> ?R")
proof
  assume ?L
  then obtain xs ys where sp: "split_on c s = xs @ w # ys" by (meson split_list)
  let ?u = "concat (map (\<lambda>x. x @ [c]) xs)" and ?r = "concat (map ((#) c) ys)"
  have "s = ?u @ w @ ?r" using join_split_on [of c s] sp join_mid by simp
  moreover have "?u = [] \<or> last ?u = c" by (cases xs rule: rev_cases) auto
  moreover have "?r = [] \<or> hd ?r = c" by (cases ys) auto
  ultimately show ?R by blast
next
  assume ?R
  then obtain u r where s: "s = u @ w @ r" and u: "u = [] \<or> last u = c" and r: "r = [] \<or> hd r = c"
    by blast
  have wr: "w \<in> set (split_on c (w @ r))"
    using assms r by (cases r) (auto simp: split_on_word split_on_append)
  show ?L
  proof (cases u rule: rev_cases)
    case Nil
    with s wr show ?thesis by simp
  next
    case (snoc q x)
    with u have "s = q @ c # (w @ r)" using s by simp
    with wr split_on_suffix [of c q "w @ r"] show ?thesis by auto
  qed
qed

lemma search_Some_mt: "search its p t = Some g \<Longrightarrow> \<exists>p v. mt its p v None [] = Some g"
  by (induction t arbitrary: p) (auto split: option.splits)

lemma mt_line:
  "mt (Bol # lits w @ [Eol]) p v None [] =
     (if (p = None \<or> p = Some newline) \<and> (\<exists>r. v = w @ r \<and> (r = [] \<or> hd r = newline))
      then Some [] else None)"
  by (auto simp: mt_lits prefix_def)

lemma search_line:
  assumes "newline \<notin> set w"
  shows "search (Bol # lits w @ [Eol]) None s = (if w \<in> set (split_on newline s) then Some [] else None)"
proof -
  have "search (Bol # lits w @ [Eol]) None s \<noteq> None \<longleftrightarrow> (\<exists>u v. s = u @ v \<and>
      (u = [] \<or> last u = newline) \<and> (\<exists>r. v = w @ r \<and> (r = [] \<or> hd r = newline)))"
    unfolding search_None_iff mt_line by (auto simp: prev_char_def)
  also have "\<dots> \<longleftrightarrow> w \<in> set (split_on newline s)"
    unfolding split_on_mem [OF assms] by auto
  finally have "search (Bol # lits w @ [Eol]) None s \<noteq> None \<longleftrightarrow> w \<in> set (split_on newline s)" .
  moreover have "g = []" if "search (Bol # lits w @ [Eol]) None s = Some g" for g
    using search_Some_mt [OF that] by (auto simp only: mt_line split: if_splits)
  ultimately show ?thesis by (auto simp del: mt.simps)
qed

text \<open>A word anchored on one side only: some line begins, or ends, with it.\<close>

lemma cut_after_last: "\<exists>a b. u = a @ b \<and> c \<notin> set b \<and> (a = [] \<or> last a = c)"
proof (induction u)
  case (Cons x u)
  then obtain a b where ab: "u = a @ b" "c \<notin> set b" "a = [] \<or> last a = c" by blast
  show ?case
  proof (cases "a = [] \<and> x \<noteq> c")
    case True
    with ab show ?thesis by (intro exI [of _ "[]"] exI [of _ "x # b"]) auto
  next
    case False
    with ab show ?thesis by (intro exI [of _ "x # a"] exI [of _ b]) auto
  qed
qed simp

lemma cut_before_first: "\<exists>a b. r = a @ b \<and> c \<notin> set a \<and> (b = [] \<or> hd b = c)"
proof -
  let ?a = "takeWhile (\<lambda>x. x \<noteq> c) r" and ?b = "dropWhile (\<lambda>x. x \<noteq> c) r"
  have "r = ?a @ ?b" by simp
  moreover have "c \<notin> set ?a" by (auto dest: set_takeWhileD)
  moreover have "?b = [] \<or> hd ?b = c" using hd_dropWhile [of "\<lambda>x. x \<noteq> c" r] by auto
  ultimately show ?thesis by blast
qed

lemma line_suffix_iff:
  assumes "newline \<notin> set w"
  shows "(\<exists>u r. s = u @ w @ r \<and> (r = [] \<or> hd r = newline)) \<longleftrightarrow> (\<exists>line \<in> set (split_on newline s). suffix w line)"
proof
  assume "\<exists>u r. s = u @ w @ r \<and> (r = [] \<or> hd r = newline)"
  then obtain u r where s: "s = u @ w @ r" "r = [] \<or> hd r = newline" by blast
  obtain a b where ab: "u = a @ b" "newline \<notin> set b" "a = [] \<or> last a = newline"
    using cut_after_last [of u newline] by metis
  have nl: "newline \<notin> set (b @ w)" using assms ab by simp
  have "s = a @ (b @ w) @ r" using s ab by simp
  then have "b @ w \<in> set (split_on newline s)" unfolding split_on_mem [OF nl] using s(2) ab(3) by blast
  then show "\<exists>line \<in> set (split_on newline s). suffix w line" by (auto simp: suffix_def)
next
  assume "\<exists>line \<in> set (split_on newline s). suffix w line"
  then obtain b where b: "b @ w \<in> set (split_on newline s)" by (auto simp: suffix_def)
  have nl: "newline \<notin> set (b @ w)" using b by (rule split_on_no_sep)
  obtain u r where "s = u @ (b @ w) @ r" "r = [] \<or> hd r = newline" using b unfolding split_on_mem [OF nl] by blast
  then show "\<exists>u r. s = u @ w @ r \<and> (r = [] \<or> hd r = newline)" by (metis append_assoc)
qed

lemma line_prefix_iff:
  assumes "newline \<notin> set w"
  shows "(\<exists>u r. s = u @ w @ r \<and> (u = [] \<or> last u = newline)) \<longleftrightarrow> (\<exists>line \<in> set (split_on newline s). prefix w line)"
proof
  assume "\<exists>u r. s = u @ w @ r \<and> (u = [] \<or> last u = newline)"
  then obtain u r where s: "s = u @ w @ r" "u = [] \<or> last u = newline" by blast
  obtain a b where ab: "r = a @ b" "newline \<notin> set a" "b = [] \<or> hd b = newline"
    using cut_before_first [of r newline] by metis
  have nl: "newline \<notin> set (w @ a)" using assms ab by simp
  have "s = u @ (w @ a) @ b" using s ab by simp
  then have "w @ a \<in> set (split_on newline s)" unfolding split_on_mem [OF nl] using s(2) ab(3) by blast
  then show "\<exists>line \<in> set (split_on newline s). prefix w line" by (auto simp: prefix_def)
next
  assume "\<exists>line \<in> set (split_on newline s). prefix w line"
  then obtain a where a: "w @ a \<in> set (split_on newline s)" by (auto simp: prefix_def)
  have nl: "newline \<notin> set (w @ a)" using a by (rule split_on_no_sep)
  obtain u r where "s = u @ (w @ a) @ r" "u = [] \<or> last u = newline" using a unfolding split_on_mem [OF nl] by blast
  then show "\<exists>u r. s = u @ w @ r \<and> (u = [] \<or> last u = newline)" by (metis append_assoc)
qed

lemma mt_line_end:
  "mt (lits w @ [Eol]) p v None [] = (if \<exists>r. v = w @ r \<and> (r = [] \<or> hd r = newline) then Some [] else None)"
  by (auto simp: mt_lits prefix_def)

lemma mt_line_start:
  "mt (Bol # lits w) p v None [] = (if (p = None \<or> p = Some newline) \<and> (\<exists>r. v = w @ r) then Some [] else None)"
  by (auto simp: prefix_def)

lemma search_line_suffix:
  assumes "newline \<notin> set w"
  shows "search (lits w @ [Eol]) None s \<noteq> None \<longleftrightarrow> (\<exists>line \<in> set (split_on newline s). suffix w line)"
  unfolding search_None_iff mt_line_end line_suffix_iff [OF assms, symmetric] by auto

lemma search_line_prefix:
  assumes "newline \<notin> set w"
  shows "search (Bol # lits w) None s \<noteq> None \<longleftrightarrow> (\<exists>line \<in> set (split_on newline s). prefix w line)"
  unfolding search_None_iff mt_line_start line_prefix_iff [OF assms, symmetric]
  by (auto simp: prev_char_def)

section \<open>Patterns made of a plain word\<close>

lemma re_search_whole_line:
  assumes "plain_word w" "newline \<notin> set w"
  shows "re_search (''^'' @ w @ ''$'') s = Inr (if w \<in> set (split_on newline s) then Some [] else None)"
proof -
  have "re_parse False (w @ ''$'') = Some (lits w @ [Eol])"
    using re_parse_plain [OF assms(1), of "''$''" False] by simp
  then show ?thesis by (simp add: re_search_def re_compile_def search_line [OF assms(2)] del: search.simps)
qed

lemma re_search_line_end:
  assumes "plain_word w" "newline \<notin> set w"
  shows "\<exists>r. re_search (w @ ''$'') s = Inr r \<and> (r \<noteq> None \<longleftrightarrow> (\<exists>line \<in> set (split_on newline s). suffix w line))"
proof -
  have "re_parse False (w @ ''$'') = Some (lits w @ [Eol])"
    using re_parse_plain [OF assms(1), of "''$''" False] by simp
  then show ?thesis
    using search_line_suffix [OF assms(2)] by (simp add: re_search_def re_compile_def del: search.simps)
qed

lemma re_search_line_start:
  assumes "plain_word w" "newline \<notin> set w"
  shows "\<exists>r. re_search (''^'' @ w) s = Inr r \<and> (r \<noteq> None \<longleftrightarrow> (\<exists>line \<in> set (split_on newline s). prefix w line))"
proof -
  have "re_parse False w = Some (lits w)"
    using re_parse_plain [OF assms(1), of "[]" False] by simp
  then show ?thesis
    using search_line_prefix [OF assms(2)] by (simp add: re_search_def re_compile_def del: search.simps)
qed

section \<open>Greedy repetition on a run\<close>

definition grabs :: "string option \<Rightarrow> string \<Rightarrow> string option" where
  "grabs cap w = map_option (\<lambda>v. v @ w) cap"

lemma grabs_simps [simp]:
  "grabs cap [] = cap"
  "grabs (grab cap x) w = grabs cap (x # w)"
  "grabs (Some v) w = Some (v @ w)"
  "grabs None w = None"
  by (cases cap; simp add: grabs_def grab_def)+

lemma mt_star_run:
  assumes "list_all (amatch a) w" and "s = [] \<or> \<not> amatch a (hd s)"
    and "mt its (prev_char p w) s (grabs cap w) gs = Some r"
  shows "mt (Star a # its) p (w @ s) cap gs = Some r"
  using assms
proof (induction w arbitrary: p cap)
  case Nil
  then show ?case by (cases s) auto
qed simp

lemma mt_one: "amatch a x \<Longrightarrow> mt (One a # its) p (x # s) cap gs = mt its (Some x) s (grab cap x) gs"
  by simp

lemma mt_plus_run:
  assumes "w \<noteq> []" and "list_all (amatch a) w" and "s = [] \<or> \<not> amatch a (hd s)"
    and "mt its (prev_char p w) s (grabs cap w) gs = Some r"
  shows "mt (One a # Star a # its) p (w @ s) cap gs = Some r"
proof -
  obtain x w' where w: "w = x # w'" using assms(1) by (cases w) auto
  with assms(2) have "amatch a x" "list_all (amatch a) w'" by auto
  moreover have "mt (Star a # its) (Some x) (w' @ s) (grab cap x) gs = Some r"
    using w assms(3,4) calculation(2) by (intro mt_star_run) simp_all
  ultimately show ?thesis using w by (simp del: mt.simps add: mt_one)
qed

end
