(* ===== verification/Ssh.thy ===== *)
theory Ssh
  imports World Py_Strings
begin

text \<open>
  \<^verbatim>\<open>rallyci/common/asyncssh.py\<close>: the class \<^verbatim>\<open>AsyncSSH\<close>, through which the program reaches every remote
  host. An instance is a record; its flag \<^verbatim>\<open>_ready\<close> is the presence of its \<open>SshReady\<close> event in the
  trace. \<open>ssh_wait\<close> polls the port until it answers or the timeout passes, \<open>ssh_run\<close> runs one
  command and hands every output line to a callback, \<open>scp_get\<close> copies a file.
\<close>

record ssh =
  sid :: nat
  username :: string
  hostname :: string
  key :: "string option"
  port :: string

datatype command = CmdStr string | CmdList "string list"

datatype answer = Code int | Output string

definition ssh_new :: "string option \<Rightarrow> string \<Rightarrow> string option \<Rightarrow> string \<Rightarrow> ('x io_scheme, ssh) prog" where
  "ssh_new user host k p = (\<lambda>s.
     Some (Inr \<lparr>sid = length (filter (\<lambda>q. q = SshNew) (trace s)),
                username = (case user of Some u \<Rightarrow> if u \<noteq> [] then u else ''root'' | None \<Rightarrow> ''root''),
                hostname = host, key = k, port = p\<rparr>,
           s\<lparr>trace := trace s @ [SshNew]\<rparr>))"

text \<open>\<^verbatim>\<open>AsyncSSH(**cfg)\<close> for a configuration dictionary: an unknown keyword is a \<open>TypeError\<close>.\<close>

definition opt_str :: "pyval \<Rightarrow> string option result" where
  "opt_str v = (if \<not> truthy v then Inr None else bindR (as_str TypeError v) (\<lambda>s. Inr (Some s)))"

definition ssh_of_cfg :: "pyval \<Rightarrow> ('x io_scheme, ssh) prog" where
  "ssh_of_cfg cfg = (case cfg of
     PDict d \<Rightarrow>
       if list_all (\<lambda>(k, v). k \<in> {''username'', ''hostname'', ''key'', ''port'', ''cb''}) d then
         bnd (liftR (opt_str (case dlookup d ''username'' of Some v \<Rightarrow> v | None \<Rightarrow> PNone))) (\<lambda>u.
         bnd (liftR (py_str (case dlookup d ''hostname'' of Some v \<Rightarrow> v | None \<Rightarrow> PNone))) (\<lambda>h.
         bnd (liftR (opt_str (case dlookup d ''key'' of Some v \<Rightarrow> v | None \<Rightarrow> PNone))) (\<lambda>k.
         bnd (liftR (py_str (case dlookup d ''port'' of Some v \<Rightarrow> v | None \<Rightarrow> PInt 22))) (\<lambda>p.
         ssh_new u h k p))))
       else raise TypeError
   | _ \<Rightarrow> raise TypeError)"

section \<open>Waiting for the port\<close>

definition try_connect :: "env \<Rightarrow> ssh \<Rightarrow> ('x io_scheme, bool) prog" where
  "try_connect E h =
     (if \<not> list_all is_digit (port h) \<or> port h = [] then raise (ValueError (port h))
      else catch (bnd (open_connection E (hostname h) (port h)) (\<lambda>_.
                  bnd (io_do (SshReady (sid h)) (\<lambda>_. Inr ())) (\<lambda>_. ret True)))
             (\<lambda>e. if e = ConnectionError then ret False else raise e))"

partial_function (option) wait_loop :: "env \<Rightarrow> ssh \<Rightarrow> rat \<Rightarrow> rat \<Rightarrow> ('x io_scheme, unit) prog" where
  "wait_loop E h start timeout s =
     bnd (try_connect E h) (\<lambda>ok. if ok then ret () else
     bnd (now E) (\<lambda>t. if t - start > timeout
       then raise (GenericError (''Timeout waiting for '' @ hostname h @ '':'' @ port h))
       else bnd (sleep E 1) (\<lambda>_. wait_loop E h start timeout))) s"

definition ssh_wait :: "env \<Rightarrow> ssh \<Rightarrow> rat \<Rightarrow> ('x io_scheme, unit) prog" where
  "ssh_wait E h timeout = bnd (now E) (\<lambda>start. wait_loop E h start timeout)"

section \<open>Running a command\<close>

definition is_ready :: "ssh \<Rightarrow> 'x io_scheme \<Rightarrow> bool" where
  "is_ready h s \<longleftrightarrow> SshReady (sid h) \<in> set (trace s)"

definition ssh_argv :: "ssh \<Rightarrow> string option \<Rightarrow> command \<Rightarrow> string list" where
  "ssh_argv h user cmd =
     (let u = (case user of Some u \<Rightarrow> if u \<noteq> [] then u else username h | None \<Rightarrow> username h) in
      [''ssh'', ''-T'', ''-o'', ''StrictHostKeyChecking=no'', u @ ''@'' @ hostname h, ''-p'', port h]
      @ (case key h of Some k \<Rightarrow> if k \<noteq> [] then [''-i'', k] else [] | None \<Rightarrow> [])
      @ (case cmd of CmdStr c \<Rightarrow> split_on (CHR '' '') c | CmdList cs \<Rightarrow> cs))"

text \<open>The outcome of a process whose lines have been handed to the callback.\<close>

definition finish_run :: "string list \<Rightarrow> proc \<Rightarrow> bool \<Rightarrow> bool \<Rightarrow> bool \<Rightarrow> answer result" where
  "finish_run cmd p return_output strip_output raise_on_error =
     (case p_status p of
        ReadCancelled \<Rightarrow> Inl CancelledError
      | Exited rc \<Rightarrow>
          if rc \<noteq> 0 \<and> raise_on_error then
            (if p_lines p = [] then Inl UnboundLocalError
             else Inl (SSHError (''Cmd '' @ [CHR 0x27] @ join '' '' cmd @ [CHR 0x27] @ '' failed. Exit code: '' @ int_str rc)))
          else if return_output then
            Inr (Output (if strip_output then strip (concat (p_lines p)) else concat (p_lines p)))
          else Inr (Code rc))"

definition ssh_exec :: "env \<Rightarrow> ssh \<Rightarrow> (string \<Rightarrow> ('x io_scheme, unit) prog) \<Rightarrow> command \<Rightarrow> string option
    \<Rightarrow> bool \<Rightarrow> bool \<Rightarrow> bool \<Rightarrow> string option \<Rightarrow> ('x io_scheme, answer) prog" where
  "ssh_exec E h cb cmd stdin return_output strip_output raise_on_error user =
     bnd (subprocess E (ssh_argv h user cmd) stdin) (\<lambda>p.
     bnd (forM (p_lines p) cb) (\<lambda>_.
     liftR (finish_run (ssh_argv h user cmd) p return_output strip_output raise_on_error)))"

definition ssh_run :: "env \<Rightarrow> ssh \<Rightarrow> (string \<Rightarrow> ('x io_scheme, unit) prog) \<Rightarrow> command \<Rightarrow> string option
    \<Rightarrow> bool \<Rightarrow> bool \<Rightarrow> bool \<Rightarrow> string option \<Rightarrow> ('x io_scheme, answer) prog" where
  "ssh_run E h cb cmd stdin return_output strip_output raise_on_error user =
     bnd (gets (is_ready h)) (\<lambda>rdy.
     bnd (if rdy then ret None
          else catch (bnd (ssh_wait E h 300) (\<lambda>_. ret None))
                 (\<lambda>e. if raise_on_error then raise e else ret (Some (Code (- 1))))) (\<lambda>early.
     case early of
       Some a \<Rightarrow> ret a
     | None \<Rightarrow> ssh_exec E h cb cmd stdin return_output strip_output raise_on_error user))"

text \<open>The call forms the source uses: the default callback only logs.\<close>

definition no_cb :: "string \<Rightarrow> ('x io_scheme, unit) prog" where
  "no_cb line = ret ()"

definition sh :: "env \<Rightarrow> ssh \<Rightarrow> string \<Rightarrow> ('x io_scheme, unit) prog" where
  "sh E h cmd = bnd (ssh_run E h no_cb (CmdStr cmd) None False True True None) (\<lambda>_. ret ())"

definition sh_output :: "env \<Rightarrow> ssh \<Rightarrow> string \<Rightarrow> ('x io_scheme, string) prog" where
  "sh_output E h cmd = bnd (ssh_run E h no_cb (CmdStr cmd) None True True True None) (\<lambda>a.
     case a of Output out \<Rightarrow> ret out | Code _ \<Rightarrow> raise AttributeError)"

text \<open>With \<^verbatim>\<open>raise_on_error=False\<close>: the exit code, or \<open>- 1\<close> when the host cannot be reached.\<close>

definition sh_status :: "env \<Rightarrow> ssh \<Rightarrow> string \<Rightarrow> ('x io_scheme, answer) prog" where
  "sh_status E h cmd = ssh_run E h no_cb (CmdStr cmd) None False True False None"

definition scp_get :: "env \<Rightarrow> ssh \<Rightarrow> string \<Rightarrow> string \<Rightarrow> ('x io_scheme, unit) prog" where
  "scp_get E h src dst =
     bnd (subprocess E ([''scp'', ''-B'', ''-o'', ''StrictHostKeyChecking no'']
            @ (case key h of Some k \<Rightarrow> if k \<noteq> [] then [''-i'', k] else [] | None \<Rightarrow> [])
            @ [''-P'', port h] @ [''-r'', username h @ ''@'' @ hostname h @ '':'' @ src, dst]) None) (\<lambda>p.
     case p_status p of
       ReadCancelled \<Rightarrow> bnd (io_do Terminate (\<lambda>_. Inr ())) (\<lambda>_. raise CancelledError)
     | Exited _ \<Rightarrow> ret ())"

section \<open>What an instance can do\<close>

text \<open>The requests an instance may make: only to its own host and port, only as \<^verbatim>\<open>ssh\<close> command lines.\<close>

fun conn_req :: "ssh \<Rightarrow> req \<Rightarrow> bool" where
  "conn_req h (Connect a p) = (a = hostname h \<and> p = port h)"
| "conn_req h (SshReady n) = (n = sid h)"
| "conn_req h Clock = True"
| "conn_req h (Sleep t) = (t = 1)"
| "conn_req h _ = False"

definition ssh_req :: "ssh \<Rightarrow> req \<Rightarrow> bool" where
  "ssh_req h q \<longleftrightarrow> conn_req h q \<or> (\<exists>user cmd i. q = Exec (ssh_argv h user cmd) i)"

lemma conn_ssh_req: "conn_req h q \<Longrightarrow> ssh_req h q"
  by (simp add: ssh_req_def)

lemma emits_try_connect [io_frame]: "emits (conn_req h) (try_connect E h)"
  unfolding try_connect_def by (auto intro!: io_frame)

lemma emits_wait_loop [io_frame]: "emits (conn_req h) (wait_loop E h start timeout)"
  unfolding emits_def
proof (intro allI impI)
  fix s :: "'a io_scheme" and r s'
  assume ret: "wait_loop E h start timeout s = Some (r, s')"
  let ?P = "\<lambda>E h start timeout (s :: 'a io_scheme) (y :: unit result \<times> 'a io_scheme).
    \<exists>t. snd y = s\<lparr>trace := trace s @ t\<rparr> \<and> list_all (conn_req h) t"
  have "?P E h start timeout s (r, s')"
  proof (rule wait_loop.raw_induct [where P = ?P, OF _ ret])
    fix f E h start timeout and s :: "'a io_scheme" and y
    assume IH: "\<And>E h start timeout s y. f E h start timeout s = Some y \<Longrightarrow> ?P E h start timeout s y"
      and eq: "bnd (try_connect E h) (\<lambda>ok. if ok then ret () else
        bnd (now E) (\<lambda>t. if t - start > timeout
          then raise (GenericError (''Timeout waiting for '' @ hostname h @ '':'' @ port h))
          else bnd (sleep E 1) (\<lambda>_. f E h start timeout))) s = Some y"
    have "emits (conn_req h) (f E h start timeout)" using IH unfolding emits_def by force
    then have "emits (conn_req h) (bnd (try_connect E h) (\<lambda>ok. if ok then ret () else
        bnd (now E) (\<lambda>t. if t - start > timeout
          then raise (GenericError (''Timeout waiting for '' @ hostname h @ '':'' @ port h))
          else bnd (sleep E 1) (\<lambda>_. f E h start timeout))))"
      by (intro io_frame) auto
    with eq show "?P E h start timeout s y" unfolding emits_def by (cases y) force
  qed
  then show "\<exists>t. s' = s\<lparr>trace := trace s @ t\<rparr> \<and> list_all (conn_req h) t" by simp
qed

lemma emits_ssh_wait [io_frame]: "emits (conn_req h) (ssh_wait E h timeout)"
  unfolding ssh_wait_def by (intro io_frame) auto

lemma emits_ssh_run:
  assumes "\<And>q. conn_req h q \<Longrightarrow> P q" and "P (Exec (ssh_argv h user cmd) i)" and "\<And>line. emits P (cb line)"
  shows "emits P (ssh_run E h cb cmd i ro st re user)"
proof -
  have "emits P (ssh_wait E h t)" for t
    using emits_ssh_wait assms(1) by (rule emits_mono)
  moreover have "emits P (ssh_exec E h cb cmd i ro st re user)"
    unfolding ssh_exec_def using assms(2,3) by (intro io_frame)
  ultimately show ?thesis
    unfolding ssh_run_def by (auto intro!: io_frame split: option.splits)
qed

lemma emits_no_cb [io_frame]: "emits P (no_cb line)"
  unfolding no_cb_def by (rule io_frame)

section \<open>Waiting ends\<close>

lemma try_connect_total: "\<exists>r t. try_connect E h s = Some (r, s\<lparr>trace := trace s @ t\<rparr>)"
proof -
  have "\<exists>r s'. try_connect E h s = Some (r, s')"
    by (auto simp: try_connect_def open_connection_def catch_def bnd_def split: option.splits)
  then obtain r s' where "try_connect E h s = Some (r, s')" by blast
  then show ?thesis using emits_try_connect [of h E] by (auto elim: emitsD)
qed

lemma wait_loop_returns:
  assumes "clock_ok E" and "start + timeout - clock E (trace s) < of_nat n"
  shows "\<exists>y. wait_loop E h start timeout s = Some y"
  using assms(2)
proof (induction n arbitrary: s)
  case (Suc n)
  obtain r t where tc: "try_connect E h s = Some (r, s\<lparr>trace := trace s @ t\<rparr>)"
    using try_connect_total [of E h s] by blast
  let ?s1 = "s\<lparr>trace := trace s @ t\<rparr>" and ?now = "clock E (trace s @ t)"
  let ?s3 = "?s1\<lparr>trace := trace s @ t @ [Clock] @ [Sleep 1]\<rparr>"
  have ge: "clock E (trace s) \<le> ?now" using assms(1) by (rule clock_ok_mono)
  have "?now \<le> clock E ((trace s @ t) @ [Clock])" using assms(1) by (rule clock_ok_mono)
  moreover have "clock E ((trace s @ t) @ [Clock]) + 1 \<le> clock E (((trace s @ t) @ [Clock]) @ [Sleep 1])"
    using assms(1) by (rule clock_ok_sleep)
  ultimately have "start + timeout - clock E (trace ?s3) < of_nat n" using ge Suc.prems by simp
  then obtain y where "wait_loop E h start timeout ?s3 = Some y" using Suc.IH by blast
  then show ?case
    using tc by (subst wait_loop.simps) (cases r; auto simp: bnd_def now_def sleep_def yielding_def)
next
  case 0
  obtain r t where tc: "try_connect E h s = Some (r, s\<lparr>trace := trace s @ t\<rparr>)"
    using try_connect_total [of E h s] by blast
  have "clock E (trace s) \<le> clock E (trace s @ t)" using assms(1) by (rule clock_ok_mono)
  with "0.prems" have "clock E (trace s @ t) - start > timeout" by simp
  then show ?case
    using tc by (subst wait_loop.simps) (cases r; auto simp: bnd_def now_def)
qed

lemma ssh_wait_returns:
  assumes "clock_ok E"
  shows "\<exists>y. ssh_wait E h timeout s = Some y"
proof -
  obtain n :: nat where "clock E (trace s) + timeout - clock E (trace s @ [Clock]) < of_nat n"
    using reals_Archimedean2 by blast
  then have "\<exists>y. wait_loop E h (clock E (trace s)) timeout (s\<lparr>trace := trace s @ [Clock]\<rparr>) = Some y"
    by (intro wait_loop_returns [OF assms]) simp
  then show ?thesis by (simp add: ssh_wait_def now_def bnd_def)
qed

lemma ssh_wait_reachable:
  fixes s :: "'x io_scheme"
  assumes "list_all is_digit (port h)" and "port h \<noteq> []" and "\<And>tr. dial E tr (hostname h) (port h) = None"
  shows "ssh_wait E h timeout s = Some (Inr (), s\<lparr>trace := trace s @ [Clock, Connect (hostname h) (port h), SshReady (sid h)]\<rparr>)"
proof -
  have "wait_loop E h start timeout s' = Some (Inr (), s'\<lparr>trace := trace s' @ [Connect (hostname h) (port h), SshReady (sid h)]\<rparr>)" for start and s' :: "'x io_scheme"
    using assms by (subst wait_loop.simps) (simp add: try_connect_def open_connection_def catch_def bnd_def)
  then show ?thesis by (simp add: ssh_wait_def now_def bnd_def)
qed

lemma returns_ssh_wait [total_intro]: "clock_ok E \<Longrightarrow> returns (ssh_wait E h timeout)"
  by (rule totalI) (rule ssh_wait_returns)

lemma returns_no_cb [total_intro]: "returns (no_cb line)"
  unfolding no_cb_def by (rule total_intro)

lemma returns_ssh_run [total_intro]:
  assumes "clock_ok E" and "\<And>line. returns (cb line)"
  shows "returns (ssh_run E h cb cmd i ro st re user)"
proof -
  have "returns (ssh_exec E h cb cmd i ro st re user)"
    unfolding ssh_exec_def by (intro total_intro assms)
  then show ?thesis
    unfolding ssh_run_def by (intro total_intro assms(1)) (auto intro: total_intro split: option.splits)
qed

lemma returns_answer [total_intro]:
  "(\<And>n. returns (f n)) \<Longrightarrow> (\<And>w. returns (g w)) \<Longrightarrow> returns (case a of Code n \<Rightarrow> f n | Output w \<Rightarrow> g w)"
  by (cases a) simp_all

lemma returns_sh [total_intro]:
  assumes "clock_ok E"
  shows "returns (sh E h cmd)" "returns (sh_output E h cmd)" "returns (sh_status E h cmd)"
  unfolding sh_def sh_output_def sh_status_def by (intro total_intro assms)+

lemma keeps_ssh_run:
  assumes "\<And>s. g s = g' (io.more s)" and "\<And>line. keeps g (cb line)"
  shows "keeps g (ssh_run E h cb cmd i ro st re user)"
proof -
  have io: "keeps g m" if "emits P m" for P m
    using emits_keeps [OF that] assms(1) by (simp add: keeps_def)
  have "keeps g (ssh_exec E h cb cmd i ro st re user)"
    unfolding ssh_exec_def by (intro keeps_intro assms(2) io [OF emits_prims(3)]) simp
  moreover have "keeps g (ssh_wait E h t)" for t
    by (rule io [OF emits_ssh_wait])
  ultimately show ?thesis
    unfolding ssh_run_def by (auto intro!: keeps_intro split: option.splits)
qed

section \<open>What a run returns\<close>

lemma forM_no_cb [simp]: "forM xs no_cb = ret ()"
  by (induction xs) (simp_all only: forM.simps no_cb_def bnd_ret)

lemma ssh_run_ready:
  assumes "is_ready h s"
  shows "ssh_run E h no_cb cmd i ro st re user s =
    Some (finish_run (ssh_argv h user cmd) (spawn E (trace s) (ssh_argv h user cmd) i) ro st re,
          s\<lparr>trace := trace s @ [Exec (ssh_argv h user cmd) i]\<rparr>)"
  using assms by (simp add: ssh_run_def ssh_exec_def subprocess_def bnd_def liftR_def)

lemma finish_run_Inr_iff:
  "(\<exists>a. finish_run argv p ro st re = Inr a) \<longleftrightarrow>
     (\<exists>rc. p_status p = Exited rc \<and> (re \<longrightarrow> rc = 0))"
  by (auto simp: finish_run_def split: pstatus.splits)

lemma finish_run_SSHError_iff:
  "(\<exists>m. finish_run argv p ro st re = Inl (SSHError m)) \<longleftrightarrow>
     re \<and> p_lines p \<noteq> [] \<and> (\<exists>rc. p_status p = Exited rc \<and> rc \<noteq> 0)"
  by (auto simp: finish_run_def split: pstatus.splits)

section \<open>On a healthy host\<close>

lemma ready_io [simp]: "is_ready h s \<Longrightarrow> is_ready h (s\<lparr>trace := trace s @ x\<rparr>)"
  by (simp add: is_ready_def)

lemma healthy_ssh_run:
  assumes "healthy E"
  shows "succeeds (is_ready h) (ssh_run E h no_cb cmd i ro st re user)"
proof -
  have fin: "\<exists>a. finish_run argv (spawn E tr argv i) ro st re = Inr a" for argv tr
  proof -
    obtain ls where "spawn E tr argv i = \<lparr>p_lines = ls, p_status = Exited 0\<rparr>" using assms unfolding healthy_def by blast
    then show ?thesis by (simp add: finish_run_def)
  qed
  show ?thesis
    unfolding succeeds_def
  proof (intro allI impI)
    fix s :: "'a io_scheme"
    assume r: "is_ready h s"
    obtain a where "finish_run (ssh_argv h user cmd) (spawn E (trace s) (ssh_argv h user cmd) i) ro st re = Inr a"
      using fin by blast
    then show "\<exists>a t. ssh_run E h no_cb cmd i ro st re user s = Some (Inr a, t) \<and> is_ready h t"
      using ssh_run_ready [OF r] r by simp
  qed
qed

lemma healthy_sh [ok_intro]:
  assumes "healthy E"
  shows "succeeds (is_ready h) (sh E h cmd)" "succeeds (is_ready h) (sh_status E h cmd)"
    "succeeds (is_ready h) (sleep E t)"
proof -
  show "succeeds (is_ready h) (sh E h cmd)" "succeeds (is_ready h) (sh_status E h cmd)"
    unfolding sh_def sh_status_def by (intro ok_intro healthy_ssh_run assms)+
  show "succeeds (is_ready h) (sleep E t)" by (rule healthy_sleep [OF assms]) simp
qed

lemma healthy_sh_output [ok_intro]:
  assumes "healthy E"
  shows "succeeds (is_ready h) (sh_output E h cmd)"
  unfolding succeeds_def
proof (intro allI impI)
  fix s :: "'a io_scheme"
  assume "is_ready h s"
  moreover obtain ls where "spawn E (trace s) (ssh_argv h None (CmdStr cmd)) None = \<lparr>p_lines = ls, p_status = Exited 0\<rparr>"
    using assms unfolding healthy_def by blast
  ultimately show "\<exists>a t. sh_output E h cmd s = Some (Inr a, t) \<and> is_ready h t"
    unfolding sh_output_def by (simp add: bnd_def ssh_run_ready finish_run_def)
qed

section \<open>Running under a deadline\<close>

definition on_time :: "env \<Rightarrow> rat \<Rightarrow> nat \<Rightarrow> 'x io_scheme \<Rightarrow> bool" where
  "on_time E D n s \<longleftrightarrow> n \<le> length (trace s) \<and> \<not> timed_out E D n (trace s)"

text \<open>\<open>honest I m\<close>: \<open>m\<close> leaves the states of \<open>I\<close> only with a cancellation.\<close>

definition honest :: "('s \<Rightarrow> bool) \<Rightarrow> ('s, 'a) prog \<Rightarrow> bool" where
  "honest I m \<longleftrightarrow> (\<forall>s r t. m s = Some (r, t) \<longrightarrow> I s \<longrightarrow> I t \<or> r = Inl CancelledError)"

lemma honestI: "(\<And>s r t. m s = Some (r, t) \<Longrightarrow> I s \<Longrightarrow> I t \<or> r = Inl CancelledError) \<Longrightarrow> honest I m"
  by (simp add: honest_def)

lemma honestD: "honest I m \<Longrightarrow> m s = Some (r, t) \<Longrightarrow> I s \<Longrightarrow> I t \<or> r = Inl CancelledError"
  by (simp add: honest_def)

lemma honest_atomic [honest_intro]:
  "honest I (ret a)" "honest I (raise e)" "honest I (liftR r)" "honest I (gets f)" "honest I block"
  by (auto simp: honest_def prog_defs)

lemma honest_modify [honest_intro]: "(\<And>s. I s \<Longrightarrow> I (h s)) \<Longrightarrow> honest I (modify h)"
  by (simp add: honest_def)

lemma honest_bnd [honest_intro]: "honest I m \<Longrightarrow> (\<And>a. honest I (f a)) \<Longrightarrow> honest I (bnd m f)"
  by (rule honestI, erule bnd_SomeE) (auto simp: honest_def, blast)

lemma honest_catch [honest_intro]:
  assumes m: "honest I m" and h: "\<And>e. honest I (h e)" and c: "h CancelledError = raise CancelledError"
  shows "honest I (catch m h)"
proof (rule honestI)
  fix s r t
  assume run: "catch m h s = Some (r, t)" and I: "I s"
  from run show "I t \<or> r = Inl CancelledError"
  proof (cases rule: catch_SomeE)
    case (raised e u)
    show ?thesis
    proof (cases "e = CancelledError")
      case True
      with raised(2) c show ?thesis by simp
    next
      case False
      with honestD [OF m raised(1) I] have "I u" by simp
      with honestD [OF h raised(2)] show ?thesis by simp
    qed
  next
    case (returned a)
    with honestD [OF m returned(1) I] show ?thesis by simp
  qed
qed

lemma honest_if [honest_intro]: "(b \<Longrightarrow> honest I m) \<Longrightarrow> (\<not> b \<Longrightarrow> honest I n) \<Longrightarrow> honest I (if b then m else n)"
  by simp

lemma honest_case_option [honest_intro]:
  "honest I m \<Longrightarrow> (\<And>y. honest I (n y)) \<Longrightarrow> honest I (case x of None \<Rightarrow> m | Some y \<Rightarrow> n y)"
  by (cases x) simp_all

lemma honest_case_prod [honest_intro]: "(\<And>a b. honest I (f a b)) \<Longrightarrow> honest I (case x of (a, b) \<Rightarrow> f a b)"
  by (cases x) simp

lemma timed_out_snoc:
  assumes "n \<le> length tr"
  shows "timed_out E D n (tr @ [q]) \<longleftrightarrow> timed_out E D n tr \<or> (waits q \<and> D \<le> clock E (tr @ [q]))"
proof -
  have "late E D n (tr @ [q]) j = late E D n tr j" if "j < length tr" for j
    using that by (simp add: late_def nth_append)
  moreover have "late E D n (tr @ [q]) (length tr) \<longleftrightarrow> waits q \<and> D \<le> clock E (tr @ [q])"
    using assms by (simp add: late_def)
  ultimately show ?thesis by (auto simp: timed_out_def list_ex_iff less_Suc_eq)
qed

lemma cut_snoc: "n \<le> length tr \<Longrightarrow> \<not> timed_out E D n tr \<Longrightarrow> cut E D n (tr @ [q]) \<longleftrightarrow> timed_out E D n (tr @ [q])"
  by (simp add: cut_def)

lemma honest_io_do [honest_intro]: "\<not> waits q \<Longrightarrow> honest (on_time E D n) (io_do q ans)"
  by (rule honestI) (auto simp: on_time_def timed_out_snoc)

lemma honest_sleep [honest_intro]: "honest (on_time E D n) (sleep (with_deadline E D n) t)"
  by (rule honestI) (auto simp: on_time_def sleep_def yielding_def with_deadline_def cut_snoc split: if_splits)

lemma honest_nonwaiting [honest_intro]:
  "honest (on_time E D n) (now E')" "honest (on_time E D n) (random_shuffle E' xs)"
  unfolding now_def random_shuffle_def by (intro honest_intro; simp)+

lemma honest_connect [honest_intro]: "honest (on_time E D n) (open_connection (with_deadline E D n) h p)"
  by (rule honestI) (auto simp: on_time_def open_connection_def with_deadline_def cut_snoc split: if_splits option.splits)

lemma honest_ssh_exec [honest_intro]:
  "honest (on_time E D n) (ssh_exec (with_deadline E D n) h no_cb cmd i ro st re user)"
proof (rule honestI)
  fix s :: "'a io_scheme" and r t
  let ?argv = "ssh_argv h user cmd"
  assume run: "ssh_exec (with_deadline E D n) h no_cb cmd i ro st re user s = Some (r, t)" and on: "on_time E D n s"
  let ?p = "spawn (with_deadline E D n) (trace s) ?argv i"
  have t: "t = s\<lparr>trace := trace s @ [Exec ?argv i]\<rparr>" and r: "r = finish_run ?argv ?p ro st re"
    using run by (simp_all add: ssh_exec_def subprocess_def bnd_def liftR_def)
  show "on_time E D n t \<or> r = Inl CancelledError"
  proof (cases "cut E D n (trace s @ [Exec ?argv i])")
    case True
    then show ?thesis using r by (simp add: with_deadline_def finish_run_def)
  next
    case False
    with on t show ?thesis by (simp add: on_time_def cut_snoc)
  qed
qed

lemma honest_try_connect [honest_intro]: "honest (on_time E D n) (try_connect (with_deadline E D n) h)"
  unfolding try_connect_def by (intro honest_intro) simp_all

lemma honest_wait_loop [honest_intro]: "honest (on_time E D n) (wait_loop (with_deadline E D n) h start timeout)"
proof (rule honestI)
  fix s :: "'a io_scheme" and r t
  assume ret: "wait_loop (with_deadline E D n) h start timeout s = Some (r, t)" and on: "on_time E D n s"
  let ?P = "\<lambda>E' h start timeout s (y :: unit result \<times> 'a io_scheme). E' = with_deadline E D n \<longrightarrow> on_time E D n s \<longrightarrow>
    on_time E D n (snd y) \<or> fst y = Inl CancelledError"
  have "?P (with_deadline E D n) h start timeout s (r, t)"
  proof (rule wait_loop.raw_induct [where P = ?P, OF _ ret], intro impI)
    fix f :: "env \<Rightarrow> ssh \<Rightarrow> rat \<Rightarrow> rat \<Rightarrow> ('a io_scheme, unit) prog" and E' h start timeout and s :: "'a io_scheme" and y
    let ?body = "\<lambda>E'. bnd (try_connect E' h) (\<lambda>ok. if ok then ret () else
     bnd (now E') (\<lambda>t. if t - start > timeout
       then raise (GenericError (''Timeout waiting for '' @ hostname h @ '':'' @ port h))
       else bnd (sleep E' 1) (\<lambda>_. f E' h start timeout)))"
    assume IH: "\<And>E' h start timeout s y. f E' h start timeout s = Some y \<Longrightarrow> ?P E' h start timeout s y"
      and E': "E' = with_deadline E D n" and on: "on_time E D n s" and eq: "?body E' s = Some y"
    have hf: "honest (on_time E D n) (f (with_deadline E D n) h start timeout)"
      by (rule honestI) (drule IH, simp)
    define B where "B = ?body (with_deadline E D n)"
    have hB: "honest (on_time E D n) B" unfolding B_def by (intro honest_intro hf)
    have "B s = Some (fst y, snd y)" using eq unfolding B_def E' prod.collapse .
    from honestD [OF hB this on] show "on_time E D n (snd y) \<or> fst y = Inl CancelledError" .
  qed
  with on show "on_time E D n t \<or> r = Inl CancelledError" by simp
qed

lemma honest_sh_output [honest_intro]: "honest (on_time E D n) (sh_output (with_deadline E D n) h cmd)"
proof -
  have "honest (on_time E D n) (ssh_run (with_deadline E D n) h no_cb (CmdStr cmd) None True True True None)"
    unfolding ssh_run_def ssh_wait_def by (intro honest_intro) simp_all
  moreover have "honest (on_time E D n) (case a of Output out \<Rightarrow> ret out | Code x \<Rightarrow> raise AttributeError)" for a
    by (cases a) (simp_all add: honest_atomic)
  ultimately show ?thesis unfolding sh_output_def by (intro honest_bnd)
qed

section \<open>A connection and a world for the concrete examples\<close>

definition demo_ssh :: ssh where
  "demo_ssh = \<lparr>sid = 0, username = ''root'', hostname = ''h1'', key = None, port = ''22''\<rparr>"

definition demo_clock :: "req list \<Rightarrow> rat" where
  "demo_clock tr = sum_list (map (\<lambda>q. case q of Sleep t \<Rightarrow> max 0 t | _ \<Rightarrow> 0) tr)"

text \<open>Every command prints the given lines and succeeds; time passes only in sleeps.\<close>

definition demo_env :: "string list \<Rightarrow> env" where
  "demo_env ls = quiet_env\<lparr>spawn := (\<lambda>_ _ _. \<lparr>p_lines = ls, p_status = Exited 0\<rparr>), clock := demo_clock\<rparr>"

lemma clock_ok_demo [simp]: "clock_ok (demo_env ls)"
  by (simp add: clock_ok_def demo_env_def demo_clock_def)

lemma random_ok_demo [simp]: "random_ok (demo_env ls)"
  by (simp add: demo_env_def)

lemma healthy_demo [simp]: "healthy (demo_env ls)"
  unfolding healthy_def by (simp add: demo_env_def) (simp add: quiet_env_def)

lemma demo_env_simps [simp]:
  "spawn (demo_env ls) tr argv i = \<lparr>p_lines = ls, p_status = Exited 0\<rparr>" "clock (demo_env ls) tr = demo_clock tr"
  "cancelled (demo_env ls) tr = False" "dial (demo_env ls) tr h p = None"
  by (simp_all add: demo_env_def quiet_env_def)


lemma demo_ready [simp]: "is_ready demo_ssh \<lparr>trace = [SshReady 0], \<dots> = x\<rparr>"
  by (simp add: is_ready_def demo_ssh_def)

end
