(* ===== verification/Storage.thy ===== *)
theory Storage
  imports Ssh Regex
begin

text \<open>
  The two storage back ends of \<^verbatim>\<open>rallyci/providers/virsh.py\<close>, classes \<^verbatim>\<open>ZFS\<close> and \<^verbatim>\<open>BTRFS\<close>: each method
  is the command lines it runs over the host's ssh connection. The interface the host relies on is
  the locale \<open>storage_backend\<close>, interpreted for both classes.
\<close>

record storage =
  st_ssh :: ssh
  st_path :: string
  st_dataset :: string  \<comment> \<open>only of \<^verbatim>\<open>ZFS\<close>\<close>

text \<open>The methods of a storage object, as the host calls them.\<close>

record 'x storage_ops =
  so_create :: "string \<Rightarrow> ('x io_scheme, unit) prog"
  so_list_files :: "string \<Rightarrow> ('x io_scheme, string list) prog"
  so_clone :: "string \<Rightarrow> string \<Rightarrow> ('x io_scheme, unit) prog"
  so_exist :: "string \<Rightarrow> ('x io_scheme, bool) prog"
  so_snapshot :: "string \<Rightarrow> ('x io_scheme, unit) prog"
  so_destroy :: "string \<Rightarrow> ('x io_scheme, unit) prog"
  so_download :: "string \<Rightarrow> string \<Rightarrow> ('x io_scheme, unit) prog"

section \<open>ZFS\<close>

definition zfs_create :: "env \<Rightarrow> storage \<Rightarrow> string \<Rightarrow> ('x io_scheme, unit) prog" where
  "zfs_create E st name = sh E (st_ssh st) (''zfs create '' @ st_dataset st @ ''/'' @ name)"

definition zfs_list_files :: "env \<Rightarrow> storage \<Rightarrow> string \<Rightarrow> ('x io_scheme, string list) prog" where
  "zfs_list_files E st name =
     bnd (sh_output E (st_ssh st) (''ls /'' @ st_path st @ ''/'' @ name)) (\<lambda>ls.
     ret (map (\<lambda>f. foldl path_join ''/'' [st_dataset st, name, f]) (splitlines ls)))"

definition zfs_clone :: "env \<Rightarrow> storage \<Rightarrow> string \<Rightarrow> string \<Rightarrow> ('x io_scheme, unit) prog" where
  "zfs_clone E st src dst = sh E (st_ssh st)
     (''zfs clone '' @ st_dataset st @ ''/'' @ src @ ''@1 '' @ st_dataset st @ ''/'' @ dst)"

definition zfs_exist :: "env \<Rightarrow> storage \<Rightarrow> string \<Rightarrow> ('x io_scheme, bool) prog" where
  "zfs_exist E st name =
     bnd (sh_output E (st_ssh st) ''zfs list'') (\<lambda>data.
     bnd (liftR (re_search (''^'' @ st_dataset st @ ''/'' @ name @ '' '') data)) (\<lambda>r. ret (r \<noteq> None)))"

definition zfs_snapshot :: "env \<Rightarrow> storage \<Rightarrow> string \<Rightarrow> string \<Rightarrow> ('x io_scheme, unit) prog" where
  "zfs_snapshot E st name snapshot = sh E (st_ssh st)
     (''zfs snapshot '' @ st_dataset st @ ''/'' @ name @ ''@'' @ snapshot)"

definition zfs_destroy :: "env \<Rightarrow> storage \<Rightarrow> string \<Rightarrow> ('x io_scheme, unit) prog" where
  "zfs_destroy E st name = sh E (st_ssh st) (''zfs destroy '' @ st_dataset st @ ''/'' @ name)"

definition zfs_download :: "env \<Rightarrow> storage \<Rightarrow> string \<Rightarrow> string \<Rightarrow> ('x io_scheme, unit) prog" where
  "zfs_download E st name url =
     bnd (zfs_create E st name) (\<lambda>_.
     bnd (sh E (st_ssh st) (''wget -nv '' @ url @ '' -O '' @ st_path st @ ''/'' @ name @ ''/vda.qcow2'')) (\<lambda>_.
     sh E (st_ssh st) (''qemu-img resize '' @ st_path st @ ''/'' @ name @ ''/vda.qcow2 32G'')))"

definition zfs_ops :: "env \<Rightarrow> storage \<Rightarrow> 'x storage_ops" where
  "zfs_ops E st = \<lparr>so_create = zfs_create E st, so_list_files = zfs_list_files E st, so_clone = zfs_clone E st,
     so_exist = zfs_exist E st, so_snapshot = (\<lambda>name. zfs_snapshot E st name ''1''),
     so_destroy = zfs_destroy E st, so_download = zfs_download E st\<rparr>"

section \<open>BTRFS\<close>

definition btrfs_create :: "env \<Rightarrow> storage \<Rightarrow> string \<Rightarrow> ('x io_scheme, unit) prog" where
  "btrfs_create E st name = sh E (st_ssh st) (''btrfs subvolume create '' @ st_path st @ ''/'' @ name)"

definition btrfs_list_files :: "env \<Rightarrow> storage \<Rightarrow> string \<Rightarrow> ('x io_scheme, string list) prog" where
  "btrfs_list_files E st name =
     bnd (sh_output E (st_ssh st) (''ls '' @ st_path st @ ''/'' @ name)) (\<lambda>ls.
     ret (map (\<lambda>f. foldl path_join ''/'' [st_path st, name, f]) (splitlines ls)))"

definition btrfs_clone :: "env \<Rightarrow> storage \<Rightarrow> string \<Rightarrow> string \<Rightarrow> ('x io_scheme, unit) prog" where
  "btrfs_clone E st src dst =
     bnd (sh_status E (st_ssh st) (''btrfs subvolume delete '' @ st_path st @ ''/'' @ dst)) (\<lambda>_.
     sh E (st_ssh st) (''btrfs subvolume snapshot '' @ st_path st @ ''/'' @ src @ '' '' @ st_path st @ ''/'' @ dst))"

definition btrfs_exist :: "env \<Rightarrow> storage \<Rightarrow> string \<Rightarrow> ('x io_scheme, bool) prog" where
  "btrfs_exist E st name =
     bnd (sh_output E (st_ssh st) (''btrfs subvolume list '' @ st_path st)) (\<lambda>data.
     bnd (liftR (re_search ('' '' @ name @ ''$'') data)) (\<lambda>r. ret (r \<noteq> None)))"

definition btrfs_snapshot :: "env \<Rightarrow> storage \<Rightarrow> string \<Rightarrow> ('x io_scheme, unit) prog" where
  "btrfs_snapshot E st name = sleep E 0"

definition btrfs_destroy :: "env \<Rightarrow> storage \<Rightarrow> string \<Rightarrow> ('x io_scheme, unit) prog" where
  "btrfs_destroy E st name = sh E (st_ssh st) (''btrfs subvolume delete '' @ st_path st @ ''/'' @ name)"

definition btrfs_download :: "env \<Rightarrow> storage \<Rightarrow> string \<Rightarrow> string \<Rightarrow> ('x io_scheme, unit) prog" where
  "btrfs_download E st name url =
     bnd (btrfs_create E st name) (\<lambda>_.
     bnd (sh E (st_ssh st) (''wget -nv '' @ url @ '' -O /'' @ st_path st @ ''/'' @ name @ ''/vda.qcow2'')) (\<lambda>_.
     sh E (st_ssh st) (''qemu-img resize /'' @ st_path st @ ''/'' @ name @ ''/vda.qcow2 32G'')))"

definition btrfs_ops :: "env \<Rightarrow> storage \<Rightarrow> 'x storage_ops" where
  "btrfs_ops E st = \<lparr>so_create = btrfs_create E st, so_list_files = btrfs_list_files E st,
     so_clone = btrfs_clone E st, so_exist = btrfs_exist E st, so_snapshot = btrfs_snapshot E st,
     so_destroy = btrfs_destroy E st, so_download = btrfs_download E st\<rparr>"

text \<open>\<^verbatim>\<open>BACKENDS[storage_cf["backend"]](ssh, **storage_cf)\<close>\<close>

definition storage_new :: "ssh \<Rightarrow> pyval \<Rightarrow> (env \<Rightarrow> 'x storage_ops) result" where
  "storage_new h cf =
     bindR (bindR (getitem cf ''backend'') (as_str Unmodelled)) (\<lambda>b.
     if b = ''btrfs'' then
       (case getitem cf ''path'' of
          Inr (PStr p) \<Rightarrow> Inr (\<lambda>E. btrfs_ops E \<lparr>st_ssh = h, st_path = p, st_dataset = []\<rparr>)
        | Inr _ \<Rightarrow> Inl Unmodelled | Inl _ \<Rightarrow> Inl TypeError)
     else if b = ''zfs'' then
       (case (getitem cf ''path'', getitem cf ''dataset'') of
          (Inr (PStr p), Inr (PStr d)) \<Rightarrow> Inr (\<lambda>E. zfs_ops E \<lparr>st_ssh = h, st_path = p, st_dataset = d\<rparr>)
        | (Inr _, Inr _) \<Rightarrow> Inl Unmodelled | _ \<Rightarrow> Inl TypeError)
     else Inl (KeyError b))"

section \<open>The interface\<close>

text \<open>Requests of a storage method: ssh requests of its connection, or a bare yield to the loop.\<close>

definition storage_req :: "ssh \<Rightarrow> req \<Rightarrow> bool" where
  "storage_req h q \<longleftrightarrow> ssh_req h q \<or> q = Sleep 0"

text \<open>Read-only requests: those of an ssh instance whose command is one of the listing commands.\<close>

definition listing_req :: "ssh \<Rightarrow> req \<Rightarrow> bool" where
  "listing_req h q \<longleftrightarrow> conn_req h q \<or>
     (\<exists>cmd. q = Exec (ssh_argv h None (CmdStr cmd)) None \<and>
        (cmd = ''zfs list'' \<or> (\<exists>p. cmd = ''btrfs subvolume list '' @ p)))"

lemma emits_sh:
  "(\<And>q. conn_req h q \<Longrightarrow> P q) \<Longrightarrow> P (Exec (ssh_argv h None (CmdStr cmd)) None) \<Longrightarrow> emits P (sh E h cmd)"
  unfolding sh_def by (intro io_frame emits_ssh_run)

lemma emits_sh_status:
  "(\<And>q. conn_req h q \<Longrightarrow> P q) \<Longrightarrow> P (Exec (ssh_argv h None (CmdStr cmd)) None) \<Longrightarrow> emits P (sh_status E h cmd)"
  unfolding sh_status_def by (intro io_frame emits_ssh_run)

lemma emits_sh_output:
  assumes "\<And>q. conn_req h q \<Longrightarrow> P q" and "P (Exec (ssh_argv h None (CmdStr cmd)) None)"
  shows "emits P (sh_output E h cmd)"
  unfolding sh_output_def
proof (rule emits_bnd)
  show "emits P (ssh_run E h no_cb (CmdStr cmd) None True True True None)"
    using assms by (intro emits_ssh_run io_frame)
  show "emits P (case a of Code x \<Rightarrow> raise AttributeError | Output out \<Rightarrow> ret out)" for a
    by (cases a) (auto intro: io_frame)
qed

lemma storage_req_conn: "conn_req h q \<Longrightarrow> storage_req h q"
  by (simp add: storage_req_def ssh_req_def)

lemma storage_req_exec: "storage_req h (Exec (ssh_argv h user cmd) i)"
  by (auto simp: storage_req_def ssh_req_def)

lemma listing_req_conn: "conn_req h q \<Longrightarrow> listing_req h q"
  by (simp add: listing_req_def)

lemma storage_io:
  "emits (storage_req h) (sh E h cmd)"
  "emits (storage_req h) (sh_status E h cmd)"
  "emits (storage_req h) (sh_output E h cmd)"
  by (intro emits_sh emits_sh_status emits_sh_output storage_req_conn storage_req_exec; assumption?)+

text \<open>
  What the host relies on: a method talks to its own host only, the existence check only lists, and
  every method returns or raises when the clock runs and succeeds on a reachable host on which
  no command fails.
\<close>

locale storage_backend =
  fixes E :: env and ops :: "'x storage_ops" and h :: ssh
  assumes create_req: "emits (storage_req h) (so_create ops name)"
    and list_files_req: "emits (storage_req h) (so_list_files ops name)"
    and clone_req: "emits (storage_req h) (so_clone ops src dst)"
    and exist_listing: "emits (listing_req h) (so_exist ops name)"
    and snapshot_req: "emits (storage_req h) (so_snapshot ops name)"
    and destroy_req: "emits (storage_req h) (so_destroy ops name)"
    and download_req: "emits (storage_req h) (so_download ops name url)"
    and ops_return: "clock_ok E \<Longrightarrow> returns (so_create ops name) \<and> returns (so_list_files ops name)
      \<and> returns (so_clone ops src dst) \<and> returns (so_exist ops name) \<and> returns (so_snapshot ops name)
      \<and> returns (so_destroy ops name) \<and> returns (so_download ops name url)"
    and ops_succeed: "healthy E \<Longrightarrow> succeeds (is_ready h) (so_create ops name) \<and> succeeds (is_ready h) (so_list_files ops name)
      \<and> succeeds (is_ready h) (so_clone ops src dst) \<and> succeeds (is_ready h) (so_snapshot ops name)
      \<and> succeeds (is_ready h) (so_destroy ops name) \<and> succeeds (is_ready h) (so_download ops name url)"
begin

lemma listing_storage: "listing_req h q \<Longrightarrow> storage_req h q"
  by (auto simp: storage_req_def listing_req_def ssh_req_def)

lemma exist_req: "emits (storage_req h) (so_exist ops name)"
  using exist_listing listing_storage by (rule emits_mono)

lemmas reqs = create_req list_files_req clone_req exist_req snapshot_req destroy_req download_req

lemma returns_ops:
  assumes "clock_ok E"
  shows "returns (so_create ops name)" "returns (so_list_files ops name)" "returns (so_clone ops src dst)"
    "returns (so_exist ops name)" "returns (so_snapshot ops name)" "returns (so_destroy ops name)"
    "returns (so_download ops name url)"
  using ops_return [OF assms] by blast+

lemma succeed_ops:
  assumes "healthy E"
  shows "succeeds (is_ready h) (so_create ops name)" "succeeds (is_ready h) (so_list_files ops name)"
    "succeeds (is_ready h) (so_clone ops src dst)" "succeeds (is_ready h) (so_snapshot ops name)"
    "succeeds (is_ready h) (so_destroy ops name)" "succeeds (is_ready h) (so_download ops name url)"
  using ops_succeed [OF assms] by blast+

end

lemmas zfs_defs = zfs_ops_def storage_ops.simps zfs_create_def zfs_list_files_def zfs_clone_def zfs_exist_def
  zfs_snapshot_def zfs_destroy_def zfs_download_def

lemmas btrfs_defs = btrfs_ops_def storage_ops.simps btrfs_create_def btrfs_list_files_def btrfs_clone_def
  btrfs_exist_def btrfs_snapshot_def btrfs_destroy_def btrfs_download_def

interpretation zfs: storage_backend E "zfs_ops E st" "st_ssh st" for E st
proof unfold_locales
  show "emits (listing_req (st_ssh st)) (so_exist (zfs_ops E st) name)" for name
    unfolding zfs_defs by (intro io_frame emits_sh_output) (auto simp: listing_req_def)
qed (unfold zfs_defs, (intro storage_io io_frame conjI total_intro ok_intro; assumption?)+)

interpretation btrfs: storage_backend E "btrfs_ops E st" "st_ssh st" for E st
proof unfold_locales
  show "emits (listing_req (st_ssh st)) (so_exist (btrfs_ops E st) name)" for name
    unfolding btrfs_defs by (intro io_frame emits_sh_output) (auto simp: listing_req_def)
  show "emits (storage_req (st_ssh st)) (so_snapshot (btrfs_ops E st) name)" for name
    unfolding btrfs_defs by (intro io_frame) (simp add: storage_req_def)
qed (unfold btrfs_defs, (intro storage_io io_frame conjI total_intro ok_intro; assumption?)+)

section \<open>Does an image exist?\<close>

lemma sh_output_ready:
  assumes "is_ready h s"
    and "spawn E (trace s) (ssh_argv h None (CmdStr cmd)) None = \<lparr>p_lines = ls, p_status = Exited 0\<rparr>"
  shows "sh_output E h cmd s =
    Some (Inr (strip (concat ls)), s\<lparr>trace := trace s @ [Exec (ssh_argv h None (CmdStr cmd)) None]\<rparr>)"
  using assms unfolding sh_output_def by (simp add: bnd_run ssh_run_ready finish_run_def)

text \<open>C21: BTRFS.exist answers whether some line of the subvolume listing ends with the image name
  after a blank, for a name without regular expression metacharacters, and makes no other request.\<close>

theorem btrfs_exist_iff:
  assumes "is_ready (st_ssh st) s" "plain_word name" "newline \<notin> set name"
    and "spawn E (trace s) (ssh_argv (st_ssh st) None (CmdStr (''btrfs subvolume list '' @ st_path st))) None
      = \<lparr>p_lines = ls, p_status = Exited 0\<rparr>"
  shows "btrfs_exist E st name s =
    Some (Inr (\<exists>line \<in> set (split_on newline (strip (concat ls))). suffix ('' '' @ name) line),
      s\<lparr>trace := trace s @ [Exec (ssh_argv (st_ssh st) None (CmdStr (''btrfs subvolume list '' @ st_path st))) None]\<rparr>)"
proof -
  have "plain_word ('' '' @ name)" "newline \<notin> set ('' '' @ name)"
    using assms(2,3) by (auto simp: plain_word_def re_special_def)
  from re_search_line_end [OF this, of "strip (concat ls)"] obtain r where
    "re_search ('' '' @ name @ ''$'') (strip (concat ls)) = Inr r"
    "r \<noteq> None \<longleftrightarrow> (\<exists>line \<in> set (split_on newline (strip (concat ls))). suffix ('' '' @ name) line)" by auto
  note r = this
  show ?thesis
    unfolding btrfs_exist_def by (rule bnd_step, rule sh_output_ready [OF assms(1,4)]) (use r in simp)
qed

theorem btrfs_exist_iff_witness:
  "fst (the (btrfs_exist (demo_env [''ID 5 top level 5 path img'']) \<lparr>st_ssh = demo_ssh, st_path = ''/b'', st_dataset = []\<rparr> ''img''
     \<lparr>trace = [SshReady 0]\<rparr>)) = Inr True"
proof -
  have p: "plain_word ''img''" "newline \<notin> set ''img''" by (simp_all add: plain_word_def re_special_def)
  have "\<exists>line \<in> set (split_on newline (strip (concat [''ID 5 top level 5 path img'']))). suffix ('' '' @ ''img'') line"
    by code_simp
  then show ?thesis by (subst btrfs_exist_iff [OF _ p, where ls = "[''ID 5 top level 5 path img'']"]) simp_all
qed

text \<open>ZFS.exist answers whether some line of \<^verbatim>\<open>zfs list\<close> starts with the dataset, a slash, the image name
  and a blank, for names without regular expression metacharacters.\<close>

theorem zfs_exist_iff:
  assumes "is_ready (st_ssh st) s" "plain_word (st_dataset st @ ''/'' @ name @ '' '')"
    and "newline \<notin> set (st_dataset st @ ''/'' @ name @ '' '')"
    and "spawn E (trace s) (ssh_argv (st_ssh st) None (CmdStr ''zfs list'')) None
      = \<lparr>p_lines = ls, p_status = Exited 0\<rparr>"
  shows "zfs_exist E st name s =
    Some (Inr (\<exists>line \<in> set (split_on newline (strip (concat ls))). prefix (st_dataset st @ ''/'' @ name @ '' '') line),
      s\<lparr>trace := trace s @ [Exec (ssh_argv (st_ssh st) None (CmdStr ''zfs list'')) None]\<rparr>)"
proof -
  from re_search_line_start [OF assms(2,3), of "strip (concat ls)"] obtain r where
    "re_search (''^'' @ st_dataset st @ ''/'' @ name @ '' '') (strip (concat ls)) = Inr r"
    "r \<noteq> None \<longleftrightarrow> (\<exists>line \<in> set (split_on newline (strip (concat ls))).
       prefix (st_dataset st @ ''/'' @ name @ '' '') line)" by auto
  note r = this
  show ?thesis
    unfolding zfs_exist_def by (rule bnd_step, rule sh_output_ready [OF assms(1,4)]) (use r in simp)
qed

theorem zfs_exist_iff_witness:
  "fst (the (zfs_exist (demo_env [''t/img2 1 1'' @ [newline], ''t/img 5 5'']) \<lparr>st_ssh = demo_ssh, st_path = ''/b'', st_dataset = ''t''\<rparr> ''img''
     \<lparr>trace = [SshReady 0]\<rparr>)) = Inr True"
proof -
  have "\<exists>line \<in> set (split_on newline (strip (concat [''t/img2 1 1'' @ [newline], ''t/img 5 5'']))). prefix (''t'' @ ''/'' @ ''img'' @ '' '') line"
    by code_simp
  then show ?thesis 
   by (subst zfs_exist_iff [where ls = "[''t/img2 1 1'' @ [newline], ''t/img 5 5'']"])
    (simp_all add: plain_word_def re_special_def)
qed

end
