(* ===== verification/Utils.thy ===== *)
theory Utils
  imports World Py_Strings
begin

text \<open>
  \<^verbatim>\<open>rallyci/utils.py\<close>: random names and MAC addresses, directory creation that tolerates an existing
  directory, the two output sinks and the retry loop.
\<close>

definition ascii_letters :: string where
  "ascii_letters = ''abcdefghijklmnopqrstuvwxyzABCDEFGHIJKLMNOPQRSTUVWXYZ''"

definition get_rnd_name :: "env \<Rightarrow> string \<Rightarrow> nat \<Rightarrow> ('x io_scheme, string) prog" where
  "get_rnd_name E pfx n = bnd (random_sample E (length ascii_letters) n) (\<lambda>ixs.
     ret ((''_rci_'' @ pfx) @ map (nth ascii_letters) ixs))"

definition rnd_byte :: "env \<Rightarrow> nat \<Rightarrow> ('x io_scheme, string) prog" where
  "rnd_byte E i = bnd (random_randint E 0 255) (\<lambda>b. ret (hex2 (nat b)))"

definition get_rnd_mac :: "env \<Rightarrow> ('x io_scheme, string) prog" where
  "get_rnd_mac E = bnd (mapM (rnd_byte E) [0..<5]) (\<lambda>mac5.
     ret (''02:'' @ join '':'' mac5))"

definition EEXIST :: int where
  "EEXIST = 17"

definition makedirs :: "env \<Rightarrow> string list \<Rightarrow> ('x io_scheme, unit) prog" where
  "makedirs E args =
     (let path = foldl path_join (hd args) (tl args) in
      catch (io_do (MakeDirs path) (\<lambda>tr. case mkdirs_errno E tr path of None \<Rightarrow> Inr () | Some n \<Rightarrow> Inl (OSError n)))
        (\<lambda>e. if e = OSError EEXIST then ret () else raise e))"

text \<open>\<^verbatim>\<open>class Stdout\<close>: a sink that tags each line with a stream number.\<close>

definition stdout_write :: "(nat \<times> string \<Rightarrow> 'r) \<Rightarrow> nat \<Rightarrow> string \<Rightarrow> 'r" where
  "stdout_write cb num line = cb (num, line)"

definition get_stdouterr :: "(nat \<times> string \<Rightarrow> 'r) \<Rightarrow> (string \<times> (string \<Rightarrow> 'r)) list" where
  "get_stdouterr cb = [(''stdout'', stdout_write cb 1), (''stderr'', stdout_write cb 2)]"

text \<open>
  \<^verbatim>\<open>retry\<close>: the \<^verbatim>\<open>except\<close> clause unbinds \<^verbatim>\<open>e\<close> when it ends, so the final \<^verbatim>\<open>raise e\<close> finds no value.
\<close>

fun retry_loop :: "nat \<Rightarrow> ('x io_scheme, 'a) prog \<Rightarrow> ('x io_scheme, 'a) prog" where
  "retry_loop 0 f = raise UnboundLocalError"
| "retry_loop (Suc n) f = catch f (\<lambda>e. bnd (io_do (Sleep 1) (\<lambda>_. Inr ())) (\<lambda>_. retry_loop n f))"

definition retry :: "('x io_scheme, 'a) prog \<Rightarrow> ('x io_scheme, 'a) prog" where
  "retry f = retry_loop 4 f"

section \<open>Shape of the generated names\<close>

lemma length_letters [simp]: "length ascii_letters = 52"
  by (simp add: ascii_letters_def)

lemma emits_get_rnd_name [io_frame]: "P (Sample 52 n) \<Longrightarrow> emits P (get_rnd_name E pfx n)"
  unfolding get_rnd_name_def length_letters by (intro io_frame)

lemma emits_get_rnd_mac [io_frame]: "P (RandInt 0 255) \<Longrightarrow> emits P (get_rnd_mac E)"
  unfolding get_rnd_mac_def rnd_byte_def by (intro io_frame)

lemma nth_letters: "i < 52 \<Longrightarrow> ascii_letters ! i \<in> set ascii_letters"
  by (rule nth_mem) simp

lemma distinct_letters: "distinct ascii_letters"
  by (simp add: ascii_letters_def)

lemma get_rnd_name_run:
  assumes "random_ok E" and "n \<le> 52"
  shows "\<exists>w. get_rnd_name E pfx n s = Some (Inr (''_rci_'' @ pfx @ w), s\<lparr>trace := trace s @ [Sample 52 n]\<rparr>)
    \<and> length w = n \<and> distinct w \<and> set w \<subseteq> set ascii_letters"
proof -
  let ?ix = "rnd_sample E (trace s) 52 n"
  have ix: "length ?ix = n" "distinct ?ix" "\<forall>i \<in> set ?ix. i < 52"
    using assms unfolding random_ok_def by auto
  have "inj_on (nth ascii_letters) (set ?ix)"
    by (rule inj_on_nth [OF distinct_letters]) (use ix(3) in simp)
  with ix have "distinct (map (nth ascii_letters) ?ix)" by (simp add: distinct_map)
  moreover have "set (map (nth ascii_letters) ?ix) \<subseteq> set ascii_letters"
    using ix(3) nth_letters by auto
  ultimately show ?thesis
    using assms(2) ix(1) by (simp add: get_rnd_name_def random_sample_def bnd_def)
qed

definition is_hex :: "char \<Rightarrow> bool" where
  "is_hex c \<longleftrightarrow> c \<in> set ''0123456789abcdef''"

lemma hex_digit_hex: "n < 16 \<Longrightarrow> is_hex (hex_digit n)"
proof -
  have "\<forall>n \<in> set [0..<16]. is_hex (hex_digit n)" by code_simp
  then show "n < 16 \<Longrightarrow> is_hex (hex_digit n)" by simp
qed

lemma hex2_hex: "n < 256 \<Longrightarrow> list_all is_hex (hex2 n)"
  by (simp add: hex2_def hex_digit_hex)

lemma rnd_byte_run:
  assumes "random_ok E"
  shows "\<exists>b. rnd_byte E i s = Some (Inr (hex2 b), s\<lparr>trace := trace s @ [RandInt 0 255]\<rparr>) \<and> b < 256"
proof -
  have "rnd_int E (trace s) 0 255 \<le> 255" using assms unfolding random_ok_def by simp
  then show ?thesis
    by (intro exI [of _ "nat (rnd_int E (trace s) 0 255)"]) (simp add: rnd_byte_def random_randint_def bnd_def)
qed

lemma get_rnd_mac_run:
  assumes "random_ok E"
  shows "\<exists>bs s'. get_rnd_mac E s = Some (Inr (''02:'' @ join '':'' (map hex2 bs)), s')
    \<and> length bs = 5 \<and> (\<forall>b \<in> set bs. b < 256)"
proof -
  have "\<exists>bs s'. mapM (rnd_byte E) its s = Some (Inr (map hex2 bs), s') \<and> length bs = length its
    \<and> (\<forall>b \<in> set bs. b < 256)" for its and s :: "'a io_scheme"
  proof (induction its arbitrary: s)
    case (Cons i its)
    obtain b where b: "rnd_byte E i s = Some (Inr (hex2 b), s\<lparr>trace := trace s @ [RandInt 0 255]\<rparr>)" "b < 256"
      using rnd_byte_run [OF assms] by blast
    obtain bs s' where "mapM (rnd_byte E) its (s\<lparr>trace := trace s @ [RandInt 0 255]\<rparr>) = Some (Inr (map hex2 bs), s')"
      "length bs = length its" "\<forall>b \<in> set bs. b < 256" using Cons.IH by blast
    with b show ?case by (intro exI [of _ "b # bs"] exI [of _ s']) (auto simp: bnd_run)
  qed simp
  from this [of "[0..<5]" s] show ?thesis
    unfolding get_rnd_mac_def by (auto simp: bnd_run)
qed

section \<open>Retrying\<close>

lemma retry_loop_fails:
  assumes "\<And>s. \<exists>e s'. f s = Some (Inl e, s')"
  shows "\<exists>s'. retry_loop n f s = Some (Inl UnboundLocalError, s')"
proof (induction n arbitrary: s)
  case (Suc n)
  obtain e u where "f s = Some (Inl e, u)" using assms by blast
  with Suc.IH show ?case by (simp add: catch_run bnd_def)
qed simp

lemma retry_loop_succeeds:
  assumes "f s = Some (Inr a, s')"
  shows "retry_loop (Suc n) f s = Some (Inr a, s')"
  using assms by (simp add: catch_run)

lemma retry_loop_step:
  assumes "f s = Some (Inl e, u)"
  shows "retry_loop (Suc n) f s = retry_loop n f (u\<lparr>trace := trace u @ [Sleep 1]\<rparr>)"
  using assms by (simp add: catch_run bnd_def)

end
