(* ===== verification/Vm.thy ===== *)
theory Vm
  imports Storage Utils "HOL-Library.Char_ord" "HOL-Library.List_Lexorder"
begin

text \<open>
  The classes \<^verbatim>\<open>XMLElement\<close> and \<^verbatim>\<open>VM\<close> of \<^verbatim>\<open>rallyci/providers/virsh.py\<close>, with \<^verbatim>\<open>Host.cleanup_net\<close>, which \<^verbatim>\<open>VM.destroy\<close>
  calls. An XML element is addressed by its path from the root of the domain description, so the
  mutable \<^verbatim>\<open>self.devices\<close> is the path of the devices element. A VM object is a record with an identity;
  the attribute \<^verbatim>\<open>ip\<close>, set once the address is known, lives in the state.
\<close>

section \<open>XML\<close>

datatype xml = Elem (tag: string) (attrs: "(string \<times> string) list") (xtext: "string option") (kids: "xml list")

type_synonym xpath = "nat list"

fun elem_at :: "xpath \<Rightarrow> xml \<Rightarrow> xml option" where
  "elem_at [] e = Some e"
| "elem_at (i # p) e = (if i < length (kids e) then elem_at p (kids e ! i) else None)"

fun upd_at :: "xpath \<Rightarrow> (xml \<Rightarrow> xml) \<Rightarrow> xml \<Rightarrow> xml" where
  "upd_at [] f e = f e"
| "upd_at (i # p) f (Elem t a x ks) =
     (if i < length ks then Elem t a x (ks[i := upd_at p f (ks ! i)]) else Elem t a x ks)"

text \<open>\<^verbatim>\<open>XMLElement.se\<close>: append a child to the element at a path; the result is the child's path.\<close>

definition se :: "xpath \<Rightarrow> string \<Rightarrow> (string \<times> string) list \<Rightarrow> xml \<Rightarrow> xpath \<times> xml" where
  "se p t a doc =
     (case elem_at p doc of
        Some e \<Rightarrow> (p @ [length (kids e)],
                    upd_at p (\<lambda>(Elem t' a' x' ks) \<Rightarrow> Elem t' a' x' (ks @ [Elem t a None []])) doc)
      | None \<Rightarrow> (p, doc))"

definition set_text :: "xpath \<Rightarrow> string \<Rightarrow> xml \<Rightarrow> xml" where
  "set_text p w doc = upd_at p (\<lambda>(Elem t a x ks) \<Rightarrow> Elem t a (Some w) ks) doc"

definition se_text :: "xpath \<Rightarrow> string \<Rightarrow> (string \<times> string) list \<Rightarrow> string \<Rightarrow> xml \<Rightarrow> xml" where
  "se_text p t a w doc = (case se p t a doc of (q, doc') \<Rightarrow> set_text q w doc')"

text \<open>\<^verbatim>\<open>ElementTree.write\<close>: attributes in sorted order, an element without content closed at once.\<close>

definition xml_escape :: "char list \<Rightarrow> string" where
  "xml_escape = cgi_escape"

definition attr_escape :: "char list \<Rightarrow> string" where
  "attr_escape w = concat (map (\<lambda>c. if c = CHR 0x22 then ''&quot;'' else if c = newline then ''&#10;'' else escape_char c) w)"

fun xml_str :: "xml \<Rightarrow> string" where
  "xml_str (Elem t a x ks) =
     ''<'' @ t @ concat (map (\<lambda>(k, v). '' '' @ k @ ''='' @ [CHR 0x22] @ attr_escape v @ [CHR 0x22]) (sort_key fst a)) @
     (if x = None \<and> ks = [] then '' />''
      else ''>'' @ (case x of Some w \<Rightarrow> xml_escape w | None \<Rightarrow> []) @ concat (map xml_str ks) @ ''</'' @ t @ ''>'')"

section \<open>The domain description\<close>

text \<open>\<^verbatim>\<open>VM.__init__\<close> from the creation of the domain element on.\<close>

definition vm_xml :: "string \<Rightarrow> string \<Rightarrow> xml \<times> xpath" where
  "vm_xml name mem =
     (let x = Elem ''domain'' [(''type'', ''kvm'')] None [];
          x = se_text [] ''name'' [] name x;
          x = se_text [] ''memory'' [(''unit'', ''MiB'')] mem x;
          x = se_text [] ''currentMemory'' [(''unit'', ''MiB'')] mem x;
          x = se_text [] ''vcpu'' [(''placement'', ''static'')] ''1'' x;
          (cpu, x) = se [] ''cpu'' [(''mode'', ''host-model'')] x;
          (_, x) = se cpu ''model'' [(''fallback'', ''forbid'')] x;
          (os, x) = se [] ''os'' [] x;
          x = se_text os ''type'' [(''arch'', ''x86_64''), (''machine'', ''pc-1.0'')] ''hvm'' x;
          (features, x) = se [] ''features'' [] x;
          (_, x) = se features ''acpi'' [] x;
          (_, x) = se features ''apic'' [] x;
          (_, x) = se features ''pae'' [] x;
          (devices, x) = se [] ''devices'' [] x;
          x = se_text devices ''emulator'' [] ''/usr/bin/kvm'' x;
          (_, x) = se devices ''controller'' [(''type'', ''pci''), (''index'', ''0''), (''model'', ''pci-root'')] x;
          (_, x) = se devices ''graphics'' [(''type'', ''spice''), (''autoport'', ''yes'')] x;
          (mb, x) = se devices ''memballoon'' [(''model'', ''virtio'')] x;
          (_, x) = se mb ''address'' [(''type'', ''pci''), (''domain'', ''0x0000''), (''bus'', ''0x00''),
                     (''slot'', ''0x09''), (''function'', ''0x0'')] x
      in (x, devices))"

record vm =
  vid :: nat
  vm_name :: string
  vm_cfg :: pyval
  local_cfg :: pyval
  macs :: "string list"
  disks :: "string list"
  bridges :: "string list"
  vx :: xml
  devices :: xpath

record host_state =
  br_vm :: "(string option \<times> nat list) list"
  host_vms :: "nat list"
  la :: rat
  free :: int

record vst = io +
  hst :: "nat \<Rightarrow> host_state"
  ip_of :: "nat \<Rightarrow> string option"
  next_vid :: nat
  host_order :: "nat list"
  prov_last :: rat

record 'y host =
  hid :: nat
  h_ssh :: ssh
  h_cfg :: pyval
  h_vm_key :: "string option"
  h_ops :: "env \<Rightarrow> 'y vst_ext storage_ops"

type_synonym ('y, 'a) vprog = "('y vst_scheme, 'a) prog"

definition vm_new :: "env \<Rightarrow> pyval \<Rightarrow> pyval \<Rightarrow> ('y, vm) vprog" where
  "vm_new E cfg lcfg =
     bnd (liftR (bindR (getitem lcfg ''name'') (as_str TypeError))) (\<lambda>nm.
     bnd (get_rnd_name E nm 12) (\<lambda>name.
     bnd (liftR (bindR (getdef (if truthy cfg then cfg else PDict []) ''memory'' (PInt 1024)) py_str)) (\<lambda>mem.
     bnd (gets next_vid) (\<lambda>n.
     bnd (modify (\<lambda>s. s\<lparr>next_vid := Suc n\<rparr>)) (\<lambda>_.
     ret \<lparr>vid = n, vm_name = name, vm_cfg = (if truthy cfg then cfg else PDict []), local_cfg = lcfg, macs = [], disks = [], bridges = [],
          vx = fst (vm_xml name mem), devices = snd (vm_xml name mem)\<rparr>)))))"

definition basename :: "string \<Rightarrow> string" where
  "basename p = last (split_on (CHR ''/'') p)"

definition add_disk :: "string \<Rightarrow> vm \<Rightarrow> vm" where
  "add_disk path v =
     (let dev = hd (split_on (CHR ''.'') (basename path));
          (disk, x) = se (devices v) ''disk'' [(''device'', ''disk''), (''type'', ''file'')] (vx v);
          (_, x) = se disk ''driver'' [(''name'', ''qemu''), (''type'', ''qcow2''), (''cache'', ''unsafe'')] x;
          (_, x) = se disk ''source'' [(''file'', path)] x;
          (_, x) = se disk ''target'' [(''dev'', dev), (''bus'', ''virtio'')] x
      in v\<lparr>vx := x\<rparr>)"

definition attach_net :: "string \<Rightarrow> string \<Rightarrow> vm \<Rightarrow> vm" where
  "attach_net bridge mac v =
     (let (net, x) = se (devices v) ''interface'' [(''type'', ''bridge'')] (vx v);
          (_, x) = se net ''source'' [(''bridge'', bridge)] x;
          (_, x) = se net ''model'' [(''type'', ''virtio'')] x;
          (_, x) = se net ''mac'' [(''address'', mac)] x
      in v\<lparr>vx := x, macs := macs v @ [mac], bridges := bridges v @ [bridge]\<rparr>)"

definition add_net :: "env \<Rightarrow> string \<Rightarrow> string option \<Rightarrow> vm \<Rightarrow> ('y, vm) vprog" where
  "add_net E bridge mac v =
     bnd (case mac of Some m \<Rightarrow> if m \<noteq> [] then ret m else get_rnd_mac E | None \<Rightarrow> get_rnd_mac E) (\<lambda>m.
     ret (attach_net bridge m v))"

definition vm_boot :: "env \<Rightarrow> 'y host \<Rightarrow> vm \<Rightarrow> ('y, unit) vprog" where
  "vm_boot E H v =
     (let conf = ''/tmp/.conf.'' @ vm_name v @ ''.xml'' in
      bnd (ssh_run E (h_ssh H) no_cb (CmdStr (''cat > '' @ conf)) (Some (xml_str (vx v))) False True True None) (\<lambda>_.
      sh E (h_ssh H) (''virsh create '' @ conf)))"

section \<open>Bridges and destruction\<close>

definition upd_host :: "nat \<Rightarrow> (host_state \<Rightarrow> host_state) \<Rightarrow> 'y vst_scheme \<Rightarrow> 'y vst_scheme" where
  "upd_host i f s = s\<lparr>hst := (hst s)(i := f (hst s i))\<rparr>"

fun br_str :: "string option \<Rightarrow> string" where
  "br_str (Some b) = b"
| "br_str None = ''None''"

definition cleanup_net :: "env \<Rightarrow> 'y host \<Rightarrow> ('y, unit) vprog" where
  "cleanup_net E H =
     bnd (gets (\<lambda>s. map fst (filter (\<lambda>(br, vms). vms = []) (br_vm (hst s (hid H)))))) (\<lambda>clean.
     bnd (forM clean (\<lambda>br. sh E (h_ssh H) (''ip link del '' @ br_str br))) (\<lambda>_.
     modify (upd_host (hid H) (\<lambda>hs. hs\<lparr>br_vm := filter (\<lambda>(br, vms). br \<notin> set clean) (br_vm hs)\<rparr>))))"

text \<open>The loop of \<^verbatim>\<open>VM.destroy\<close> over the bridges: \<^verbatim>\<open>lst.remove(self)\<close> drops the first occurrence.\<close>

definition drop_from_bridge :: "nat \<Rightarrow> (string option \<times> nat list) list \<Rightarrow> string \<Rightarrow> (string option \<times> nat list) list" where
  "drop_from_bridge i m br = map (\<lambda>(b, vms). (b, if b = Some br then remove1 i vms else vms)) m"

definition drop_from_bridges :: "vm \<Rightarrow> (string option \<times> nat list) list \<Rightarrow> (string option \<times> nat list) list" where
  "drop_from_bridges v m = foldl (drop_from_bridge (vid v)) m (bridges v)"

definition vm_destroy :: "env \<Rightarrow> 'y host \<Rightarrow> vm \<Rightarrow> bool \<Rightarrow> ('y, unit) vprog" where
  "vm_destroy E H v stor =
     bnd (sh_status E (h_ssh H) (''virsh destroy '' @ vm_name v)) (\<lambda>_.
     bnd (if stor then forM (disks v) (so_destroy (h_ops H E)) else ret ()) (\<lambda>_.
     bnd (modify (upd_host (hid H) (\<lambda>hs. hs\<lparr>br_vm := drop_from_bridges v (br_vm hs)\<rparr>))) (\<lambda>_.
     cleanup_net E H)))"

section \<open>Finding the address, running scripts\<close>

definition IP_RE :: string where
  "IP_RE = ''('' @ [CHR 0x5C] @ ''d+'' @ [CHR 0x5C] @ ''.'' @ [CHR 0x5C] @ ''d+'' @ [CHR 0x5C] @ ''.'' @
     [CHR 0x5C] @ ''d+'' @ [CHR 0x5C] @ ''.'' @ [CHR 0x5C] @ ''d+)'' @ [CHR 0x5C] @ ''s''"

fun first_ip :: "string list \<Rightarrow> string option result" where
  "first_ip [] = Inr None"
| "first_ip (line # ls) = bindR (re_match IP_RE line) (\<lambda>m. case m of
     Some (ip # _) \<Rightarrow> Inr (Some ip) | _ \<Rightarrow> first_ip ls)"

definition arp_cmd :: "vm \<Rightarrow> string" where
  "arp_cmd v = ''egrep -i '' @ [CHR 0x27] @ join ''|'' (macs v) @ [CHR 0x27] @ '' /proc/net/arp''"

definition poll_ip :: "env \<Rightarrow> 'y host \<Rightarrow> vm \<Rightarrow> ('y, string option) vprog" where
  "poll_ip E H v =
     bnd (sleep E 4) (\<lambda>_.
     bnd (ssh_run E (h_ssh H) no_cb (CmdStr (arp_cmd v)) None True True False None) (\<lambda>a.
     case a of Code _ \<Rightarrow> raise AttributeError | Output data \<Rightarrow> liftR (first_ip (splitlines data))))"

partial_function (option) ip_loop :: "env \<Rightarrow> 'y host \<Rightarrow> vm \<Rightarrow> rat \<Rightarrow> ('y, unit) vprog" where
  "ip_loop E H v deadline s =
     bnd (now E) (\<lambda>t. if t > deadline then raise (GenericError ''Unable to find ip of VM'') else
     bnd (poll_ip E H v) (\<lambda>r. if r \<noteq> None
       then bnd (modify (\<lambda>s. s\<lparr>ip_of := (ip_of s)(vid v := r)\<rparr>)) (\<lambda>_. sleep E 8)
       else ip_loop E H v deadline)) s"

definition get_ip :: "env \<Rightarrow> 'y host \<Rightarrow> vm \<Rightarrow> rat \<Rightarrow> ('y, unit) vprog" where
  "get_ip E H v timeout =
     bnd (gets (\<lambda>s. ip_of s (vid v))) (\<lambda>ip.
     if ip \<noteq> None then sleep E 0
     else bnd (now E) (\<lambda>t. ip_loop E H v (t + timeout)))"

definition vm_ip :: "vm \<Rightarrow> ('y, string) vprog" where
  "vm_ip v = bnd (gets (\<lambda>s. ip_of s (vid v))) (\<lambda>ip. case ip of Some a \<Rightarrow> ret a | None \<Rightarrow> raise AttributeError)"

definition get_ssh :: "env \<Rightarrow> 'y host \<Rightarrow> vm \<Rightarrow> ('y, ssh) vprog" where
  "get_ssh E H v = bnd (get_ip E H v 300) (\<lambda>_. bnd (vm_ip v) (\<lambda>ip. ssh_new (Some ''root'') ip (h_vm_key H) ''22''))"

definition env_prefix :: "(string \<times> pyval) list \<Rightarrow> string result" where
  "env_prefix envs = bindR (mapR (\<lambda>(k, v). bindR (py_str v) (\<lambda>w. Inr (k @ ''='' @ [CHR 0x27] @ w @ [CHR 0x27] @ '' ''))) envs)
     (\<lambda>ws. Inr (concat ws))"

definition run_script :: "env \<Rightarrow> 'y host \<Rightarrow> vm \<Rightarrow> pyval \<Rightarrow> (string \<times> pyval) list \<Rightarrow> bool
    \<Rightarrow> (string \<Rightarrow> ('y, unit) vprog) \<Rightarrow> ('y, answer) vprog" where
  "run_script E H v script envs raise_on_error cb =
     bnd (get_ip E H v 300) (\<lambda>_.
     bnd (liftR (env_prefix envs)) (\<lambda>pre.
     bnd (liftR (bindR (getitem script ''interpreter'') (as_str TypeError))) (\<lambda>interp.
     bnd (liftR (bindR (getdef script ''user'' (PStr ''root'')) (as_str Unmodelled))) (\<lambda>user.
     bnd (vm_ip v) (\<lambda>ip.
     bnd (ssh_new (Some user) ip (h_vm_key H) ''22'') (\<lambda>ssh.
     bnd (liftR (bindR (getitem script ''data'') (as_str Unmodelled))) (\<lambda>data.
     ssh_run E ssh cb (CmdStr (pre @ interp)) (Some data) False True raise_on_error (Some user))))))))"

partial_function (option) shutdown_loop :: "env \<Rightarrow> 'y host \<Rightarrow> vm \<Rightarrow> rat \<Rightarrow> bool \<Rightarrow> ('y, unit) vprog" where
  "shutdown_loop E H v timeout stor s =
     bnd (sleep E 4) (\<lambda>_.
     bnd (sh_status E (h_ssh H) (''virsh list | grep -q '' @ vm_name v)) (\<lambda>err.
     if err \<noteq> Code 0 then ret () else
     bnd (now E) (\<lambda>t. if t > timeout then vm_destroy E H v stor else shutdown_loop E H v timeout stor))) s"

definition vm_shutdown :: "env \<Rightarrow> 'y host \<Rightarrow> vm \<Rightarrow> rat \<Rightarrow> bool \<Rightarrow> ('y, unit) vprog" where
  "vm_shutdown E H v timeout stor =
     bnd (gets (\<lambda>s. ip_of s (vid v))) (\<lambda>ip.
     if ip = None then vm_destroy E H v stor
     else bnd (get_ssh E H v) (\<lambda>ssh.
       bnd (sh E ssh ''shutdown -h now'') (\<lambda>_.
       bnd (now E) (\<lambda>t.  \<comment> \<open>\<^verbatim>\<open>deadline\<close>, which the loop does not use\<close>
       shutdown_loop E H v timeout stor))))"

section \<open>The domain description a machine is booted with\<close>

lemma elem_at_append: "elem_at (p @ q) e = Option.bind (elem_at p e) (elem_at q)"
  by (induction p e rule: elem_at.induct) auto

lemma elem_at_upd: "elem_at p d = Some e \<Longrightarrow> elem_at p (upd_at p f d) = Some (f e)"
  by (induction p f d rule: upd_at.induct) (auto split: if_splits)

lemma upd_at_append: "upd_at (p @ q) f d = upd_at p (upd_at q f) d"
proof (induction p arbitrary: d)
  case (Cons i p)
  then show ?case by (cases d) simp
qed simp

lemma upd_at_twice: "upd_at p f (upd_at p g d) = upd_at p (\<lambda>e. f (g e)) d"
  by (induction p g d rule: upd_at.induct) auto

lemma upd_at_cong: "elem_at p d = Some e \<Longrightarrow> f e = g e \<Longrightarrow> upd_at p f d = upd_at p g d"
  by (induction p f d rule: upd_at.induct) (auto split: if_splits)

fun add_kid :: "xml \<Rightarrow> xml \<Rightarrow> xml" where
  "add_kid k (Elem t a x ks) = Elem t a x (ks @ [k])"

lemma add_kid_sel [simp]: "kids (add_kid k e) = kids e @ [k]" "tag (add_kid k e) = tag e"
  "attrs (add_kid k e) = attrs e" "xtext (add_kid k e) = xtext e"
  by (cases e; simp)+

lemma se_eq:
  "elem_at p d = Some e \<Longrightarrow> se p t a d = (p @ [length (kids e)], upd_at p (add_kid (Elem t a None [])) d)"
proof -
  have "(\<lambda>(Elem t' a' x' ks) \<Rightarrow> Elem t' a' x' (ks @ [Elem t a None []])) = add_kid (Elem t a None [])"
    by (rule ext) (simp split: xml.splits)
  then show "elem_at p d = Some e \<Longrightarrow> ?thesis" by (simp add: se_def)
qed

lemma se_under_new:
  assumes "elem_at p d = Some e"
  shows "se (p @ [length (kids e)]) t a (upd_at p (add_kid k) d) =
    (p @ [length (kids e), length (kids k)], upd_at p (add_kid (add_kid (Elem t a None []) k)) d)"
proof -
  have at: "elem_at (p @ [length (kids e)]) (upd_at p (add_kid k) d) = Some k"
    using assms by (simp add: elem_at_append elem_at_upd)
  have "upd_at (p @ [length (kids e)]) (add_kid (Elem t a None [])) (upd_at p (add_kid k) d) =
    upd_at p (add_kid (add_kid (Elem t a None []) k)) d"
    unfolding upd_at_append upd_at_twice
    by (rule upd_at_cong [OF assms]) (cases e, simp add: list_update_append)
  then show ?thesis using se_eq [OF at] by simp
qed

definition disk_elem :: "string \<Rightarrow> xml" where
  "disk_elem path = Elem ''disk'' [(''device'', ''disk''), (''type'', ''file'')] None
     [Elem ''driver'' [(''name'', ''qemu''), (''type'', ''qcow2''), (''cache'', ''unsafe'')] None [],
      Elem ''source'' [(''file'', path)] None [],
      Elem ''target'' [(''dev'', hd (split_on (CHR ''.'') (basename path))), (''bus'', ''virtio'')] None []]"

definition net_elem :: "string \<Rightarrow> string \<Rightarrow> xml" where
  "net_elem bridge mac = Elem ''interface'' [(''type'', ''bridge'')] None
     [Elem ''source'' [(''bridge'', bridge)] None [], Elem ''model'' [(''type'', ''virtio'')] None [],
      Elem ''mac'' [(''address'', mac)] None []]"

definition dev_kids :: "vm \<Rightarrow> xml list" where
  "dev_kids v = (case elem_at (devices v) (vx v) of Some e \<Rightarrow> kids e | None \<Rightarrow> [])"

definition wf_vm :: "vm \<Rightarrow> bool" where
  "wf_vm v \<longleftrightarrow> elem_at (devices v) (vx v) \<noteq> None"

lemma add_disk_eq:
  assumes "wf_vm v"
  shows "add_disk path v = v\<lparr>vx := upd_at (devices v) (add_kid (disk_elem path)) (vx v)\<rparr>"
  using assms by (auto simp: wf_vm_def add_disk_def se_eq se_under_new disk_elem_def)

lemma attach_net_eq:
  assumes "wf_vm v"
  shows "attach_net bridge mac v = v\<lparr>vx := upd_at (devices v) (add_kid (net_elem bridge mac)) (vx v),
    macs := macs v @ [mac], bridges := bridges v @ [bridge]\<rparr>"
  using assms by (auto simp: wf_vm_def attach_net_def se_eq se_under_new net_elem_def)

lemma add_disk_facts:
  assumes "wf_vm v"
  shows "wf_vm (add_disk path v)" "dev_kids (add_disk path v) = dev_kids v @ [disk_elem path]"
    "macs (add_disk path v) = macs v" "bridges (add_disk path v) = bridges v"
    "disks (add_disk path v) = disks v" "vid (add_disk path v) = vid v" "vm_name (add_disk path v) = vm_name v"
  using assms by (auto simp: add_disk_eq wf_vm_def dev_kids_def elem_at_upd)

lemma attach_net_facts:
  assumes "wf_vm v"
  shows "wf_vm (attach_net b m v)" "dev_kids (attach_net b m v) = dev_kids v @ [net_elem b m]"
    "macs (attach_net b m v) = macs v @ [m]" "bridges (attach_net b m v) = bridges v @ [b]"
    "disks (attach_net b m v) = disks v" "vid (attach_net b m v) = vid v" "vm_name (attach_net b m v) = vm_name v"
  using assms by (auto simp: attach_net_eq wf_vm_def dev_kids_def elem_at_upd)

lemma fold_add_disk_facts:
  assumes "wf_vm v"
  shows "wf_vm (fold add_disk fs v) \<and> dev_kids (fold add_disk fs v) = dev_kids v @ map disk_elem fs
    \<and> macs (fold add_disk fs v) = macs v \<and> bridges (fold add_disk fs v) = bridges v
    \<and> disks (fold add_disk fs v) = disks v \<and> vid (fold add_disk fs v) = vid v"
  using assms by (induction fs arbitrary: v) (auto simp: add_disk_facts)

lemma vm_xml_devices:
  "snd (vm_xml name mem) = [7]"
  "elem_at [7] (fst (vm_xml name mem)) = Some (Elem ''devices'' [] None
     [Elem ''emulator'' [] (Some ''/usr/bin/kvm'') [],
      Elem ''controller'' [(''type'', ''pci''), (''index'', ''0''), (''model'', ''pci-root'')] None [],
      Elem ''graphics'' [(''type'', ''spice''), (''autoport'', ''yes'')] None [],
      Elem ''memballoon'' [(''model'', ''virtio'')] None
        [Elem ''address'' [(''type'', ''pci''), (''domain'', ''0x0000''), (''bus'', ''0x00''),
           (''slot'', ''0x09''), (''function'', ''0x0'')] None []]])"
  by (simp_all add: vm_xml_def se_text_def set_text_def se_def)

section \<open>What the operations of a machine keep, and that they return\<close>

lemma emits_keeps_view: "emits P m \<Longrightarrow> (\<And>s x. g (s\<lparr>trace := x\<rparr>) = g s) \<Longrightarrow> keeps g m"
  by (rule keepsI) (auto elim: emitsD)

text \<open>The part of the state that is not of the hosts and the machines.\<close>

definition outer :: "'y vst_scheme \<Rightarrow> nat list \<times> rat \<times> 'y" where
  "outer s = (host_order s, prov_last s, vst.more s)"

lemma outer_updates [simp]:
  "outer (s\<lparr>trace := x\<rparr>) = outer s" "outer (s\<lparr>hst := m\<rparr>) = outer s" "outer (s\<lparr>ip_of := f\<rparr>) = outer s"
  "outer (s\<lparr>next_vid := n\<rparr>) = outer s" "outer (upd_host i g s) = outer s"
  by (simp_all add: outer_def upd_host_def)

lemma keeps_io_vst [keeps_intro]:
  "keeps outer (sleep E t)" "keeps outer (now E)" "keeps outer (get_rnd_name E p n)"
  "keeps outer (get_rnd_mac E)" "keeps outer (sh E h cmd)" "keeps outer (sh_output E h cmd)"
  "keeps outer (sh_status E h cmd)" "keeps outer (random_shuffle E xs)"
  by (rule emits_keeps_view [where P = "\<lambda>_. True"];
      (intro io_frame emits_sh emits_sh_output emits_sh_status TrueI)?; simp)+

lemma keeps_ssh_new [keeps_intro]: "keeps outer (ssh_new u h k p)"
  by (rule keepsI) (auto simp: ssh_new_def)

lemma keeps_ssh_run_vst [keeps_intro]:
  assumes "\<And>line. keeps outer (cb line)"
  shows "keeps outer (ssh_run E h cb cmd i ro st re user)"
proof -
  have "keeps outer (ssh_wait E h t)" for t
    by (rule emits_keeps_view [OF emits_ssh_wait]) simp
  moreover have "keeps outer (ssh_exec E h cb cmd i ro st re user)"
    unfolding ssh_exec_def
    by (intro keeps_intro assms emits_keeps_view [where P = "\<lambda>_. True", OF emits_prims(3)]) simp_all
  ultimately show ?thesis
    unfolding ssh_run_def by (intro keeps_intro)
qed

lemma keeps_no_cb [keeps_intro]: "keeps g (no_cb line)"
  unfolding no_cb_def by (intro keeps_intro)

lemma keeps_case_answer [keeps_intro]:
  "(\<And>n. keeps g (f n)) \<Longrightarrow> (\<And>w. keeps g (k w)) \<Longrightarrow> keeps g (case a of Code n \<Rightarrow> f n | Output w \<Rightarrow> k w)"
  by (cases a) simp_all

lemma keeps_vm_basic [keeps_intro]:
  "keeps outer (vm_new E cfg lcfg)" "keeps outer (add_net E b mac v)" "keeps outer (vm_boot E H v)"
  "keeps outer (cleanup_net E H)" "keeps outer (vm_ip v)" "keeps outer (poll_ip E H v)"
  unfolding vm_new_def add_net_def vm_boot_def cleanup_net_def vm_ip_def poll_ip_def Let_def
  by (intro keeps_intro; simp)+

lemma keeps_ip_loop [keeps_intro]: "keeps outer (ip_loop E H v deadline)"
proof (rule keepsI)
  fix s :: "'a vst_scheme" and r t
  assume ret: "ip_loop E H v deadline s = Some (r, t)"
  let ?P = "\<lambda>E H v d s (y :: unit result \<times> 'a vst_scheme). outer (snd y) = outer s"
  have "?P E H v deadline s (r, t)"
  proof (rule ip_loop.raw_induct [where P = ?P, OF _ ret])
    fix f E H v d and s :: "'a vst_scheme" and y
    assume IH: "\<And>E H v d s y. f E H v d s = Some y \<Longrightarrow> ?P E H v d s y"
      and eq: "bnd (now E) (\<lambda>t. if t > d then raise (GenericError ''Unable to find ip of VM'') else
        bnd (poll_ip E H v) (\<lambda>r. if r \<noteq> None
          then bnd (modify (\<lambda>s. s\<lparr>ip_of := (ip_of s)(vid v := r)\<rparr>)) (\<lambda>_. sleep E 8)
          else f E H v d)) s = Some y"
    have "keeps outer (f E H v d)" by (rule keepsI) (drule IH, simp)
    then have "keeps outer (bnd (now E) (\<lambda>t. if t > d then raise (GenericError ''Unable to find ip of VM'') else
        bnd (poll_ip E H v) (\<lambda>r. if r \<noteq> None
          then bnd (modify (\<lambda>s. s\<lparr>ip_of := (ip_of s)(vid v := r)\<rparr>)) (\<lambda>_. sleep E 8)
          else f E H v d)))"
      by (intro keeps_intro) simp_all
    with eq show "?P E H v d s y" by (cases y) (auto dest: keepsD)
  qed
  then show "outer t = outer s" by simp
qed

lemma keeps_get_ip [keeps_intro]: "keeps outer (get_ip E H v timeout)"
  unfolding get_ip_def by (intro keeps_intro)

lemma keeps_run_script [keeps_intro]:
  "(\<And>line. keeps outer (cb line)) \<Longrightarrow> keeps outer (run_script E H v script envs re cb)"
  unfolding run_script_def by (intro keeps_intro)

lemma keeps_get_ssh [keeps_intro]: "keeps outer (get_ssh E H v)"
  unfolding get_ssh_def by (intro keeps_intro)

text \<open>
  A host whose storage object keeps the contract of \<open>storage_backend\<close>: what the methods of its
  machines promise then, whichever the back end.
\<close>

lemma poll_ip_clock:
  assumes "clock_ok E" and "poll_ip E H v s = Some (Inr r, s')"
  shows "clock E (trace s) + 4 \<le> clock E (trace s')"
proof -
  let ?rest = "\<lambda>_. bnd (ssh_run E (h_ssh H) no_cb (CmdStr (arp_cmd v)) None True True False None) (\<lambda>a.
     case a of Code _ \<Rightarrow> raise AttributeError | Output data \<Rightarrow> liftR (first_ip (splitlines data)))"
  from assms(2) obtain u where u: "sleep E 4 s = Some (Inr (), u)" "?rest () u = Some (Inr r, s')"
    unfolding poll_ip_def by (rule bnd_InrE) simp
  have tr: "trace u = trace s @ [Sleep 4]" using u(1) by (auto simp: sleep_def)
  have "emits (\<lambda>_. True) (?rest ())"
    by (rule emits_bnd, rule emits_ssh_run) (auto intro!: io_frame split: answer.splits)
  then obtain t where "s' = u\<lparr>trace := trace u @ t\<rparr>" using u(2) by (rule emitsD)
  then have "trace s' = (trace s @ [Sleep 4]) @ t" using tr by simp
  then show ?thesis
    using clock_ok_sleep [OF assms(1), of "trace s" 4] clock_ok_mono [OF assms(1), of "trace s @ [Sleep 4]" t] by simp
qed

lemma returns_poll_ip [total_intro]: "clock_ok E \<Longrightarrow> returns (poll_ip E H v)"
  unfolding poll_ip_def by (intro total_intro)

lemma ip_loop_returns:
  assumes "clock_ok E" and "deadline - clock E (trace s) < of_nat n"
  shows "\<exists>y. ip_loop E H v deadline s = Some y"
  using assms(2)
proof (induction n arbitrary: s)
  case 0
  then show ?case by (subst ip_loop.simps) (simp add: now_def bnd_def)
next
  case (Suc n)
  show ?case
  proof (cases "clock E (trace s) > deadline")
    case True
    then show ?thesis by (subst ip_loop.simps) (simp add: now_def bnd_def)
  next
    case False
    let ?s1 = "s\<lparr>trace := trace s @ [Clock]\<rparr>"
    obtain r u where p: "poll_ip E H v ?s1 = Some (r, u)"
      using returns_poll_ip [OF assms(1)] by (rule totalE)
    have loop: "r = Inr None \<Longrightarrow> \<exists>y. ip_loop E H v deadline u = Some y"
    proof -
      assume "r = Inr None"
      with p have "clock E (trace ?s1) + 4 \<le> clock E (trace u)"
        by (intro poll_ip_clock [OF assms(1)]) simp
      moreover have "clock E (trace s) \<le> clock E (trace ?s1)"
        using clock_ok_mono [OF assms(1), of "trace s" "[Clock]"] by simp
      ultimately show ?thesis using Suc by simp
    qed
    show ?thesis
    proof (cases r)
      case (Inr ro)
      with False p loop show ?thesis
        by (subst ip_loop.simps, cases ro) (simp_all add: now_def bnd_def sleep_def)
    qed (use False p in \<open>subst ip_loop.simps, simp add: now_def bnd_def\<close>)
  qed
qed

lemma returns_get_ip [total_intro]:
  assumes "clock_ok E"
  shows "returns (get_ip E H v timeout)"
proof -
  have "returns (ip_loop E H v d)" for d
  proof (rule totalI)
    fix s :: "'a vst_scheme"
    obtain n :: nat where "d - clock E (trace s) < of_nat n" using reals_Archimedean2 by blast
    then show "\<exists>y. ip_loop E H v d s = Some y" by (rule ip_loop_returns [OF assms])
  qed
  then show ?thesis unfolding get_ip_def by (intro total_intro)
qed

lemma returns_vm_pure [total_intro]:
  "returns (vm_ip v)" "returns (get_rnd_name E p n)" "returns (get_rnd_mac E)" "returns (vm_new E cfg lcfg)"
  "returns (add_net E b mac v)"
  unfolding vm_ip_def get_rnd_name_def get_rnd_mac_def rnd_byte_def vm_new_def add_net_def
  by (intro total_intro)+

lemma returns_vm_basic [total_intro]:
  assumes "clock_ok E"
  shows "returns (cleanup_net E H)" "returns (vm_boot E H v)"
  unfolding cleanup_net_def vm_boot_def Let_def by (intro total_intro assms)+

lemma returns_ssh_new [total_intro]: "returns (ssh_new u h k p)"
  by (rule totalI) (simp add: ssh_new_def)

lemma returns_run_script [total_intro]:
  assumes "clock_ok E" and "\<And>line. returns (cb line)"
  shows "returns (run_script E H v script envs re cb)"
  unfolding run_script_def by (intro total_intro assms)

locale vhost = storage_backend E "h_ops H E" "h_ssh H" for E :: env and H :: "'y host"
begin

lemma keeps_ops:
  "keeps outer (so_create (h_ops H E) n)" "keeps outer (so_list_files (h_ops H E) n)"
  "keeps outer (so_clone (h_ops H E) src dst)" "keeps outer (so_exist (h_ops H E) n)"
  "keeps outer (so_snapshot (h_ops H E) n)" "keeps outer (so_destroy (h_ops H E) n)"
  "keeps outer (so_download (h_ops H E) n url)"
  by (rule emits_keeps_view, rule reqs, simp)+

lemma keeps_vm_destroy: "keeps outer (vm_destroy E H v stor)"
  unfolding vm_destroy_def by (intro keeps_intro keeps_ops) simp

lemma returns_vm_destroy: "clock_ok E \<Longrightarrow> returns (vm_destroy E H v stor)"
  unfolding vm_destroy_def by (intro total_intro returns_ops)

lemma shutdown_loop_returns:
  assumes "clock_ok E" and "timeout - clock E (trace s) < of_nat n"
  shows "\<exists>y. shutdown_loop E H v timeout stor s = Some y"
  using assms(2)
proof (induction n arbitrary: s rule: less_induct)
  case (less n)
  let ?s1 = "s\<lparr>trace := trace s @ [Sleep 4]\<rparr>"
  let ?poll = "sh_status E (h_ssh H) (''virsh list | grep -q '' @ vm_name v)"
  obtain r u where p: "?poll ?s1 = Some (r, u)"
    using returns_sh(3) [OF assms(1)] by (rule totalE)
  have "emits (\<lambda>_. True) ?poll" by (intro emits_sh_status) simp_all
  with p obtain t where u: "u = ?s1\<lparr>trace := trace ?s1 @ t\<rparr>" by (auto elim: emitsD)
  let ?u1 = "u\<lparr>trace := trace u @ [Clock]\<rparr>"
  have up: "clock E (trace s) + 4 \<le> clock E (trace u)"
    using clock_ok_sleep [OF assms(1), of "trace s" 4] clock_ok_mono [OF assms(1), of "trace s @ [Sleep 4]" t] u
    by simp
  have up1: "clock E (trace u) \<le> clock E (trace ?u1)" using clock_ok_mono [OF assms(1), of "trace u" "[Clock]"] by simp
  have loop: "\<not> clock E (trace u) > timeout \<Longrightarrow> \<exists>y. shutdown_loop E H v timeout stor ?u1 = Some y"
  proof -
    assume small: "\<not> clock E (trace u) > timeout"
    with up have "timeout - clock E (trace s) \<ge> 0" by simp
    with less.prems obtain k where k: "n = Suc k" by (cases n) auto
    show ?thesis using less.IH [of k ?u1] less.prems up up1 k by simp
  qed
  obtain r' u' where d: "vm_destroy E H v stor ?u1 = Some (r', u')"
    using returns_vm_destroy [OF assms(1)] by (rule totalE)
  show ?case
    using p d loop
    by (subst shutdown_loop.simps) (cases r; auto simp: sleep_def yielding_def now_def bnd_def)
qed

lemma returns_vm_shutdown:
  assumes "clock_ok E"
  shows "returns (vm_shutdown E H v timeout stor)"
proof -
  have "returns (shutdown_loop E H v timeout stor)"
  proof (rule totalI)
    fix s :: "'y vst_scheme"
    obtain n :: nat where "timeout - clock E (trace s) < of_nat n" using reals_Archimedean2 by blast
    then show "\<exists>y. shutdown_loop E H v timeout stor s = Some y" by (rule shutdown_loop_returns [OF assms])
  qed
  then show ?thesis
    unfolding vm_shutdown_def get_ssh_def by (intro total_intro assms returns_vm_destroy)
qed

end

section \<open>Bridges after a machine is destroyed\<close>

lemma keeps_hst_io [keeps_intro]:
  "keeps hst (sleep E t)" "keeps hst (sh E h cmd)" "keeps hst (sh_output E h cmd)" "keeps hst (sh_status E h cmd)"
  by (rule emits_keeps_view [where P = "\<lambda>_. True"];
      (intro io_frame emits_sh emits_sh_output emits_sh_status TrueI)?; simp)+

lemma bridge_drop_mem:
  "(b, vms) \<in> set (drop_from_bridge i m br) \<Longrightarrow> \<exists>vms'. (b, vms') \<in> set m \<and> vms = (if b = Some br then remove1 i vms' else vms')"
  by (auto simp: drop_from_bridge_def)

lemma drop_from_bridges_keys: "map fst (drop_from_bridges v m) = map fst m"
proof -
  have "map fst (foldl (drop_from_bridge i) m bs) = map fst m" for i bs
    by (induction bs arbitrary: m) (simp_all add: drop_from_bridge_def comp_def split_def)
  then show ?thesis by (simp add: drop_from_bridges_def)
qed

text \<open>The machines recorded for a bridge that the machine uses lose it once, the others keep theirs.\<close>

lemma drop_from_bridges_lookup:
  assumes "count_list (bridges v) br \<le> 1" "map_of m (Some br) = Some vms"
  shows "map_of (drop_from_bridges v m) (Some br) = Some (if br \<in> set (bridges v) then remove1 (vid v) vms else vms)"
proof -
  have one: "map_of (drop_from_bridge i m b) (Some br) =
      map_option (\<lambda>vms. if b = br then remove1 i vms else vms) (map_of m (Some br))" for i m b
    by (induction m) (auto simp: drop_from_bridge_def)
  have none: "br \<notin> set bs \<Longrightarrow> map_of (foldl (drop_from_bridge i) m bs) (Some br) = map_of m (Some br)" for i m bs
    by (induction bs arbitrary: m) (auto simp: one option.map_id0 map_option_case split: option.splits)
  have "count_list bs br \<le> 1 \<Longrightarrow> map_of m (Some br) = Some vms \<Longrightarrow> map_of (foldl (drop_from_bridge i) m bs) (Some br) =
      Some (if br \<in> set bs then remove1 i vms else vms)" for i m bs vms
  proof (induction bs arbitrary: m)
    case (Cons b bs)
    show ?case
    proof (cases "b = br")
      case True
      with Cons.prems(1) have "br \<notin> set bs" by (simp add: count_list_0_iff)
      with True Cons.prems show ?thesis by (simp add: one none)
    next
      case False
      with Cons show ?thesis by (simp add: one)
    qed
  qed simp
  with assms show ?thesis by (simp add: drop_from_bridges_def)
qed

lemma filter_keys:
  assumes "distinct (map fst m)"
  shows "filter (\<lambda>(k, x). k \<notin> fst ` set (filter (\<lambda>(k, x). x = y) m)) m = filter (\<lambda>(k, x). x \<noteq> y) m"
proof (rule filter_cong [OF refl])
  fix p
  assume p: "p \<in> set m"
  have "fst p \<in> fst ` set (filter (\<lambda>(k, x). x = y) m) \<longleftrightarrow> snd p = y"
  proof
    assume "fst p \<in> fst ` set (filter (\<lambda>(k, x). x = y) m)"
    then obtain q where "q \<in> set m" "snd q = y" "fst q = fst p" by auto
    with p assms show "snd p = y" by (metis eq_key_imp_eq_value prod.collapse)
  qed (use p in force)
  then show "(case p of (k, x) \<Rightarrow> k \<notin> fst ` set (filter (\<lambda>(k, x). x = y) m)) = (case p of (k, x) \<Rightarrow> x \<noteq> y)"
    by (simp add: split_def)
qed

lemma cleanup_net_ok:
  assumes "cleanup_net E H s = Some (Inr (), t)" and "distinct (map fst (br_vm (hst s (hid H))))"
  shows "br_vm (hst t (hid H)) = filter (\<lambda>(br, vms). vms \<noteq> []) (br_vm (hst s (hid H)))"
proof -
  let ?m = "br_vm (hst s (hid H))"
  let ?clean = "map fst (filter (\<lambda>(br, vms). vms = []) ?m)"
  from assms(1) obtain u where u: "forM ?clean (\<lambda>br. sh E (h_ssh H) (''ip link del '' @ br_str br)) s = Some (Inr (), u)"
    "t = upd_host (hid H) (\<lambda>hs. hs\<lparr>br_vm := filter (\<lambda>(br, vms). br \<notin> set ?clean) (br_vm hs)\<rparr>) u"
    unfolding cleanup_net_def by (auto elim!: bnd_InrE)
  have "keeps hst (forM ?clean (\<lambda>br. sh E (h_ssh H) (''ip link del '' @ br_str br)))" by (intro keeps_intro)
  with u(1) have "hst u = hst s" by (auto dest: keepsD)
  moreover have "filter (\<lambda>(br, vms). br \<notin> set ?clean) ?m = filter (\<lambda>(br, vms). vms \<noteq> []) ?m"
    unfolding set_map by (rule filter_keys [OF assms(2)])
  ultimately show ?thesis using u(2) by (simp add: upd_host_def)
qed

context vhost
begin

lemma keeps_hst_ops:
  "keeps hst (so_create (h_ops H E) n)" "keeps hst (so_list_files (h_ops H E) n)"
  "keeps hst (so_clone (h_ops H E) src dst)" "keeps hst (so_exist (h_ops H E) n)"
  "keeps hst (so_snapshot (h_ops H E) n)" "keeps hst (so_destroy (h_ops H E) n)"
  "keeps hst (so_download (h_ops H E) n url)"
  by (rule emits_keeps_view, rule reqs, simp)+

lemma destroy_bridges:
  assumes "vm_destroy E H v stor s = Some (Inr (), t)" and "distinct (map fst (br_vm (hst s (hid H))))"
  shows "br_vm (hst t (hid H)) =
    filter (\<lambda>(br, vms). vms \<noteq> []) (drop_from_bridges v (br_vm (hst s (hid H))))"
proof -
  let ?front = "bnd (sh_status E (h_ssh H) (''virsh destroy '' @ vm_name v)) (\<lambda>_.
     if stor then forM (disks v) (so_destroy (h_ops H E)) else ret ())"
  let ?upd = "upd_host (hid H) (\<lambda>hs. hs\<lparr>br_vm := drop_from_bridges v (br_vm hs)\<rparr>)"
  from assms(1) obtain u where u: "?front s = Some (Inr (), u)" "cleanup_net E H (?upd u) = Some (Inr (), t)"
  proof -
    from assms(1) obtain a u1 x u where st: "sh_status E (h_ssh H) (''virsh destroy '' @ vm_name v) s = Some (Inr a, u1)"
      "(if stor then forM (disks v) (so_destroy (h_ops H E)) else ret ()) u1 = Some (Inr x, u)"
      "cleanup_net E H (?upd u) = Some (Inr (), t)"
      unfolding vm_destroy_def
      apply (elim bnd_InrE)
      subgoal premises p for a u aa ua ab ub
      proof -
        from p(4) have "ub = ?upd ua" by simp
        with p(5) have "cleanup_net E H (?upd ua) = Some (Inr (), t)" by simp
        from p(1) [OF p(2,3) this] show thesis .
      qed
      done
    then have "?front s = Some (Inr (), u)" by (intro bnd_step) simp_all
    with st(3) that show thesis by blast
  qed
  have "keeps hst ?front" by (intro keeps_intro keeps_hst_ops)
  with u(1) have "hst u = hst s" by (auto dest: keepsD)
  then have up: "br_vm (hst (?upd u) (hid H)) = drop_from_bridges v (br_vm (hst s (hid H)))" by (simp add: upd_host_def)
  have "distinct (map fst (br_vm (hst (?upd u) (hid H))))" unfolding up drop_from_bridges_keys by (rule assms(2))
  from cleanup_net_ok [OF u(2) this] show ?thesis unfolding up .
qed

end

interpretation btrfs_host: vhost E "H\<lparr>h_ssh := st_ssh st, h_ops := (\<lambda>E. btrfs_ops E st)\<rparr>" for E H st
  using btrfs.storage_backend_axioms by (simp add: vhost_def)

interpretation zfs_host: vhost E "H\<lparr>h_ssh := st_ssh st, h_ops := (\<lambda>E. zfs_ops E st)\<rparr>" for E H st
  using zfs.storage_backend_axioms by (simp add: vhost_def)

context vhost
begin

lemma keeps_shutdown_loop: "keeps outer (shutdown_loop E H v timeout stor)"
proof (rule keepsI)
  fix s :: "'y vst_scheme" and r t
  assume ret: "shutdown_loop E H v timeout stor s = Some (r, t)"
  let ?P = "\<lambda>E' H' v timeout stor s (y :: unit result \<times> 'y vst_scheme). E' = E \<longrightarrow> H' = H \<longrightarrow> outer (snd y) = outer s"
  have "?P E H v timeout stor s (r, t)"
  proof (rule shutdown_loop.raw_induct [where P = ?P, OF _ ret], intro impI)
    fix f :: "env \<Rightarrow> 'y host \<Rightarrow> vm \<Rightarrow> rat \<Rightarrow> bool \<Rightarrow> ('y, unit) vprog" and E' H' v timeout stor and s :: "'y vst_scheme" and y
    let ?body = "\<lambda>E H. bnd (sleep E 4) (\<lambda>_.
       bnd (sh_status E (h_ssh H) (''virsh list | grep -q '' @ vm_name v)) (\<lambda>err.
       if err \<noteq> Code 0 then ret () else
       bnd (now E) (\<lambda>t. if t > timeout then vm_destroy E H v stor else f E H v timeout stor)))"
    assume IH: "\<And>E H v timeout stor s y. f E H v timeout stor s = Some y \<Longrightarrow> ?P E H v timeout stor s y"
      and eqs: "E' = E" "H' = H" and eq: "?body E' H' s = Some y"
    have kf: "keeps outer (f E H v timeout stor)" by (rule keepsI) (drule IH, simp)
    define B where "B = ?body E H"
    have k: "keeps outer B" unfolding B_def by (intro keeps_intro keeps_vm_destroy kf)
    have "B s = Some (fst y, snd y)" using eq unfolding B_def eqs prod.collapse .
    from keepsD [OF k this] show "outer (snd y) = outer s" .
  qed
  then show "outer t = outer s" by simp
qed

lemma keeps_vm_shutdown: "keeps outer (vm_shutdown E H v timeout stor)"
  unfolding vm_shutdown_def by (intro keeps_intro keeps_vm_destroy keeps_shutdown_loop)

end

section \<open>Machines on a healthy host\<close>

lemma ready_vst [simp]:
  "is_ready h (upd_host i f s) = is_ready h s" "is_ready h (s\<lparr>next_vid := n\<rparr>) = is_ready h s"
  by (simp_all add: is_ready_def upd_host_def)

lemma healthy_rnd [ok_intro]:
  assumes "healthy E"
  shows "succeeds (is_ready h) (rnd_byte E i)" "n \<le> 52 \<Longrightarrow> succeeds (is_ready h) (get_rnd_name E p n)"
    "succeeds (is_ready h) (get_rnd_mac E)"
proof -
  show b: "succeeds (is_ready h) (rnd_byte E i)" for i
    by (simp add: succeeds_def rnd_byte_def random_randint_def bnd_def)
  show "succeeds (is_ready h) (get_rnd_name E p n)" if "n \<le> 52"
    using get_rnd_name_run [OF _ that] assms unfolding succeeds_def healthy_def by (metis ready_io)
  show "succeeds (is_ready h) (get_rnd_mac E)" unfolding get_rnd_mac_def by (intro ok_intro b)
qed

lemma healthy_vm [ok_intro]:
  assumes "healthy E"
  shows "succeeds (is_ready h) (add_net E br mac v)" "succeeds (is_ready (h_ssh H)) (vm_boot E H v)"
    "succeeds (is_ready (h_ssh H)) (cleanup_net E H)"
  unfolding add_net_def vm_boot_def cleanup_net_def Let_def
  by (intro ok_intro healthy_ssh_run assms; simp)+

lemma healthy_vm_new:
  assumes "healthy E" and "getitem lcfg ''name'' = Inr (PStr nm)"
    and "bindR (getdef (if truthy cfg then cfg else PDict []) ''memory'' (PInt 1024)) py_str = Inr mem"
  shows "succeeds (is_ready h) (vm_new E cfg lcfg)"
  unfolding vm_new_def assms(2,3) bindR_simps as_str.simps by (intro ok_intro assms(1)) simp_all

context vhost
begin

lemma healthy_destroy: "healthy E \<Longrightarrow> succeeds (is_ready (h_ssh H)) (vm_destroy E H v stor)"
  unfolding vm_destroy_def by (intro ok_intro succeed_ops) simp_all

end

end
