(* ===== verification/Config.thy ===== *)
theory Config
  imports Py_Strings
begin

text \<open>
  \<^verbatim>\<open>rallyci/config.py\<close>: the configuration is a YAML list of one-entry dictionaries; entries that carry a
  name are collected in a dictionary per section, the others in a list per section. The module
  cache, the instance iterators and the logging setup follow.
\<close>

datatype sect = Named "(string \<times> pyval) list" | Unnamed "pyval list"

type_synonym cfgdata = "(string \<times> sect) list"

fun section_true :: "sect \<Rightarrow> bool" where
  "section_true (Named d) = (d \<noteq> [])"
| "section_true (Unnamed vs) = (vs \<noteq> [])"

section \<open>Loading\<close>

text \<open>One iteration of the loading loop. Names that are not strings are outside the fragment.\<close>

definition add_item :: "cfgdata \<Rightarrow> pyval \<Rightarrow> cfgdata result" where
  "add_item data item =
     bindR (py_items item) (\<lambda>kvs.
       if length kvs > 1 then Inl (ValueError ''Invalid config entry'')
       else (case kvs of
           [] \<Rightarrow> Inl IndexError
         | (key, value) # _ \<Rightarrow>
             bindR (getdef value ''name'' PNone) (\<lambda>name.
               if truthy name then
                 bindR (as_str Unmodelled name) (\<lambda>nm.
                   (case (case dlookup data key of Some sec \<Rightarrow> sec | None \<Rightarrow> Named []) of
                      Named d \<Rightarrow> if dlookup d nm \<noteq> None then Inl (ValueError (''Duplicate name '' @ nm))
                                 else Inr (dset data key (Named (dset d nm value)))
                    | Unnamed vs \<Rightarrow> Inl TypeError))
               else
                 (case (case dlookup data key of Some sec \<Rightarrow> sec | None \<Rightarrow> Unnamed []) of
                    Unnamed vs \<Rightarrow> Inr (dset data key (Unnamed (vs @ [value])))
                  | Named d \<Rightarrow> Inl AttributeError))))"

fun load_items :: "cfgdata \<Rightarrow> pyval list \<Rightarrow> cfgdata result" where
  "load_items data [] = Inr data"
| "load_items data (item # items) = bindR (add_item data item) (\<lambda>data'. load_items data' items)"

definition load_config :: "pyval \<Rightarrow> cfgdata result" where
  "load_config raw = bindR (py_iter raw) (load_items [])"

section \<open>Using the data\<close>

text \<open>\<^verbatim>\<open>config.data[section][name]\<close>\<close>

definition data_item :: "cfgdata \<Rightarrow> string \<Rightarrow> string \<Rightarrow> pyval result" where
  "data_item data sec name = (case dlookup data sec of
     None \<Rightarrow> Inl (KeyError sec)
   | Some (Unnamed vs) \<Rightarrow> Inl TypeError
   | Some (Named d) \<Rightarrow> (case dlookup d name of None \<Rightarrow> Inl (KeyError name) | Some v \<Rightarrow> Inr v))"

text \<open>\<^verbatim>\<open>config.data.get(section, {}).values()\<close>\<close>

definition section_values :: "cfgdata \<Rightarrow> string \<Rightarrow> pyval list result" where
  "section_values data sec = (case dlookup data sec of
     None \<Rightarrow> Inr []
   | Some (Unnamed vs) \<Rightarrow> Inl AttributeError
   | Some (Named d) \<Rightarrow> Inr (map snd d))"

text \<open>\<^verbatim>\<open>_get_module\<close>: the import, a parameter, is made only for a name that is not in the cache.\<close>

definition get_module :: "(string \<Rightarrow> 'm result) \<Rightarrow> (string \<times> 'm) list \<Rightarrow> string \<Rightarrow> 'm result \<times> (string \<times> 'm) list" where
  "get_module import_module modules name = (case dlookup modules name of
     Some m \<Rightarrow> (Inr m, modules)
   | None \<Rightarrow> (case import_module name of
       Inl e \<Rightarrow> (Inl e, modules)
     | Inr m \<Rightarrow> (Inr m, dset modules name m)))"

text \<open>
  The generators \<^verbatim>\<open>iter_instances\<close> and \<^verbatim>\<open>iter_providers\<close>: what was yielded before the end or the first
  exception, the exception, and the module cache. \<open>mk\<close> is the constructor call on the module.
\<close>

fun yield_instances :: "(string \<Rightarrow> 'm result) \<Rightarrow> ('m \<Rightarrow> pyval \<Rightarrow> 'o result) \<Rightarrow> (string \<times> 'm) list \<Rightarrow> pyval list
    \<Rightarrow> 'o list \<times> exn option \<times> (string \<times> 'm) list" where
  "yield_instances imp mk modules [] = ([], None, modules)"
| "yield_instances imp mk modules (cfg # cfgs) =
     (case bindR (getitem cfg ''module'') (as_str TypeError) of
        Inl e \<Rightarrow> ([], Some e, modules)
      | Inr name \<Rightarrow> (case get_module imp modules name of
          (Inl e, modules') \<Rightarrow> ([], Some e, modules')
        | (Inr m, modules') \<Rightarrow> (case mk m cfg of
            Inl e \<Rightarrow> ([], Some e, modules')
          | Inr ob \<Rightarrow> (case yield_instances imp mk modules' cfgs of
              (obs, e, modules'') \<Rightarrow> (ob # obs, e, modules'')))))"

definition iter_instances :: "(string \<Rightarrow> 'm result) \<Rightarrow> ('m \<Rightarrow> pyval \<Rightarrow> 'o result) \<Rightarrow> (string \<times> 'm) list
    \<Rightarrow> cfgdata \<Rightarrow> string \<Rightarrow> 'o list \<times> exn option \<times> (string \<times> 'm) list" where
  "iter_instances imp mk modules data sec = (case section_values data sec of
     Inl e \<Rightarrow> ([], Some e, modules)
   | Inr cfgs \<Rightarrow> yield_instances imp mk modules cfgs)"

section \<open>Logging\<close>

record args =
  quiet :: bool
  verbose :: bool

record logging =
  console_level :: string
  file_handlers :: "(string \<times> (string \<times> pyval)) list"  \<comment> \<open>level and file name by handler\<close>
  root_handlers :: "string list"

definition upper_level :: "string \<Rightarrow> string" where
  "upper_level k = (if k = ''debug'' then ''DEBUG'' else if k = ''error'' then ''ERROR'' else ''INFO'')"

fun add_log_files :: "logging \<Rightarrow> (string \<times> pyval) list \<Rightarrow> logging result" where
  "add_log_files L [] = Inr L"
| "add_log_files L ((k, v) # kvs) =
     (if k \<in> {''debug'', ''error'', ''info''} then
        add_log_files (L\<lparr>file_handlers := dset (file_handlers L) k (upper_level k, v),
                         root_handlers := root_handlers L @ [k]\<rparr>) kvs
      else Inl (ValueError ''Unknown logging level''))"

definition configure_logging :: "args \<Rightarrow> cfgdata \<Rightarrow> logging result" where
  "configure_logging a data =
     (let L = \<lparr>console_level = ''INFO'', file_handlers = [], root_handlers = [''console'']\<rparr>;
          L = (if quiet a then L\<lparr>root_handlers := remove1 ''console'' (root_handlers L)\<rparr>
               else if verbose a then L\<lparr>console_level := ''DEBUG''\<rparr> else L)
      in (case dlookup data ''logging'' of
            None \<Rightarrow> Inr L
          | Some sec \<Rightarrow>
              if \<not> section_true sec then Inr L
              else (case sec of
                  Named d \<Rightarrow> Inl (KeyError ''0'')
                | Unnamed vs \<Rightarrow> bindR (py_items (hd vs)) (add_log_files L))))"

section \<open>What a loaded configuration holds\<close>

definition named_entry :: "pyval \<Rightarrow> string \<Rightarrow> string \<Rightarrow> pyval \<Rightarrow> bool" where
  "named_entry item k n v \<longleftrightarrow> item = PDict [(k, v)] \<and> getdef v ''name'' PNone = Inr (PStr n) \<and> n \<noteq> []"

definition unnamed_entry :: "pyval \<Rightarrow> string \<Rightarrow> pyval \<Rightarrow> bool" where
  "unnamed_entry item k v \<longleftrightarrow> item = PDict [(k, v)] \<and> (\<exists>nm. getdef v ''name'' PNone = Inr nm \<and> \<not> truthy nm)"

lemma as_str_Inr_iff [simp]: "as_str e v = Inr s \<longleftrightarrow> v = PStr s"
  by (cases v) auto

lemma add_item_InrE:
  assumes "add_item data item = Inr data'"
  obtains (named) k n v d where "named_entry item k n v"
      "dlookup data k = Some (Named d) \<or> dlookup data k = None \<and> d = []"
      "dlookup d n = None" "data' = dset data k (Named (dset d n v))"
    | (unnamed) k v vs where "unnamed_entry item k v"
      "dlookup data k = Some (Unnamed vs) \<or> dlookup data k = None \<and> vs = []"
      "data' = dset data k (Unnamed (vs @ [v]))"
proof -
  obtain kvs where item: "item = PDict kvs" and kv1: "length kvs \<le> 1" "kvs \<noteq> []"
    using assms by (cases item) (auto simp: add_item_def split: if_splits list.splits)
  then obtain k v where kv: "item = PDict [(k, v)]" by (cases kvs) auto
  obtain nm where nm: "getdef v ''name'' PNone = Inr nm"
    using assms kv by (auto simp: add_item_def bindR_Inr_iff)
  show thesis
  proof (cases "truthy nm")
    case True
    have "\<exists>n. as_str Unmodelled nm = Inr n"
    proof (rule ccontr)
      assume "\<nexists>n. as_str Unmodelled nm = Inr n"
      then obtain e where "as_str Unmodelled nm = Inl e" by (meson sum.exhaust)
      with assms kv nm True show False by (simp add: add_item_def)
    qed
    then obtain n where nm_str: "nm = PStr n" by (metis as_str_Inr_iff)
    with True have n: "nm = PStr n" "n \<noteq> []" by simp_all
    let ?sec = "case dlookup data k of Some sec \<Rightarrow> sec | None \<Rightarrow> Named []"
    have eq: "(case ?sec of
        Named d \<Rightarrow> if dlookup d n \<noteq> None then Inl (ValueError (''Duplicate name '' @ n))
                   else Inr (dset data k (Named (dset d n v)))
      | Unnamed vs \<Rightarrow> Inl TypeError) = Inr data'"
      using assms kv nm n by (simp add: add_item_def)
    then obtain d where d: "?sec = Named d" by (cases ?sec) auto
    show thesis
    proof (rule named)
      show "named_entry item k n v" using kv nm n by (simp add: named_entry_def)
      show "dlookup data k = Some (Named d) \<or> dlookup data k = None \<and> d = []"
        using d by (cases "dlookup data k") auto
      show "dlookup d n = None" "data' = dset data k (Named (dset d n v))"
        using eq d by (auto split: if_splits)
    qed
  next
    case False
    let ?sec = "case dlookup data k of Some sec \<Rightarrow> sec | None \<Rightarrow> Unnamed []"
    have eq: "(case ?sec of
        Unnamed vs \<Rightarrow> Inr (dset data k (Unnamed (vs @ [v])))
      | Named d \<Rightarrow> Inl AttributeError) = Inr data'"
      using assms kv nm False by (simp add: add_item_def)
    then obtain vs where vs: "?sec = Unnamed vs" by (cases ?sec) auto
    show thesis
    proof (rule unnamed)
      show "unnamed_entry item k v" using kv nm False by (simp add: unnamed_entry_def)
      show "dlookup data k = Some (Unnamed vs) \<or> dlookup data k = None \<and> vs = []"
        using vs by (cases "dlookup data k") auto
      show "data' = dset data k (Unnamed (vs @ [v]))" using eq vs by simp
    qed
  qed
qed

lemma data_item_Inr_iff:
  "data_item data k n = Inr v \<longleftrightarrow> (\<exists>d. dlookup data k = Some (Named d) \<and> dlookup d n = Some v)"
  by (auto simp: data_item_def split: option.splits sect.splits)

lemma named_entry_unique: "named_entry item k n v \<Longrightarrow> named_entry item k' n' v' \<Longrightarrow> k' = k \<and> n' = n \<and> v' = v"
  by (auto simp: named_entry_def)

lemma named_unnamed: "named_entry item k n v \<Longrightarrow> \<not> unnamed_entry item k' v'"
  by (auto simp: named_entry_def unnamed_entry_def)

lemma add_item_data_item:
  assumes "add_item data item = Inr data'"
  shows "data_item data' k n = Inr v \<longleftrightarrow> data_item data k n = Inr v \<or> named_entry item k n v"
  using assms
proof (cases rule: add_item_InrE)
  case (named k' n' v' d)
  have "named_entry item k n v \<longleftrightarrow> k = k' \<and> n = n' \<and> v = v'"
    using named(1) named_entry_unique by blast
  with named(2-4) show ?thesis by (auto simp: data_item_Inr_iff)
next
  case (unnamed k' v' vs)
  have "\<not> named_entry item k n v" using unnamed(1) named_unnamed by blast
  with unnamed(2,3) show ?thesis by (auto simp: data_item_Inr_iff)
qed

lemma load_items_data_item:
  "load_items data0 items = Inr data \<Longrightarrow>
     data_item data k n = Inr v \<longleftrightarrow> data_item data0 k n = Inr v \<or> (\<exists>item \<in> set items. named_entry item k n v)"
proof (induction items arbitrary: data0)
  case (Cons item items)
  then obtain data1 where "add_item data0 item = Inr data1" "load_items data1 items = Inr data"
    by (auto simp: bindR_Inr_iff)
  with Cons.IH [of data1] show ?case by (auto simp: add_item_data_item)
qed simp

lemma add_item_duplicate:
  assumes "named_entry item k n w" and "data_item data k n = Inr v"
  shows "add_item data item = Inl (ValueError (''Duplicate name '' @ n))"
  using assms by (auto simp: add_item_def named_entry_def data_item_Inr_iff)

lemma load_items_append:
  "load_items data (xs @ ys) = bindR (load_items data xs) (\<lambda>data'. load_items data' ys)"
  by (induction xs arbitrary: data) (auto simp: bindR_def split: sum.splits)

lemma load_items_duplicate:
  assumes "i \<in> set xs" "named_entry i k n v" "named_entry j k n w"
  shows "\<exists>e. load_items data0 (xs @ j # ys) = Inl e"
proof (cases "load_items data0 xs")
  case (Inr data)
  then have "data_item data k n = Inr v" using assms(1,2) by (auto simp: load_items_data_item)
  with assms(3) Inr show ?thesis by (simp add: load_items_append add_item_duplicate)
qed (simp add: load_items_append)

section \<open>Module cache and logging\<close>

lemma get_module_cached:
  assumes "get_module imp ms name = (Inr m, ms')"
  shows "get_module imp' ms' name = (Inr m, ms')"
  using assms by (auto simp: get_module_def split: option.splits sum.splits)

lemma add_log_files_Inr_iff:
  "(\<exists>L'. add_log_files L kvs = Inr L') \<longleftrightarrow> (\<forall>(k, v) \<in> set kvs. k \<in> {''debug'', ''error'', ''info''})"
proof (induction L kvs rule: add_log_files.induct)
  case (2 L k v kvs)
  then show ?case by (cases "k \<in> {''debug'', ''error'', ''info''}") simp_all
qed simp

lemma add_log_files_handlers:
  "add_log_files L kvs = Inr L' \<Longrightarrow> root_handlers L' = root_handlers L @ map fst kvs \<and> console_level L' = console_level L"
  by (induction L kvs rule: add_log_files.induct) (auto split: if_splits)

section \<open>The document behind a configuration\<close>

text \<open>The specification: a document is valid when each of its items is an entry and no two items clash, and a section holds the
  values of its items in the order of the document.\<close>

definition is_entry :: "pyval \<Rightarrow> bool" where
  "is_entry item \<longleftrightarrow> (\<exists>k n v. named_entry item k n v) \<or> (\<exists>k v. unnamed_entry item k v)"

definition no_clash :: "pyval \<Rightarrow> pyval \<Rightarrow> bool" where
  "no_clash i j \<longleftrightarrow> (\<forall>k n v. named_entry i k n v \<longrightarrow> (\<forall>w. \<not> named_entry j k n w \<and> \<not> unnamed_entry j k w)) \<and>
     (\<forall>k v. unnamed_entry i k v \<longrightarrow> (\<forall>n w. \<not> named_entry j k n w))"

definition valid_document :: "pyval list \<Rightarrow> bool" where
  "valid_document items \<longleftrightarrow> (\<forall>item \<in> set items. is_entry item) \<and> sorted_wrt no_clash items"

fun entries :: "string \<Rightarrow> pyval list \<Rightarrow> pyval list" where
  "entries k [] = []"
| "entries k (PDict [(k', v)] # items) = (if k' = k then v # entries k items else entries k items)"
| "entries k (item # items) = entries k items"

text \<open>The abstraction: what a section holds, in order, whether its entries are named or not.\<close>

fun sect_values :: "sect option \<Rightarrow> pyval list" where
  "sect_values None = []"
| "sect_values (Some (Named d)) = map snd d"
| "sect_values (Some (Unnamed vs)) = vs"

text \<open>The shape of loaded data: distinct sections, none of them empty; a named section has distinct names and every value in it
  carries its name, an unnamed section holds dictionaries without a name.\<close>

fun sect_typed :: "sect \<Rightarrow> bool" where
  "sect_typed (Named d) \<longleftrightarrow> d \<noteq> [] \<and> distinct (map fst d) \<and> (\<forall>(n, v) \<in> set d. n \<noteq> [] \<and> getdef v ''name'' PNone = Inr (PStr n))"
| "sect_typed (Unnamed vs) \<longleftrightarrow> vs \<noteq> [] \<and> (\<forall>v \<in> set vs. case getdef v ''name'' PNone of Inl e \<Rightarrow> False | Inr nm \<Rightarrow> \<not> truthy nm)"

definition data_typed :: "cfgdata \<Rightarrow> bool" where
  "data_typed data \<longleftrightarrow> distinct (map fst data) \<and> (\<forall>(k, sec) \<in> set data. sect_typed sec)"

text \<open>The items a configuration can still take.\<close>

definition fits :: "cfgdata \<Rightarrow> pyval \<Rightarrow> bool" where
  "fits data item \<longleftrightarrow>
     (\<forall>k n v. named_entry item k n v \<longrightarrow> dlookup data k = None \<or> (\<exists>d. dlookup data k = Some (Named d) \<and> dlookup d n = None)) \<and>
     (\<forall>k v. unnamed_entry item k v \<longrightarrow> dlookup data k = None \<or> (\<exists>vs. dlookup data k = Some (Unnamed vs)))"

lemma dset_fresh: "dlookup d k = None \<Longrightarrow> dset d k v = d @ [(k, v)]"
  by (induction d k v rule: dset.induct) (auto split: if_splits)

lemma set_dset: "distinct (map fst d) \<Longrightarrow> set (dset d k v) = insert (k, v) {(k', w) \<in> set d. k' \<noteq> k}"
  by (induction d k v rule: dset.induct) (auto simp: rev_image_eqI)

lemma entry_fun:
  "named_entry item k n v \<Longrightarrow> named_entry item k' n' v' \<longleftrightarrow> k' = k \<and> n' = n \<and> v' = v"
  "unnamed_entry item k v \<Longrightarrow> unnamed_entry item k' v' \<longleftrightarrow> k' = k \<and> v' = v"
  "named_entry item k n v \<Longrightarrow> \<not> unnamed_entry item k' v'"
  "unnamed_entry item k v \<Longrightarrow> \<not> named_entry item k' n' v'"
  by (auto simp: named_entry_def unnamed_entry_def)

lemma entries_Cons [simp]:
  "named_entry item k n v \<Longrightarrow> entries k' (item # items) = (if k = k' then v # entries k' items else entries k' items)"
  "unnamed_entry item k v \<Longrightarrow> entries k' (item # items) = (if k = k' then v # entries k' items else entries k' items)"
  by (auto simp: named_entry_def unnamed_entry_def)

lemma fits_named:
  assumes "named_entry item k n v"
  shows "fits data item \<longleftrightarrow> dlookup data k = None \<or> (\<exists>d. dlookup data k = Some (Named d) \<and> dlookup d n = None)"
  by (simp add: fits_def entry_fun(1) [OF assms] entry_fun(3) [OF assms])

lemma fits_unnamed:
  assumes "unnamed_entry item k v"
  shows "fits data item \<longleftrightarrow> dlookup data k = None \<or> (\<exists>vs. dlookup data k = Some (Unnamed vs))"
  by (simp add: fits_def entry_fun(2) [OF assms] entry_fun(4) [OF assms])

lemma no_clash_named:
  assumes "named_entry i k n v"
  shows "no_clash i j \<longleftrightarrow> (\<forall>w. \<not> named_entry j k n w \<and> \<not> unnamed_entry j k w)"
  by (simp add: no_clash_def entry_fun(1) [OF assms] entry_fun(3) [OF assms])

lemma no_clash_unnamed:
  assumes "unnamed_entry i k v"
  shows "no_clash i j \<longleftrightarrow> (\<forall>n w. \<not> named_entry j k n w)"
  by (simp add: no_clash_def entry_fun(2) [OF assms] entry_fun(4) [OF assms])

lemma fits_other: "\<not> is_entry item \<Longrightarrow> fits data item"
  unfolding fits_def is_entry_def by blast

lemma entry_cases:
  obtains (named) k n v where "named_entry item k n v" | (unnamed) k v where "unnamed_entry item k v" | (other) "\<not> is_entry item"
  unfolding is_entry_def by blast

lemma add_item_ok_iff: "(\<exists>data'. add_item data item = Inr data') \<longleftrightarrow> is_entry item \<and> fits data item"
proof
  assume "\<exists>data'. add_item data item = Inr data'"
  then obtain data' where "add_item data item = Inr data'" by blast
  then show "is_entry item \<and> fits data item"
  proof (cases rule: add_item_InrE)
    case (named k n v d)
    then show ?thesis using fits_named [OF named(1), of data] by (auto simp: is_entry_def)
  next
    case (unnamed k v vs)
    then show ?thesis using fits_unnamed [OF unnamed(1), of data] by (auto simp: is_entry_def)
  qed
next
  assume ok: "is_entry item \<and> fits data item"
  then consider (named) k n v where "named_entry item k n v" | (unnamed) k v where "unnamed_entry item k v"
    unfolding is_entry_def by blast
  then show "\<exists>data'. add_item data item = Inr data'"
  proof cases
    case named
    with ok have "dlookup data k = None \<or> (\<exists>d. dlookup data k = Some (Named d) \<and> dlookup d n = None)" using fits_named by blast
    with named show ?thesis by (auto simp: add_item_def named_entry_def)
  next
    case unnamed
    with ok have "dlookup data k = None \<or> (\<exists>vs. dlookup data k = Some (Unnamed vs))" using fits_unnamed by blast
    with unnamed show ?thesis by (auto simp: add_item_def unnamed_entry_def)
  qed
qed

lemma no_clash_other: "\<not> is_entry j \<Longrightarrow> no_clash i j"
  unfolding no_clash_def is_entry_def by blast

lemma add_item_fits:
  assumes "add_item data item = Inr data'"
  shows "fits data' j \<longleftrightarrow> fits data j \<and> no_clash item j"
  using assms
proof (cases rule: add_item_InrE)
  case (named k n v d)
  show ?thesis
  proof (cases j rule: entry_cases)
    case j: (named k' n' v')
    have "no_clash item j \<longleftrightarrow> \<not> (k' = k \<and> n' = n)" unfolding no_clash_named [OF named(1)] using entry_fun(1,3) [OF j] by auto
    with named(2-4) show ?thesis unfolding fits_named [OF j] by auto
  next
    case j: (unnamed k' v')
    have "no_clash item j \<longleftrightarrow> k' \<noteq> k" unfolding no_clash_named [OF named(1)] using entry_fun(2,4) [OF j] by auto
    with named(2-4) show ?thesis unfolding fits_unnamed [OF j] by auto
  qed (simp add: fits_other no_clash_other)
next
  case (unnamed k v vs)
  show ?thesis
  proof (cases j rule: entry_cases)
    case j: (named k' n' v')
    have "no_clash item j \<longleftrightarrow> k' \<noteq> k" unfolding no_clash_unnamed [OF unnamed(1)] using entry_fun(1) [OF j] by auto
    with unnamed(2,3) show ?thesis unfolding fits_named [OF j] by auto
  next
    case j: (unnamed k' v')
    have "no_clash item j" unfolding no_clash_unnamed [OF unnamed(1)] using entry_fun(4) [OF j] by auto
    with unnamed(2,3) show ?thesis unfolding fits_unnamed [OF j] by auto
  qed (simp add: fits_other no_clash_other)
qed

lemma add_item_values:
  assumes "add_item data item = Inr data'"
  shows "sect_values (dlookup data' k) = sect_values (dlookup data k) @ entries k [item]"
  using assms by (cases rule: add_item_InrE) (auto simp: dset_fresh)

lemma data_typed_section: "data_typed data \<Longrightarrow> dlookup data k = Some sec \<Longrightarrow> sect_typed sec"
  unfolding data_typed_def dlookup_map_of by (blast dest: map_of_SomeD)

lemma add_item_typed:
  assumes "add_item data item = Inr data'" and "data_typed data"
  shows "data_typed data'"
  using assms(1)
proof (cases rule: add_item_InrE)
  case (named k n v d)
  have "d = [] \<or> sect_typed (Named d)" using named(2) data_typed_section [OF assms(2)] by blast
  then have "distinct (map fst d) \<and> (\<forall>(n, v) \<in> set d. n \<noteq> [] \<and> getdef v ''name'' PNone = Inr (PStr n))" by auto
  then have "sect_typed (Named (dset d n v))"
    using named(1,3) by (auto simp: dset_fresh named_entry_def dlookup_None_iff dkeys_def)
  then show ?thesis using assms(2) named(4) by (auto simp: data_typed_def set_dset)
next
  case (unnamed k v vs)
  have "vs = [] \<or> sect_typed (Unnamed vs)" using unnamed(2) data_typed_section [OF assms(2)] by blast
  then have "sect_typed (Unnamed (vs @ [v]))" using unnamed(1) by (auto simp: unnamed_entry_def)
  then show ?thesis using assms(2) unnamed(3) by (auto simp: data_typed_def set_dset)
qed

lemma load_items_ok_iff:
  "(\<exists>data'. load_items data items = Inr data') \<longleftrightarrow> valid_document items \<and> (\<forall>item \<in> set items. fits data item)"
proof (induction items arbitrary: data)
  case (Cons item items)
  show ?case
  proof (cases "add_item data item")
    case (Inl e)
    then have "\<not> (is_entry item \<and> fits data item)" using add_item_ok_iff [of data item] by simp
    with Inl show ?thesis by (auto simp: valid_document_def)
  next
    case (Inr data1)
    then have "is_entry item" "fits data item" using add_item_ok_iff [of data item] by auto
    with Inr show ?thesis by (auto simp: Cons.IH add_item_fits [OF Inr] valid_document_def)
  qed
qed (simp add: valid_document_def)

lemma load_items_typed: "load_items data items = Inr data' \<Longrightarrow> data_typed data \<Longrightarrow> data_typed data'"
  by (induction items arbitrary: data) (auto simp: bindR_Inr_iff dest: add_item_typed)

lemma entries_append: "entries k (xs @ ys) = entries k xs @ entries k ys"
  by (induction k xs rule: entries.induct) auto

lemma load_items_values:
  "load_items data items = Inr data' \<Longrightarrow> sect_values (dlookup data' k) = sect_values (dlookup data k) @ entries k items"
proof (induction items arbitrary: data)
  case (Cons item items)
  then obtain data1 where one: "add_item data item = Inr data1" and rest: "load_items data1 items = Inr data'"
    by (auto simp: bindR_Inr_iff)
  show ?case using Cons.IH [OF rest] add_item_values [OF one] entries_append [of k "[item]" items] by simp
qed simp



definition demo_document :: "pyval list" where
  "demo_document =
     [PDict [(''job'', PDict [(''name'', PStr ''unit'')])], PDict [(''logging'', PDict [(''debug'', PStr ''log'')])],
      PDict [(''job'', PDict [(''name'', PStr ''lint'')])]]"

definition demo_loaded :: cfgdata where
  "demo_loaded =
     [(''job'', Named [(''unit'', PDict [(''name'', PStr ''unit'')]), (''lint'', PDict [(''name'', PStr ''lint'')])]),
      (''logging'', Unnamed [PDict [(''debug'', PStr ''log'')]])]"

lemma load_demo: "load_config (PList demo_document) = Inr demo_loaded"
  by (simp add: load_config_def demo_document_def demo_loaded_def add_item_def)


text \<open>C30: whatever the document is, loaded data are well formed: the sections are distinct and not empty, the names of a section are
  distinct and every value carries the name it is found under, and entries without a name are dictionaries that have none.\<close>

theorem load_config_typed:
  assumes "load_config raw = Inr data"
  shows "data_typed data"
proof -
  obtain items where "load_items [] items = Inr data" using assms by (auto simp: load_config_def bindR_Inr_iff)
  then show ?thesis by (rule load_items_typed) (simp add: data_typed_def)
qed

theorem load_config_typed_witness: "data_typed demo_loaded"
  by (rule load_config_typed [OF load_demo])

section \<open>Instances without the cache\<close>

fun instances_ref :: "(string \<Rightarrow> 'm result) \<Rightarrow> ('m \<Rightarrow> pyval \<Rightarrow> 'o result) \<Rightarrow> pyval list \<Rightarrow> 'o list \<times> exn option" where
  "instances_ref imp mk [] = ([], None)"
| "instances_ref imp mk (cfg # cfgs) =
     (case bindR (bindR (getitem cfg ''module'') (as_str TypeError)) (\<lambda>name. bindR (imp name) (\<lambda>m. mk m cfg)) of
        Inl e \<Rightarrow> ([], Some e)
      | Inr ob \<Rightarrow> (case instances_ref imp mk cfgs of (obs, e) \<Rightarrow> (ob # obs, e)))"

definition coherent :: "(string \<Rightarrow> 'm result) \<Rightarrow> (string \<times> 'm) list \<Rightarrow> bool" where
  "coherent imp ms \<longleftrightarrow> (\<forall>n m. dlookup ms n = Some m \<longrightarrow> imp n = Inr m)"

lemma get_module_coherent:
  assumes "coherent imp ms" and "get_module imp ms name = (r, ms')"
  shows "r = imp name \<and> coherent imp ms'"
  using assms by (auto simp: get_module_def coherent_def split: option.splits sum.splits if_splits)

lemma yield_instances_ref:
  assumes "coherent imp ms" and "yield_instances imp mk ms cfgs = (obs, e, ms')"
  shows "(obs, e) = instances_ref imp mk cfgs \<and> coherent imp ms'"
  using assms
proof (induction cfgs arbitrary: ms obs e ms')
  case (Cons cfg cfgs)
  show ?case
  proof (cases "bindR (getitem cfg ''module'') (as_str TypeError)")
    case (Inr name)
    obtain r ms1 where gm: "get_module imp ms name = (r, ms1)" by (meson surj_pair)
    with get_module_coherent Cons.prems(1) have r: "r = imp name" and ms1: "coherent imp ms1" by blast+
    show ?thesis
    proof (cases "bindR r (\<lambda>m. mk m cfg)")
      case (Inr ob)
      then obtain m where m: "r = Inr m" "mk m cfg = Inr ob" by (auto simp: bindR_Inr_iff)
      obtain obs1 e1 ms2 where y: "yield_instances imp mk ms1 cfgs = (obs1, e1, ms2)" by (metis surj_pair)
      from Cons.IH [OF ms1 y] have "(obs1, e1) = instances_ref imp mk cfgs" "coherent imp ms2" by blast+
      then show ?thesis using Cons.prems(2) \<open>bindR _ _ = Inr name\<close> gm m y r by (auto split: prod.splits)
    qed (use Cons.prems \<open>bindR _ _ = Inr name\<close> gm r ms1 in \<open>auto split: sum.splits\<close>)
  qed (use Cons.prems in auto)
qed simp


definition demo_services :: cfgdata where
  "demo_services = [(''service'', Named [(''a'', PDict [(''module'', PStr ''gerrit'')]), (''b'', PDict [(''module'', PStr ''gerrit'')])])]"


end
