(* ===== verification/Host.thy ===== *)
theory Host
  imports Vm Config
begin

text \<open>
  The classes \<^verbatim>\<open>Host\<close> and \<^verbatim>\<open>Provider\<close> of \<^verbatim>\<open>rallyci/providers/virsh.py\<close>. Each coroutine is modelled as it runs when
  no other coroutine changes the tables of the same host in between. A lock of \<^verbatim>\<open>image_locks\<close> that the
  caller already holds is never released to it: \<open>held\<close> is the set of image locks held up the chain
  of calls of \<^verbatim>\<open>build_image\<close>.
\<close>

section \<open>Host statistics\<close>

definition re_d :: string where
  "re_d = [CHR 0x5C] @ ''d''"

definition RE_LA :: string where
  "RE_LA = ''.*load average: ('' @ re_d @ ''+'' @ [CHR 0x5C] @ ''.'' @ re_d @ ''+),.*''"

definition RE_MEM :: string where
  "RE_MEM = ''.*Mem: +'' @ re_d @ ''+ +'' @ re_d @ ''+ +('' @ re_d @ ''+) +'' @ re_d @ ''+ +'' @ re_d @ ''+ +('' @ re_d @ ''+).*''"

definition IFACE_RE :: string where
  "IFACE_RE = re_d @ ''+: ([a-z]+)('' @ re_d @ ''+): .*''"

text \<open>\<^verbatim>\<open>float(s)\<close> for digits, a point and digits.\<close>

definition dec_val :: "string \<Rightarrow> rat" where
  "dec_val w = (case split_on (CHR ''.'') w of
     [a, b] \<Rightarrow> of_nat (nat_of_digits a) + of_nat (nat_of_digits b) / 10 ^ length b
   | _ \<Rightarrow> of_nat (nat_of_digits w))"

text \<open>The flag \<^verbatim>\<open>re.MULTILINE\<close>, whose value is 8, is passed where the method takes a start position.\<close>

definition parse_stats :: "string \<Rightarrow> (rat \<times> int) result" where
  "parse_stats data =
     bindR (re_search_pos RE_LA data 8) (\<lambda>m.
     case m of
       None \<Rightarrow> Inl AttributeError
     | Some gs \<Rightarrow>
         bindR (re_search_pos RE_MEM data 8) (\<lambda>m'.
         case m' of
           None \<Rightarrow> Inl AttributeError
         | Some gs' \<Rightarrow> Inr (dec_val (hd gs), int (sum_list (map nat_of_digits gs')))))"

definition update_stats :: "env \<Rightarrow> 'y host \<Rightarrow> ('y, unit) vprog" where
  "update_stats E H =
     bnd (sh_output E (h_ssh H) ''uptime && free -m'') (\<lambda>data.
     bnd (liftR (parse_stats data)) (\<lambda>(l, f).
     modify (upd_host (hid H) (\<lambda>hs. hs\<lparr>la := l, free := f\<rparr>))))"

section \<open>Images\<close>

definition boot_image :: "env \<Rightarrow> 'y host \<Rightarrow> string \<Rightarrow> ('y, vm) vprog" where
  "boot_image E H name =
     bnd (liftR (bindR (getitem (h_cfg H) ''images'') (\<lambda>im. getitem im name))) (\<lambda>conf.
     bnd (vm_new E conf (PDict [(''name'', PStr name)])) (\<lambda>v.
     bnd (so_list_files (h_ops H E) name) (\<lambda>fs.
     bnd (liftR (bindR (getdef conf ''build-net'' (PStr ''virbr0'')) (as_str Unmodelled))) (\<lambda>net.
     bnd (add_net E net None (fold add_disk fs (v\<lparr>disks := disks v @ [name]\<rparr>))) (\<lambda>v.
     bnd (vm_boot E H v) (\<lambda>_. ret v))))))"

definition run_build_scripts :: "env \<Rightarrow> 'y host \<Rightarrow> cfgdata \<Rightarrow> string \<Rightarrow> pyval \<Rightarrow> ('y, unit) vprog" where
  "run_build_scripts E H data name conf =
     bnd (liftR (getdef conf ''build-scripts'' PNone)) (\<lambda>scripts.
     if \<not> truthy scripts then ret () else
     bnd (boot_image E H name) (\<lambda>v.
     catch
       (bnd (liftR (py_iter scripts)) (\<lambda>ss.
        bnd (forM ss (\<lambda>sc.
          bnd (liftR (bindR (as_str TypeError sc) (data_item data ''script''))) (\<lambda>script.
          bnd (run_script E H v script [] True no_cb) (\<lambda>_. ret ())))) (\<lambda>_.
        vm_shutdown E H v 30 False)))
       (\<lambda>e. bnd (vm_destroy E H v True) (\<lambda>_. raise e))))"

definition opt_field :: "pyval \<Rightarrow> string \<Rightarrow> string option result" where
  "opt_field conf k = bindR (getdef conf k PNone) opt_str"

text \<open>The part of \<^verbatim>\<open>build_image\<close> that creates the volume; \<open>True\<close> when the method returns right after it.\<close>

definition download_image :: "env \<Rightarrow> 'y host \<Rightarrow> string \<Rightarrow> pyval \<Rightarrow> ('y, bool) vprog" where
  "download_image E H name conf =
     bnd (liftR (opt_field conf ''url'')) (\<lambda>url.
     case url of
       None \<Rightarrow> ret False
     | Some u \<Rightarrow> bnd (so_download (h_ops H E) name u) (\<lambda>_. bnd (so_snapshot (h_ops H E) name) (\<lambda>_. ret True)))"

partial_function (option) build_image :: "env \<Rightarrow> 'y host \<Rightarrow> cfgdata \<Rightarrow> string set \<Rightarrow> string \<Rightarrow> ('y, unit) vprog" where
  "build_image E H data held name s =
     (if name \<in> held then block else
      bnd (so_exist (h_ops H E) name) (\<lambda>ex. if ex then ret () else
      bnd (liftR (bindR (getitem (h_cfg H) ''images'') (\<lambda>im. getitem im name))) (\<lambda>conf.
      bnd (liftR (opt_field conf ''parent'')) (\<lambda>parent.
      bnd (case parent of
             None \<Rightarrow> download_image E H name conf
           | Some p \<Rightarrow> bnd (build_image E H data (insert name held) p) (\<lambda>_.
                        bnd (so_clone (h_ops H E) p name) (\<lambda>_. ret False))) (\<lambda>built.
      if built then ret () else
      bnd (run_build_scripts E H data name conf) (\<lambda>_.
      bnd (sleep E 4) (\<lambda>_.
      so_snapshot (h_ops H E) name))))))) s"

section \<open>Bridges\<close>

definition used_nums :: "string \<Rightarrow> string \<Rightarrow> nat list result" where
  "used_nums pfx data =
     bindR (mapR (re_match IFACE_RE) (splitlines data)) (\<lambda>ms.
     Inr (remdups (concat (map (\<lambda>m. case m of
        Some [g1, g2] \<Rightarrow> if g1 = pfx then [nat_of_digits g2] else []
      | _ \<Rightarrow> []) ms))))"

definition free_num :: "nat list \<Rightarrow> nat option" where
  "free_num nums = List.find (\<lambda>i. i \<notin> set nums) [0..<length nums + 1]"

definition get_bridge :: "env \<Rightarrow> 'y host \<Rightarrow> string \<Rightarrow> ('y, string) vprog" where
  "get_bridge E H pfx =
     bnd (sh_output E (h_ssh H) ''ip link list'') (\<lambda>data.
     bnd (liftR (used_nums pfx data)) (\<lambda>nums.
     case free_num nums of
       None \<Rightarrow> raise UnboundLocalError
     | Some i \<Rightarrow>
         bnd (sh E (h_ssh H) (''ip link add '' @ (pfx @ nat_str i) @ '' type bridge'')) (\<lambda>_.
         bnd (sh E (h_ssh H) (''ip link set '' @ (pfx @ nat_str i) @ '' up'')) (\<lambda>_.
         ret (pfx @ nat_str i)))))"

text \<open>
  The loop of \<^verbatim>\<open>get_vms\<close> over the networks of one VM: \<open>ifs\<close> maps the dynamic names seen in this call to
  their bridges, \<open>br\<close> is the last dynamic bridge of this VM.
\<close>

fun resolve_nets :: "env \<Rightarrow> 'y host \<Rightarrow> pyval list \<Rightarrow> (string \<times> string) list \<Rightarrow> string option
    \<Rightarrow> ('y, (string \<times> string) list \<times> string option \<times> string list) vprog" where
  "resolve_nets E H [] ifs br = ret (ifs, br, [])"
| "resolve_nets E H (net # nets) ifs br =
     bnd (liftR (as_str AttributeError net)) (\<lambda>w.
     let ifname = split_on (CHR '' '') w; nm = hd ifname in
     if endswith nm ''%'' then
       bnd (case dlookup ifs nm of Some b \<Rightarrow> ret b | None \<Rightarrow> get_bridge E H (butlast nm)) (\<lambda>b.
       bnd (resolve_nets E H nets (dset ifs nm b) (Some b)) (\<lambda>(ifs', br', rest).
       ret (ifs', br', join '' '' (b # tl ifname) # rest)))
     else
       bnd (resolve_nets E H nets ifs br) (\<lambda>(ifs', br', rest).
       ret (ifs', br', join '' '' ifname # rest)))"

section \<open>Virtual machines\<close>

definition add_net_spec :: "env \<Rightarrow> pyval \<Rightarrow> vm \<Rightarrow> ('y, vm) vprog" where
  "add_net_spec E net v =
     bnd (liftR (as_str AttributeError net)) (\<lambda>w.
     case split_on (CHR '' '') w of
       [b] \<Rightarrow> add_net E b None v
     | b # m # _ \<Rightarrow> add_net E b (Some m) v
     | [] \<Rightarrow> raise IndexError)"

fun add_nets :: "env \<Rightarrow> pyval list \<Rightarrow> vm \<Rightarrow> ('y, vm) vprog" where
  "add_nets E [] v = ret v"
| "add_nets E (net # nets) v = bnd (add_net_spec E net v) (add_nets E nets)"

definition get_vm :: "env \<Rightarrow> 'y host \<Rightarrow> cfgdata \<Rightarrow> pyval \<Rightarrow> pyval \<Rightarrow> ('y, vm) vprog" where
  "get_vm E H data lcfg conf =
     bnd (liftR (bindR (getitem lcfg ''name'') (as_str TypeError))) (\<lambda>name.
     bnd (liftR (opt_field conf ''image'')) (\<lambda>im.
     bnd (case im of Some i \<Rightarrow> bnd (build_image E H data {} i) (\<lambda>_. ret i) | None \<Rightarrow> ret name) (\<lambda>image.
     bnd (get_rnd_name E name 12) (\<lambda>rnd.
     bnd (so_clone (h_ops H E) image rnd) (\<lambda>_.
     bnd (vm_new E conf lcfg) (\<lambda>v.
     bnd (so_list_files (h_ops H E) rnd) (\<lambda>fs.
     bnd (liftR (bindR (getitem conf ''net'') py_iter)) (\<lambda>nets.
     bnd (add_nets E nets (fold add_disk fs (v\<lparr>disks := disks v @ [rnd]\<rparr>))) (\<lambda>v.
     bnd (vm_boot E H v) (\<lambda>_.
     bnd (modify (upd_host (hid H) (\<lambda>hs. hs\<lparr>host_vms := host_vms hs @ [vid v]\<rparr>))) (\<lambda>_.
     ret v)))))))))))"

definition br_add :: "string option \<Rightarrow> nat \<Rightarrow> (string option \<times> nat list) list \<Rightarrow> (string option \<times> nat list) list" where
  "br_add br i m =
     (if br \<in> fst ` set m then map (\<lambda>(b, vms). (b, if b = br then vms @ [i] else vms)) m
      else m @ [(br, [i])])"

fun set_field :: "pyval \<Rightarrow> string \<Rightarrow> pyval \<Rightarrow> pyval" where
  "set_field (PDict d) k v = PDict (dset d k v)"
| "set_field w k v = w"

fun host_get_vms :: "env \<Rightarrow> 'y host \<Rightarrow> cfgdata \<Rightarrow> pyval list \<Rightarrow> (string \<times> string) list \<Rightarrow> ('y, vm list) vprog" where
  "host_get_vms E H data [] ifs = ret []"
| "host_get_vms E H data (vm_conf # vm_confs) ifs =
     bnd (liftR (bindR (getitem (h_cfg H) ''vms'') (\<lambda>vms.
            bindR (bindR (getitem vm_conf ''name'') (as_str TypeError)) (getitem vms)))) (\<lambda>conf.
     bnd (liftR (bindR (getitem conf ''net'') py_iter)) (\<lambda>nets.
     bnd (resolve_nets E H nets ifs None) (\<lambda>(ifs', br, net_conf).
     bnd (get_vm E H data vm_conf (set_field conf ''net'' (PList (map PStr net_conf)))) (\<lambda>v.
     bnd (modify (upd_host (hid H) (\<lambda>hs. hs\<lparr>br_vm := br_add br (vid v) (br_vm hs)\<rparr>))) (\<lambda>_.
     bnd (host_get_vms E H data vm_confs ifs') (\<lambda>vs.
     ret (v # vs)))))))"

section \<open>Bridge numbers\<close>

lemma free_num_spec:
  "\<exists>i. free_num nums = Some i \<and> i \<notin> set nums \<and> (\<forall>j < i. j \<in> set nums)"
proof -
  have "\<not> {0..<length nums + 1} \<subseteq> set nums"
  proof
    assume "{0..<length nums + 1} \<subseteq> set nums"
    then have "length nums + 1 \<le> card (set nums)" using card_mono [of "set nums" "{0..<length nums + 1}"] by simp
    then show False using card_length [of nums] by simp
  qed
  then obtain k where k: "k < length nums + 1" "k \<notin> set nums" by (meson atLeastLessThan_iff subsetI)
  then obtain i where i: "free_num nums = Some i"
    unfolding free_num_def by (metis atLeastLessThan_iff find_None_iff le0 not_Some_eq set_upt)
  then show ?thesis unfolding free_num_def find_Some_iff by (auto simp del: upt_Suc)
qed

definition iface_items :: "ritem list" where
  "iface_items = [One Digit, Star Digit, One (Lit (CHR '':'')), One (Lit (CHR '' '')), GOpen,
     One (Range (CHR ''a'') (CHR ''z'')), Star (Range (CHR ''a'') (CHR ''z'')), GClose, GOpen, One Digit, Star Digit, GClose,
     One (Lit (CHR '':'')), One (Lit (CHR '' '')), Star Dot]"

lemma iface_compile: "re_compile IFACE_RE = Inr iface_items"
  by code_simp

lemma mt_star_last: "mt [Star a] p s cap gs = Some gs"
  by (induction s arbitrary: p cap) simp_all

text \<open>The name of an interface as the source composes it: lower case letters and a number.\<close>

definition lower_word :: "string \<Rightarrow> bool" where
  "lower_word w \<longleftrightarrow> w \<noteq> [] \<and> list_all (amatch (Range (CHR ''a'') (CHR ''z''))) w"

lemma digits_list_all: "list_all (amatch Digit) (nat_str n)"
  by (auto simp: list_all_iff nat_str_digits)

lemma iface_match:
  assumes "lower_word w"
  shows "re_match IFACE_RE (nat_str k @ '': '' @ w @ nat_str n @ '': '' @ rest) = Inr (Some [w, nat_str n])"
proof -
  obtain x ds where n: "nat_str n = x # ds" using nat_str_ne [of n] by (cases "nat_str n") auto
  then have x: "is_digit x" using nat_str_digits [of x n] by simp
  let ?tail = "[One (Lit (CHR '':'')), One (Lit (CHR '' '')), Star Dot]"
  have t: "mt ?tail p ('': '' @ rest) None gs = Some gs" for p gs by (simp add: mt_star_last del: mt.simps(7))
  have "mt (One Digit # Star Digit # GClose # ?tail) p (nat_str n @ '': '' @ rest) (Some []) [w] = Some [w, nat_str n]" for p
    by (rule mt_plus_run) (use t in \<open>simp_all add: digits_list_all is_digit_def del: mt.simps(6,7)\<close>)
  then have "mt (One (Range (CHR ''a'') (CHR ''z'')) # Star (Range (CHR ''a'') (CHR ''z'')) # GClose # GOpen #
      One Digit # Star Digit # GClose # ?tail) p (w @ nat_str n @ '': '' @ rest) (Some []) [] = Some [w, nat_str n]" for p
    by (intro mt_plus_run)
      (use assms x in \<open>simp_all add: lower_word_def n is_digit_def del: mt.simps(6,7)\<close>)
  then have "mt (drop 2 iface_items) p ('': '' @ w @ nat_str n @ '': '' @ rest) None [] = Some [w, nat_str n]" for p
    by (simp add: iface_items_def grab_def del: mt.simps(7))
  then have "mt iface_items None (nat_str k @ '': '' @ w @ nat_str n @ '': '' @ rest) None [] = Some [w, nat_str n]"
    unfolding iface_items_def
    by (intro mt_plus_run) (simp_all add: digits_list_all is_digit_def del: mt.simps(6,7))
  then show ?thesis by (simp add: re_match_def iface_compile)
qed


definition line_nums :: "string \<Rightarrow> string \<Rightarrow> nat list" where
  "line_nums w line = (case mt iface_items None line None [] of
     Some [g1, g2] \<Rightarrow> if g1 = w then [nat_of_digits g2] else [] | _ \<Rightarrow> [])"

lemma used_nums_eq: "used_nums w data = Inr (remdups (concat (map (line_nums w) (splitlines data))))"
proof -
  have "mapR (re_match IFACE_RE) (splitlines data) = Inr (map (\<lambda>line. mt iface_items None line None []) (splitlines data))"
    by (rule mapR_Inr_all) (simp add: re_match_def iface_compile)
  then show ?thesis by (simp add: used_nums_def comp_def line_nums_def [abs_def])
qed

lemma used_nums_mem:
  assumes "lower_word w" and "nat_str k @ '': '' @ w @ nat_str n @ '': '' @ rest \<in> set (splitlines data)"
  shows "n \<in> set (concat (map (line_nums w) (splitlines data)))"
proof -
  have "mt iface_items None (nat_str k @ '': '' @ w @ nat_str n @ '': '' @ rest) None [] = Some [w, nat_str n]"
    using iface_match [OF assms(1)] by (simp add: re_match_def iface_compile)
  then have "n \<in> set (line_nums w (nat_str k @ '': '' @ w @ nat_str n @ '': '' @ rest))"
    unfolding line_nums_def by (simp only: option.case list.case) simp
  with assms(2) show ?thesis unfolding set_concat set_map by blast
qed

lemma sh_ready:
  assumes "is_ready h s"
    and "spawn E (trace s) (ssh_argv h None (CmdStr cmd)) None = \<lparr>p_lines = ls, p_status = Exited 0\<rparr>"
  shows "sh E h cmd s = Some (Inr (), s\<lparr>trace := trace s @ [Exec (ssh_argv h None (CmdStr cmd)) None]\<rparr>)"
  using assms unfolding sh_def by (simp add: bnd_run ssh_run_ready finish_run_def)


section \<open>What the operations of a host keep, and that they return\<close>

lemma keeps_host_basic [keeps_intro]:
  "keeps outer (update_stats E H)" "keeps outer (get_bridge E H pfx)" "keeps outer (add_net_spec E net v)"
  unfolding update_stats_def get_bridge_def add_net_spec_def
  by (intro keeps_intro; simp split: list.splits option.splits; (intro conjI allI impI keeps_intro)?)+

lemma keeps_resolve_nets [keeps_intro]: "keeps outer (resolve_nets E H nets ifs br)"
  by (induction nets arbitrary: ifs br) (simp_all only: resolve_nets.simps Let_def, (intro keeps_intro | assumption)+)

lemma keeps_add_nets [keeps_intro]: "keeps outer (add_nets E nets v)"
  by (induction nets arbitrary: v) (simp_all only: add_nets.simps, (intro keeps_intro | assumption)+)

lemma returns_host_basic [total_intro]:
  assumes "clock_ok E"
  shows "returns (update_stats E H)" "returns (get_bridge E H pfx)"
  unfolding update_stats_def get_bridge_def
  by (intro total_intro assms; simp split: list.splits option.splits; (intro conjI allI impI total_intro assms)?)+

lemma returns_resolve_nets [total_intro]:
  assumes "clock_ok E"
  shows "returns (resolve_nets E H nets ifs br)"
  by (induction nets arbitrary: ifs br) (simp_all only: resolve_nets.simps Let_def, (intro total_intro assms | assumption)+)

lemma returns_add_net_spec [total_intro]: "returns (add_net_spec E net v)"
  unfolding add_net_spec_def
  by (intro total_intro; simp split: list.splits; (intro conjI allI impI total_intro)?)+

lemma returns_add_nets [total_intro]: "returns (add_nets E nets v)"
  by (induction nets arbitrary: v) (simp_all only: add_nets.simps, (intro total_intro | assumption)+)

context vhost
begin

lemma keeps_images:
  "keeps outer (boot_image E H name)" "keeps outer (download_image E H name conf)"
  unfolding boot_image_def download_image_def by (intro keeps_intro keeps_ops; simp)+

lemma keeps_run_build_scripts: "keeps outer (run_build_scripts E H data name conf)"
  unfolding run_build_scripts_def by (intro keeps_intro keeps_ops keeps_images keeps_vm_destroy keeps_vm_shutdown)

lemma keeps_build_image: "keeps outer (build_image E H data held name)"
proof (rule keepsI)
  fix s :: "'y vst_scheme" and r t
  assume ret: "build_image E H data held name s = Some (r, t)"
  let ?P = "\<lambda>E' H' data held name s (y :: unit result \<times> 'y vst_scheme). E' = E \<longrightarrow> H' = H \<longrightarrow> outer (snd y) = outer s"
  have "?P E H data held name s (r, t)"
  proof (rule build_image.raw_induct [where P = ?P, OF _ ret], intro impI)
    fix f :: "env \<Rightarrow> 'y host \<Rightarrow> cfgdata \<Rightarrow> string set \<Rightarrow> string \<Rightarrow> ('y, unit) vprog" and E' H' data held name and s :: "'y vst_scheme" and y
    let ?body = "\<lambda>E H. (if name \<in> held then block else
      bnd (so_exist (h_ops H E) name) (\<lambda>ex. if ex then ret () else
      bnd (liftR (bindR (getitem (h_cfg H) ''images'') (\<lambda>im. getitem im name))) (\<lambda>conf.
      bnd (liftR (opt_field conf ''parent'')) (\<lambda>parent.
      bnd (case parent of
             None \<Rightarrow> download_image E H name conf
           | Some p \<Rightarrow> bnd (f E H data (insert name held) p) (\<lambda>_.
                        bnd (so_clone (h_ops H E) p name) (\<lambda>_. ret False))) (\<lambda>built.
      if built then ret () else
      bnd (run_build_scripts E H data name conf) (\<lambda>_.
      bnd (sleep E 4) (\<lambda>_.
      so_snapshot (h_ops H E) name)))))))"
    assume IH: "\<And>E H data held name s y. f E H data held name s = Some y \<Longrightarrow> ?P E H data held name s y"
      and eqs: "E' = E" "H' = H"
      and eq: "?body E' H' s = Some y"
    have kf: "keeps outer (f E H data held' name')" for held' name' by (rule keepsI) (drule IH, simp)
    define B where "B = ?body E H"
    have k: "keeps outer B" unfolding B_def by (intro keeps_intro keeps_ops keeps_images keeps_run_build_scripts kf)
    have "B s = Some (fst y, snd y)" using eq unfolding B_def eqs prod.collapse .
    from keepsD [OF k this] show "outer (snd y) = outer s" .
  qed
  then show "outer t = outer s" by simp
qed

lemma keeps_get_vm: "keeps outer (get_vm E H data lcfg conf)"
  unfolding get_vm_def by (intro keeps_intro keeps_ops keeps_build_image; simp)

lemma keeps_host_get_vms: "keeps outer (host_get_vms E H data confs ifs)"
  by (induction confs arbitrary: ifs)
    (simp_all only: host_get_vms.simps, (intro keeps_intro keeps_get_vm outer_updates | assumption)+)

lemma returns_images:
  assumes "clock_ok E"
  shows "returns (boot_image E H name)" "returns (download_image E H name conf)"
    "returns (run_build_scripts E H data name conf)"
proof -
  have cb: "returns (no_cb line)" for line by (simp add: no_cb_def total_intro)
  show boot: "returns (boot_image E H name)" "returns (download_image E H name conf)"
    unfolding boot_image_def download_image_def by (intro total_intro returns_ops assms)+
  show "returns (run_build_scripts E H data name conf)"
    unfolding run_build_scripts_def
    by (intro total_intro returns_ops assms boot cb returns_vm_destroy returns_vm_shutdown)
qed

end

section \<open>Building images\<close>

text \<open>The parent of an image in the configuration of the host.\<close>

definition image_conf :: "'y host \<Rightarrow> string \<Rightarrow> pyval result" where
  "image_conf H name = bindR (getitem (h_cfg H) ''images'') (\<lambda>im. getitem im name)"

definition image_parent :: "'y host \<Rightarrow> string \<Rightarrow> string option" where
  "image_parent H name = (case bindR (image_conf H name) (\<lambda>conf. opt_field conf ''parent'') of
     Inr (Some p) \<Rightarrow> Some p | _ \<Rightarrow> None)"

context vhost
begin

lemma build_image_returns_ranked:
  fixes rank :: "string \<Rightarrow> nat"
  assumes clk: "clock_ok E" and rank: "\<And>n p. image_parent H n = Some p \<Longrightarrow> rank p < rank n"
    and "\<forall>n \<in> held. rank name < rank n"
  shows "returns (build_image E H data held name)"
  using assms(3)
proof (induction "rank name" arbitrary: name held rule: less_induct)
  case less
  have free: "name \<notin> held" using less.prems by auto
  have parent: "returns (build_image E H data (insert name held) p)"
    if "image_conf H name = Inr conf" "opt_field conf ''parent'' = Inr (Some p)" for conf p
  proof (rule less.hyps)
    have "image_parent H name = Some p" using that by (simp add: image_parent_def)
    then show "rank p < rank name" by (rule rank)
    then show "\<forall>n \<in> insert name held. rank p < rank n" using less.prems by auto
  qed
  define B where "B = (if name \<in> held then block else
      bnd (so_exist (h_ops H E) name) (\<lambda>ex. if ex then ret () else
      bnd (liftR (image_conf H name)) (\<lambda>conf.
      bnd (liftR (opt_field conf ''parent'')) (\<lambda>parent.
      bnd (case parent of
             None \<Rightarrow> download_image E H name conf
           | Some p \<Rightarrow> bnd (build_image E H data (insert name held) p) (\<lambda>_.
                        bnd (so_clone (h_ops H E) p name) (\<lambda>_. ret False))) (\<lambda>built.
      if built then ret () else
      bnd (run_build_scripts E H data name conf) (\<lambda>_.
      bnd (sleep E 4) (\<lambda>_.
      so_snapshot (h_ops H E) name)))))))"
  have eq: "build_image E H data held name = B"
    unfolding B_def image_conf_def by (rule ext) (subst build_image.simps, rule refl)
  have "returns B"
    unfolding B_def if_not_P [OF free]
    apply (rule total_bnd, rule returns_ops [OF clk], rule total_if, rule total_atomic)
    apply (rule total_liftR, rule total_liftR, rule total_bnd)
    subgoal for ex conf par
      by (cases par) (auto intro!: total_intro returns_images returns_ops clk parent)
    by (intro total_intro returns_images returns_ops clk)
  then show ?case unfolding eq .
qed

lemma returns_get_vm:
  assumes "clock_ok E" and "\<And>n p. image_parent H n = Some p \<Longrightarrow> (rank :: string \<Rightarrow> nat) p < rank n"
  shows "returns (get_vm E H data lcfg conf)"
proof -
  have "returns (build_image E H data {} i)" for i
    using assms by (intro build_image_returns_ranked) auto
  then show ?thesis unfolding get_vm_def by (intro total_intro returns_ops assms(1))
qed

lemma returns_host_get_vms:
  assumes "clock_ok E" and "\<And>n p. image_parent H n = Some p \<Longrightarrow> (rank :: string \<Rightarrow> nat) p < rank n"
  shows "returns (host_get_vms E H data confs ifs)"
  by (induction confs arbitrary: ifs)
    (simp_all only: host_get_vms.simps, (intro total_intro returns_get_vm assms | assumption | erule assms(2))+)

end

section \<open>The machine a configuration describes\<close>

definition base_devices :: "xml list" where
  "base_devices =
     [Elem ''emulator'' [] (Some ''/usr/bin/kvm'') [],
      Elem ''controller'' [(''type'', ''pci''), (''index'', ''0''), (''model'', ''pci-root'')] None [],
      Elem ''graphics'' [(''type'', ''spice''), (''autoport'', ''yes'')] None [],
      Elem ''memballoon'' [(''model'', ''virtio'')] None
        [Elem ''address'' [(''type'', ''pci''), (''domain'', ''0x0000''), (''bus'', ''0x00''),
           (''slot'', ''0x09''), (''function'', ''0x0'')] None []]]"

lemma vm_new_devices:
  assumes "vm_new E cfg lcfg s = Some (Inr v, t)"
  shows "wf_vm v \<and> dev_kids v = base_devices \<and> macs v = [] \<and> bridges v = [] \<and> disks v = []"
proof -
  obtain name mem n c where "v = \<lparr>vid = n, vm_name = name, vm_cfg = c, local_cfg = lcfg, macs = [], disks = [], bridges = [],
      vx = fst (vm_xml name mem), devices = snd (vm_xml name mem)\<rparr>"
    using assms unfolding vm_new_def by (auto elim!: bnd_InrE)
  then show ?thesis by (simp add: wf_vm_def dev_kids_def base_devices_def vm_xml_devices del: elem_at.simps)
qed

text \<open>The network entry \<open>''br mac''\<close> attaches the bridge, with the address when one is given.\<close>

definition net_fits :: "pyval \<Rightarrow> string \<Rightarrow> string \<Rightarrow> bool" where
  "net_fits net b m \<longleftrightarrow> (\<exists>w. net = PStr w \<and> b = hd (split_on (CHR '' '') w) \<and>
     (\<forall>m'. tl (split_on (CHR '' '') w) \<noteq> [] \<longrightarrow> m' = hd (tl (split_on (CHR '' '') w)) \<longrightarrow> m' \<noteq> [] \<longrightarrow> m = m'))"

lemma add_net_spec_fits:
  assumes "add_net_spec E net v s = Some (Inr v', t)"
  shows "\<exists>b m. net_fits net b m \<and> v' = attach_net b m v"
proof -
  from assms obtain w where w: "net = PStr w"
    and run: "(case split_on (CHR '' '') w of [b] \<Rightarrow> add_net E b None v | b # m # _ \<Rightarrow> add_net E b (Some m) v | [] \<Rightarrow> raise IndexError) s
      = Some (Inr v', t)"
    unfolding add_net_spec_def by (cases net) (auto elim!: bnd_InrE)
  have "\<exists>m. v' = attach_net b m v \<and> (\<forall>m'. mac = Some m' \<longrightarrow> m' \<noteq> [] \<longrightarrow> m = m')"
    if "add_net E b mac v s = Some (Inr v', t)" for b mac
    using that unfolding add_net_def by (auto elim!: bnd_InrE split: option.splits if_splits)
  note an = this
  show ?thesis
  proof (cases "split_on (CHR '' '') w")
    case (Cons b ms)
    show ?thesis
    proof (cases ms)
      case Nil
      with Cons run an [of b None] w show ?thesis by (auto simp: net_fits_def)
    next
      case (Cons m ms')
      with \<open>split_on (CHR '' '') w = b # ms\<close> run an [of b "Some m"] w show ?thesis by (auto simp: net_fits_def)
    qed
  qed (use run in simp)
qed

lemma add_nets_facts:
  assumes "add_nets E nets v s = Some (Inr v', t)" and "wf_vm v"
  shows "\<exists>bs ms. list_all2 (\<lambda>net (b, m). net_fits net b m) nets (zip bs ms) \<and> length bs = length nets \<and> length ms = length nets \<and>
    wf_vm v' \<and> dev_kids v' = dev_kids v @ map2 net_elem bs ms \<and> macs v' = macs v @ ms \<and> bridges v' = bridges v @ bs \<and>
    disks v' = disks v \<and> vid v' = vid v"
  using assms
proof (induction nets arbitrary: v s)
  case (Cons net nets)
  from Cons.prems(1) obtain v1 u where v1: "add_net_spec E net v s = Some (Inr v1, u)" "add_nets E nets v1 u = Some (Inr v', t)"
    by (auto elim: bnd_InrE)
  from add_net_spec_fits [OF v1(1)] obtain b m where bm: "net_fits net b m" "v1 = attach_net b m v" by blast
  note at = attach_net_facts [OF Cons.prems(2), of b m, folded bm(2)]
  from Cons.IH [OF v1(2) at(1)] obtain bs ms where IH:
    "list_all2 (\<lambda>net (b, m). net_fits net b m) nets (zip bs ms)" "length bs = length nets" "length ms = length nets"
    "wf_vm v'" "dev_kids v' = dev_kids v1 @ map2 net_elem bs ms" "macs v' = macs v1 @ ms" "bridges v' = bridges v1 @ bs"
    "disks v' = disks v1" "vid v' = vid v1"
    by blast
  with bm(1) at show ?case by (intro exI [of _ "b # bs"] exI [of _ "m # ms"]) simp
qed simp

lemma get_vm_steps:
  assumes "get_vm E H data lcfg conf s = Some (Inr v, t)"
  obtains rnd s1 v0 s2 fs s3 nets s4 s5 where "vm_new E conf lcfg s1 = Some (Inr v0, s2)"
    "so_list_files (h_ops H E) rnd s2 = Some (Inr fs, s3)" "bindR (getitem conf ''net'') py_iter = Inr nets"
    "add_nets E nets (fold add_disk fs (v0\<lparr>disks := disks v0 @ [rnd]\<rparr>)) s3 = Some (Inr v, s4)"
    "vm_boot E H v s4 = Some (Inr (), s5)"
    "t = upd_host (hid H) (\<lambda>hs. hs\<lparr>host_vms := host_vms hs @ [vid v]\<rparr>) s5"
  using assms unfolding get_vm_def
  apply (elim bnd_InrE)
  subgoal premises p for a u aa ua ab ub ac uc ad ud ae ue af uf ag ug ah uh ai ui aj uj
  proof -
    from p(9) have nets: "bindR (getitem conf ''net'') py_iter = Inr ag" "ug = uf" by (auto simp: liftR_def)
    from p(12,13) have fin: "ah = v" "t = upd_host (hid H) (\<lambda>hs. hs\<lparr>host_vms := host_vms hs @ [vid v]\<rparr>) ui" by auto
    show thesis by (rule that [OF p(7,8) nets(1)]) (use p(10,11) nets(2) fin in simp_all)
  qed
  done

lemma get_vm_devices:
  assumes "get_vm E H data lcfg conf s = Some (Inr v, t)"
  shows "\<exists>rnd fs nets. disks v = [rnd] \<and> bindR (getitem conf ''net'') py_iter = Inr nets \<and>
    dev_kids v = base_devices @ map disk_elem fs @ map2 net_elem (bridges v) (macs v) \<and>
    length (bridges v) = length nets \<and> length (macs v) = length nets \<and>
    list_all2 (\<lambda>net (b, m). net_fits net b m) nets (zip (bridges v) (macs v)) \<and>
    vid v \<in> set (host_vms (hst t (hid H)))"
  using assms
proof (rule get_vm_steps)
  fix rnd s1 and v0 :: vm and s2 fs s3 nets s4 s5
  let ?v1 = "v0\<lparr>disks := disks v0 @ [rnd]\<rparr>"
  assume new: "vm_new E conf lcfg s1 = Some (Inr v0, s2)" and nets: "bindR (getitem conf ''net'') py_iter = Inr nets"
    and add: "add_nets E nets (fold add_disk fs ?v1) s3 = Some (Inr v, s4)"
    and t: "t = upd_host (hid H) (\<lambda>hs. hs\<lparr>host_vms := host_vms hs @ [vid v]\<rparr>) s5"
  have v1: "wf_vm ?v1" "dev_kids ?v1 = base_devices" "macs ?v1 = []" "bridges ?v1 = []" "disks ?v1 = [rnd]"
    using vm_new_devices [OF new] by (simp_all add: wf_vm_def dev_kids_def)
  note fd = fold_add_disk_facts [OF v1(1), of fs, unfolded v1]
  from add_nets_facts [OF add] fd obtain bs ms where
    "list_all2 (\<lambda>net (b, m). net_fits net b m) nets (zip bs ms)" "length bs = length nets" "length ms = length nets"
    "dev_kids v = base_devices @ map disk_elem fs @ map2 net_elem bs ms" "macs v = ms" "bridges v = bs" "disks v = [rnd]"
    by auto
  then show ?thesis using nets t by (intro exI [of _ rnd] exI [of _ fs] exI [of _ nets]) (simp add: upd_host_def)
qed


end
