(* ===== verification/Provider.thy ===== *)
theory Provider
  imports Host
begin

text \<open>
  The classes \<^verbatim>\<open>Provider\<close> and \<^verbatim>\<open>MetadataServer\<close> of \<^verbatim>\<open>rallyci/providers/virsh.py\<close>: creation of the hosts, the choice of
  a host with enough memory and a low load, the delegation to it, the cleanup of its machines, and
  the two request handlers that serve cloud-init.
\<close>

record 'y prov =
  p_cfg :: pyval
  p_host :: "nat \<Rightarrow> 'y host"

section \<open>Creation\<close>

definition fresh_host_state :: host_state where
  "fresh_host_state = \<lparr>br_vm = [], host_vms = [], la = 0, free = 0\<rparr>"

text \<open>\<^verbatim>\<open>Host.__init__\<close>\<close>

definition host_new :: "env \<Rightarrow> pyval \<Rightarrow> string option \<Rightarrow> nat \<Rightarrow> pyval \<Rightarrow> ('y, 'y host) vprog" where
  "host_new E config vm_key i ssh_conf =
     bnd (ssh_of_cfg ssh_conf) (\<lambda>h.
     bnd (liftR (bindR (getitem config ''storage'') (storage_new h))) (\<lambda>ops.
     bnd (modify (upd_host i (\<lambda>_. fresh_host_state))) (\<lambda>_.
     ret \<lparr>hid = i, h_ssh = h, h_cfg = config, h_vm_key = vm_key, h_ops = ops\<rparr>)))"

fun hosts_new :: "env \<Rightarrow> pyval \<Rightarrow> string option \<Rightarrow> nat \<Rightarrow> pyval list \<Rightarrow> ('y, 'y host list) vprog" where
  "hosts_new E config vm_key i [] = ret []"
| "hosts_new E config vm_key i (c # cs) =
     bnd (host_new E config vm_key i c) (\<lambda>h. bnd (hosts_new E config vm_key (Suc i) cs) (\<lambda>hs. ret (h # hs)))"

text \<open>\<^verbatim>\<open>Provider.__init__\<close> and \<^verbatim>\<open>start\<close>; the metadata server follows in the theory \<open>Web\<close>.\<close>

definition provider_start :: "env \<Rightarrow> pyval \<Rightarrow> ('y, 'y host list) vprog" where
  "provider_start E config =
     bnd (liftR (getitem config ''name'')) (\<lambda>_.
     bnd (liftR (bindR (getdef config ''key'' PNone) opt_str)) (\<lambda>k.
     bnd (now E) (\<lambda>t.
     bnd (modify (\<lambda>s. s\<lparr>prov_last := t\<rparr>)) (\<lambda>_.
     bnd (liftR (bindR (getitem config ''hosts'') py_iter)) (\<lambda>cs.
     bnd (hosts_new E config k 0 cs) (\<lambda>hs.
     bnd (modify (\<lambda>s. s\<lparr>host_order := [0..<length hs]\<rparr>)) (\<lambda>_. ret hs)))))))"

section \<open>Choosing a host\<close>

fun num_val :: "pyval \<Rightarrow> rat result" where
  "num_val (PInt n) = Inr (of_int n)"
| "num_val (PFloat x) = Inr x"
| "num_val (PBool b) = Inr (if b then 1 else 0)"
| "num_val _ = Inl TypeError"

definition vm_memory :: "pyval \<Rightarrow> pyval \<Rightarrow> rat result" where
  "vm_memory config cfg =
     bindR (getitem config ''vms'') (\<lambda>vms.
     bindR (bindR (getitem cfg ''name'') (as_str TypeError)) (\<lambda>n.
     bindR (getitem vms n) (\<lambda>c. bindR (getitem c ''memory'') num_val)))"

definition memory_required :: "pyval \<Rightarrow> pyval list \<Rightarrow> rat result" where
  "memory_required config vm_confs =
     bindR (bindR (getdef config ''freemb'' (PInt 1024)) num_val) (\<lambda>base.
     bindR (mapR (vm_memory config) vm_confs) (\<lambda>ms. Inr (base + sum_list ms)))"

definition suitable :: "rat \<Rightarrow> rat \<Rightarrow> host_state \<Rightarrow> bool" where
  "suitable need maxla hs \<longleftrightarrow> of_int (free hs) \<ge> need \<and> la hs < maxla"

fun try_hosts :: "env \<Rightarrow> 'y prov \<Rightarrow> rat \<Rightarrow> nat list \<Rightarrow> ('y, nat option) vprog" where
  "try_hosts E P need [] = ret None"
| "try_hosts E P need (i # rest) =
     bnd (update_stats E (p_host P i)) (\<lambda>_.
     bnd (liftR (bindR (getdef (p_cfg P) ''maxla'' (PInt 4)) num_val)) (\<lambda>maxla.
     bnd (gets (\<lambda>s. hst s (hid (p_host P i)))) (\<lambda>hs.
     if suitable need maxla hs then ret (Some i) else try_hosts E P need rest)))"

partial_function (option) choose_host :: "env \<Rightarrow> 'y prov \<Rightarrow> rat \<Rightarrow> ('y, nat) vprog" where
  "choose_host E pv need s =
     bnd (gets host_order) (\<lambda>order.
     bnd (random_shuffle E order) (\<lambda>order'.
     bnd (modify (\<lambda>s. s\<lparr>host_order := order'\<rparr>)) (\<lambda>_.
     bnd (try_hosts E pv need order') (\<lambda>best.
     case best of
       None \<Rightarrow> bnd (sleep E 30) (\<lambda>_. choose_host E pv need)
     | Some i \<Rightarrow> ret i)))) s"

definition prov_get_vms :: "env \<Rightarrow> 'y prov \<Rightarrow> cfgdata \<Rightarrow> pyval list \<Rightarrow> ('y, (nat \<times> vm) list) vprog" where
  "prov_get_vms E P data vm_confs =
     bnd (liftR (memory_required (p_cfg P) vm_confs)) (\<lambda>need.
     bnd (gets prov_last) (\<lambda>last.
     bnd (now E) (\<lambda>t.
     bnd (if last + 5 - t > 1 then sleep E (last + 5 - t) else ret ()) (\<lambda>_.
     bnd (choose_host E P need) (\<lambda>i.
     bnd (now E) (\<lambda>t'.
     bnd (modify (\<lambda>s. s\<lparr>prov_last := t'\<rparr>)) (\<lambda>_.
     bnd (host_get_vms E (p_host P i) data vm_confs []) (\<lambda>vs.
     ret (map (Pair i) vs)))))))))"

text \<open>\<^verbatim>\<open>Provider.cleanup\<close>: a machine knows its host, here by the index of the host at the provider.\<close>

definition prov_cleanup :: "env \<Rightarrow> 'y prov \<Rightarrow> (nat \<times> vm) list \<Rightarrow> ('y, unit) vprog" where
  "prov_cleanup E P vms = forM vms (\<lambda>(i, v). vm_destroy E (p_host P i) v True)"

section \<open>Metadata server\<close>

datatype body = Raw string | Json pyval

datatype response = Response int "body option"

definition supported_version :: "string \<Rightarrow> bool" where
  "supported_version v \<longleftrightarrow> v \<in> {''2012-08-10'', ''latest''}"

definition public_keys :: "string list \<Rightarrow> (string \<times> pyval) list" where
  "public_keys lines = map (\<lambda>(i, l). (''key-'' @ nat_str i, PStr l))
     (filter (\<lambda>(i, l). l \<noteq> []) (enumerate 0 lines))"

definition get_metadata :: "env \<Rightarrow> string \<Rightarrow> pyval \<Rightarrow> ('x io_scheme, pyval) prog" where
  "get_metadata E uuid config =
     bnd (liftR (bindR (getitem config ''authorized_keys'') (as_str Unmodelled))) (\<lambda>path.
     bnd (io_do (ReadFile path) (\<lambda>tr. file_lines E tr path)) (\<lambda>ls.
     ret (PDict [(''uuid'', PStr uuid), (''availability_zone'', PStr ''nova''), (''hostname'', PStr ''rally-ci-vm''),
       (''launch_index'', PInt 0),
       (''meta'', PDict [(''priority'', PStr ''low''), (''role'', PStr ''rally-ci-test-vm'')]),
       (''public_keys'', PDict (public_keys ls)), (''name'', PStr ''test'')])))"

definition user_data :: "pyval \<Rightarrow> string \<Rightarrow> response result" where
  "user_data config version =
     (if supported_version version then
        bindR (bindR (getitem config ''user_data'') (as_str AttributeError)) (\<lambda>d. Inr (Response 200 (Some (Raw d))))
      else Inr (Response 404 None))"

definition meta_data :: "env \<Rightarrow> string \<Rightarrow> pyval \<Rightarrow> string \<Rightarrow> ('x io_scheme, response) prog" where
  "meta_data E uuid config version =
     (if supported_version version then
        bnd (get_metadata E uuid config) (\<lambda>md. ret (Response 200 (Some (Json md))))
      else ret (Response 404 None))"

text \<open>The address \<^verbatim>\<open>MetadataServer.start\<close> listens on.\<close>

definition listen_address :: "pyval \<Rightarrow> (pyval \<times> pyval) result" where
  "listen_address config =
     bindR (getdef config ''listen_addr'' (PStr ''169.254.169.254'')) (\<lambda>a.
     bindR (getdef config ''listen_port'' (PInt 8080)) (\<lambda>p. Inr (a, p)))"

section \<open>Hosts the provider creates\<close>

lemma storage_new_backend: "storage_new h cf = Inr ops \<Longrightarrow> storage_backend E (ops E) h"
proof -
  assume new: "storage_new h cf = Inr ops"
  have "(\<exists>st. ops = (\<lambda>E. btrfs_ops E st) \<and> st_ssh st = h) \<or> (\<exists>st. ops = (\<lambda>E. zfs_ops E st) \<and> st_ssh st = h)"
    using new unfolding storage_new_def
    by (auto simp: bindR_Inr_iff split: if_splits sum.splits pyval.splits intro: exI)
  then show ?thesis
    using btrfs.storage_backend_axioms [of E] zfs.storage_backend_axioms [of E] by auto
qed

lemma host_new_vhost: "host_new E config k i c s = Some (Inr H, t) \<Longrightarrow> vhost E' H"
  unfolding host_new_def
  by (elim bnd_InrE) (auto simp: liftR_def bindR_Inr_iff vhost_def intro: storage_new_backend)

lemma map_of_filter_value:
  "distinct (map fst m) \<Longrightarrow> map_of (filter (\<lambda>(k, x). x \<noteq> y) m) k =
     (case map_of m k of Some x \<Rightarrow> if x = y then None else Some x | None \<Rightarrow> None)"
  by (induction m) (auto simp: map_of_eq_None_iff split: option.splits dest: map_of_SomeD)

text \<open>C11: whatever host the provider created and whatever its remote side answers, \<^verbatim>\<open>VM.destroy\<close>, when it returns,
  has taken the machine once out of the table of every bridge it is attached to once, has left every other
  entry with machines as it was, and leaves no bridge without machines in the table.\<close>

theorem vm_destroy_bridges:
  assumes "host_new E config k i c s0 = Some (Inr H, s1)"
    and "vm_destroy E H v stor s = Some (Inr (), t)"
    and "distinct (map fst (br_vm (hst s (hid H))))"
  shows "(\<forall>(b, vms) \<in> set (br_vm (hst t (hid H))). vms \<noteq> []) \<and>
    (\<forall>b vms. map_of (br_vm (hst s (hid H))) (Some b) = Some vms \<and> count_list (bridges v) b \<le> 1 \<longrightarrow>
       map_of (br_vm (hst t (hid H))) (Some b) =
         (let vms' = (if b \<in> set (bridges v) then remove1 (vid v) vms else vms) in
          if vms' = [] then None else Some vms'))"
proof -
  let ?m = "drop_from_bridges v (br_vm (hst s (hid H)))"
  have eq: "br_vm (hst t (hid H)) = filter (\<lambda>(br, vms). vms \<noteq> []) ?m"
    by (rule vhost.destroy_bridges [OF host_new_vhost [OF assms(1)] assms(2,3)])
  have dist: "distinct (map fst ?m)" using assms(3) by (simp add: drop_from_bridges_keys)
  have "map_of (filter (\<lambda>(br, vms). vms \<noteq> []) ?m) (Some b) =
      (case map_of ?m (Some b) of Some vms \<Rightarrow> if vms = [] then None else Some vms | None \<Rightarrow> None)" for b
    using map_of_filter_value [OF dist] by simp
  then show ?thesis unfolding eq by (auto simp: drop_from_bridges_lookup Let_def)
qed


section \<open>A host for the concrete examples\<close>

definition demo_cfg :: pyval where
  "demo_cfg = PDict [(''storage'', PDict [(''backend'', PStr ''btrfs''), (''path'', PStr ''/b'')])]"

definition demo_hostcfg :: pyval where
  "demo_hostcfg = PDict [(''hostname'', PStr ''h1'')]"

definition demo_host :: "pyval \<Rightarrow> unit host" where
  "demo_host cfg = \<lparr>hid = 0, h_ssh = demo_ssh, h_cfg = cfg, h_vm_key = None,
     h_ops = (\<lambda>E. btrfs_ops E \<lparr>st_ssh = demo_ssh, st_path = ''/b'', st_dataset = []\<rparr>)\<rparr>"

definition demo_host_at :: "nat \<Rightarrow> pyval \<Rightarrow> 'y host" where
  "demo_host_at i cfg = \<lparr>hid = i, h_ssh = demo_ssh, h_cfg = cfg, h_vm_key = None,
     h_ops = (\<lambda>E. btrfs_ops E \<lparr>st_ssh = demo_ssh, st_path = ''/b'', st_dataset = []\<rparr>)\<rparr>"

definition demo_vst :: "req list \<Rightarrow> vst" where
  "demo_vst tr = \<lparr>trace = tr, hst = (\<lambda>_. fresh_host_state), ip_of = (\<lambda>_. None), next_vid = 0, host_order = [0], prov_last = 0\<rparr>"

definition demo_vm :: "string list \<Rightarrow> vm" where
  "demo_vm brs = \<lparr>vid = 7, vm_name = ''vm7'', vm_cfg = PDict [], local_cfg = PDict [], macs = [], disks = [''d''],
     bridges = brs, vx = fst (vm_xml ''vm7'' ''1''), devices = [7]\<rparr>"

lemma demo_host_0: "demo_host_at 0 cfg = demo_host cfg"
  by (simp add: demo_host_def demo_host_at_def)

lemma demo_host_new_at:
  assumes "getitem cfg ''storage'' = Inr (PDict [(''backend'', PStr ''btrfs''), (''path'', PStr ''/b'')])"
    and "SshNew \<notin> set (trace s)"
  shows "\<exists>t. host_new E cfg None i demo_hostcfg s = Some (Inr (demo_host_at i cfg), t)"
proof -
  have "int_str 22 = ''22''" by code_simp
  moreover have "filter (\<lambda>q. q = SshNew) (trace s) = []" using assms(2) by (metis (mono_tags, lifting) filter_False)
  ultimately show ?thesis
    using assms(1)
    by (simp add: host_new_def ssh_of_cfg_def demo_hostcfg_def opt_str_def ssh_new_def bnd_def storage_new_def demo_host_at_def demo_ssh_def)
qed

lemma demo_host_new:
  "\<exists>t. host_new E demo_cfg None 0 demo_hostcfg (demo_vst []) = Some (Inr (demo_host demo_cfg), t)"
proof -
  have "getitem demo_cfg ''storage'' = Inr (PDict [(''backend'', PStr ''btrfs''), (''path'', PStr ''/b'')])"
    by (simp add: demo_cfg_def)
  from demo_host_new_at [OF this, of "demo_vst []" E 0] show ?thesis by (simp add: demo_vst_def demo_host_0)
qed

definition demo_bridges :: vst where
  "demo_bridges = upd_host 0 (\<lambda>hs. hs\<lparr>br_vm := [(Some ''br0'', [7]), (Some ''br1'', [7, 8]), (Some ''br2'', [8])]\<rparr>) (demo_vst [SshReady 0])"

lemma demo_destroy:
  "map_option (\<lambda>(r, t). (r, br_vm (hst t 0))) (vm_destroy (demo_env []) (demo_host demo_cfg)
     (demo_vm [''br0'', ''br1'']) True demo_bridges) = Some (Inr (), [(Some ''br1'', [8]), (Some ''br2'', [8])])"
  by code_simp

theorem vm_destroy_bridges_witness:
  "\<exists>t. vm_destroy (demo_env []) (demo_host demo_cfg) (demo_vm [''br0'', ''br1'']) True demo_bridges = Some (Inr (), t) \<and>
     map_of (br_vm (hst t 0)) (Some ''br0'') = None \<and> map_of (br_vm (hst t 0)) (Some ''br1'') = Some [8]"
proof -
  let ?H = "demo_host demo_cfg"
  obtain t where t: "vm_destroy (demo_env []) ?H (demo_vm [''br0'', ''br1'']) True demo_bridges = Some (Inr (), t)"
    using demo_destroy by auto
  obtain u where u: "host_new (demo_env []) demo_cfg None 0 demo_hostcfg (demo_vst []) = Some (Inr ?H, u)"
    using demo_host_new by blast
  have s: "br_vm (hst demo_bridges (hid ?H)) = [(Some ''br0'', [7]), (Some ''br1'', [7, 8]), (Some ''br2'', [8])]"
    by (simp add: demo_bridges_def demo_vst_def demo_host_def upd_host_def)
  have d: "distinct (map fst (br_vm (hst demo_bridges (hid ?H))))" unfolding s by simp
  have "hid ?H = 0" by (simp add: demo_host_def)
  with vm_destroy_bridges [OF u t d] t show ?thesis unfolding s by (simp add: demo_vm_def Let_def)
qed


definition demo_images :: pyval where
  "demo_images = PDict [(''storage'', PDict [(''backend'', PStr ''btrfs''), (''path'', PStr ''/b'')]),
     (''images'', PDict [(''base'', PDict [(''url'', PStr ''http://x'')]), (''child'', PDict [(''parent'', PStr ''base'')]),
       (''loop'', PDict [(''parent'', PStr ''loop'')])])]"

definition demo_tree :: pyval where
  "demo_tree = PDict [(''storage'', PDict [(''backend'', PStr ''btrfs''), (''path'', PStr ''/b'')]),
     (''images'', PDict [(''base'', PDict [(''url'', PStr ''http://x'')]), (''child'', PDict [(''parent'', PStr ''base'')])])]"

lemma demo_host_new_images:
  assumes "getitem cfg ''storage'' = Inr (PDict [(''backend'', PStr ''btrfs''), (''path'', PStr ''/b'')])"
  shows "\<exists>t. host_new E cfg None 0 demo_hostcfg (demo_vst []) = Some (Inr (demo_host cfg), t)"
  using demo_host_new_at [OF assms, of "demo_vst []" E 0] by (simp add: demo_vst_def demo_host_0)





text \<open>C18: an image that exists is not built again: \<^verbatim>\<open>build_image\<close> returns, having only listed the volumes of the host.\<close>

theorem build_image_existing:
  assumes "host_new E config k i c s0 = Some (Inr H, s1)" and "name \<notin> held"
    and "so_exist (h_ops H E) name s = Some (Inr True, u)"
  shows "build_image E H data held name s = Some (Inr (), u) \<and>
    (\<exists>t. u = s\<lparr>trace := trace s @ t\<rparr> \<and> list_all (listing_req (h_ssh H)) t)"
proof -
  have "storage_backend E (h_ops H E) (h_ssh H)" using host_new_vhost [OF assms(1)] by (simp add: vhost_def)
  then have "emits (listing_req (h_ssh H)) (so_exist (h_ops H E) name)" by (rule storage_backend.exist_listing)
  with assms(3) have "\<exists>t. u = s\<lparr>trace := trace s @ t\<rparr> \<and> list_all (listing_req (h_ssh H)) t" by (auto elim: emitsD)
  with assms(2,3) show ?thesis by (subst build_image.simps) (simp add: bnd_step)
qed

theorem build_image_existing_witness:
  "\<exists>u. build_image (demo_env [''ID 1 path base'']) (demo_host demo_images) [] {} ''base''
     (demo_vst [SshReady 0]) = Some (Inr (), u)"
proof -
  let ?E = "demo_env [''ID 1 path base'']"
  let ?H = "demo_host demo_images"
  obtain t where t: "host_new ?E demo_images None 0 demo_hostcfg (demo_vst []) = Some (Inr ?H, t)"
    using demo_host_new_images [of demo_images] by (auto simp: demo_images_def)
  have "map_option fst (so_exist (h_ops ?H ?E) ''base'' (demo_vst [SshReady 0])) = Some (Inr True)" by code_simp
  then obtain u where "so_exist (h_ops ?H ?E) ''base'' (demo_vst [SshReady 0]) = Some (Inr True, u)" by auto
  from build_image_existing [OF t _ this] show ?thesis by auto
qed


section \<open>The choice of a host\<close>

lemma keeps_try_hosts [keeps_intro]: "keeps outer (try_hosts E P need is)"
  by (induction "is") (simp_all only: try_hosts.simps, (intro keeps_intro | assumption)+)

lemma try_hosts_suitable:
  assumes "try_hosts E P need order s = Some (Inr (Some i), t)"
  shows "i \<in> set order \<and> (\<exists>maxla. bindR (getdef (p_cfg P) ''maxla'' (PInt 4)) num_val = Inr maxla \<and>
    suitable need maxla (hst t (hid (p_host P i))))"
  using assms
proof (induction order arbitrary: s)
  case (Cons j order)
  from Cons.prems obtain u maxla where u: "update_stats E (p_host P j) s = Some (Inr (), u)"
    "bindR (getdef (p_cfg P) ''maxla'' (PInt 4)) num_val = Inr maxla"
    "(if suitable need maxla (hst u (hid (p_host P j))) then ret (Some j) else try_hosts E P need order) u = Some (Inr (Some i), t)"
    by (auto elim!: bnd_InrE simp: liftR_def)
  show ?case
  proof (cases "suitable need maxla (hst u (hid (p_host P j)))")
    case True
    with u show ?thesis by auto
  next
    case False
    with u(3) have "try_hosts E P need order u = Some (Inr (Some i), t)" by simp
    from Cons.IH [OF this] show ?thesis by auto
  qed
qed simp

lemma shuffle_perm:
  assumes "random_ok E" and "random_shuffle E xs s = Some (Inr ys, t)"
  shows "set ys = set xs"
proof -
  have "ys = map (nth xs) (rnd_shuffle E (trace s) (length xs))" using assms(2) by (simp add: random_shuffle_def)
  moreover have "set (rnd_shuffle E (trace s) (length xs)) = {..<length xs}" using assms(1) by (simp add: random_ok_def)
  moreover have "nth xs ` {..<length xs} = set xs" by (auto simp: in_set_conv_nth)
  ultimately show ?thesis by (simp only: set_map)
qed

lemma choose_host_choice:
  assumes "random_ok E" and "choose_host E P need s = Some (Inr i, t)"
  shows "i \<in> set (host_order s) \<and> set (host_order t) = set (host_order s) \<and>
    (\<exists>maxla. bindR (getdef (p_cfg P) ''maxla'' (PInt 4)) num_val = Inr maxla \<and>
      suitable need maxla (hst t (hid (p_host P i))))"
proof -
  let ?Q = "\<lambda>P need (s :: 'a vst_scheme) i t. i \<in> set (host_order s) \<and> set (host_order t) = set (host_order s) \<and>
    (\<exists>maxla. bindR (getdef (p_cfg P) ''maxla'' (PInt 4)) num_val = Inr maxla \<and> suitable need maxla (hst t (hid (p_host P i))))"
  let ?R = "\<lambda>E' P need s (y :: nat result \<times> 'a vst_scheme). E' = E \<longrightarrow> (\<forall>i. fst y = Inr i \<longrightarrow> ?Q P need s i (snd y))"
  have "?R E P need s (Inr i :: nat result, t)"
  proof (rule choose_host.raw_induct [where P = ?R, OF _ assms(2)], intro impI allI)
    fix f :: "env \<Rightarrow> 'a prov \<Rightarrow> rat \<Rightarrow> ('a, nat) vprog" and E' P need and s :: "'a vst_scheme" and y i
    assume IH: "\<And>E' P need s y. f E' P need s = Some y \<Longrightarrow> ?R E' P need s y"
      and [simp]: "E' = E" and fy: "fst y = Inr i"
      and eq: "bnd (gets host_order) (\<lambda>order.
       bnd (random_shuffle E' order) (\<lambda>order'.
       bnd (modify (\<lambda>s. s\<lparr>host_order := order'\<rparr>)) (\<lambda>_.
       bnd (try_hosts E' P need order') (\<lambda>best.
       case best of
         None \<Rightarrow> bnd (sleep E' 30) (\<lambda>_. f E' P need)
       | Some i \<Rightarrow> ret i)))) s = Some y"
    obtain t where y: "y = (Inr i, t)" using fy by (cases y) auto
    from eq obtain order' u best w where sh: "random_shuffle E (host_order s) s = Some (Inr order', u)"
      and th: "try_hosts E P need order' (u\<lparr>host_order := order'\<rparr>) = Some (Inr best, w)"
      and fin: "(case best of None \<Rightarrow> bnd (sleep E 30) (\<lambda>_. f E P need) | Some i \<Rightarrow> ret i) w = Some (Inr i, t)"
      unfolding y by (auto elim!: bnd_InrE)
    have perm: "set order' = set (host_order s)" by (rule shuffle_perm [OF assms(1) sh])
    have "outer w = outer (u\<lparr>host_order := order'\<rparr>)" using th by (rule keepsD [OF keeps_try_hosts])
    then have ow: "host_order w = order'" by (simp add: outer_def)
    show "?Q P need s i (snd y)"
    proof (cases best)
      case None
      with fin obtain w' where w': "sleep E 30 w = Some (Inr (), w')" "f E P need w' = Some (Inr i, t)"
        by (auto elim!: bnd_InrE)
      have "host_order w' = order'" using w'(1) ow by (auto simp: sleep_def)
      with IH [OF w'(2)] perm show ?thesis by (simp add: y)
    next
      case (Some j)
      with fin have "j = i" "w = t" by simp_all
      with try_hosts_suitable [of E P need order' _ j w] th Some perm ow show ?thesis by (simp add: y)
    qed
  qed
  then show ?thesis by simp
qed


lemma advances_update_stats [adv_intro]: "advances (update_stats E H)"
  unfolding update_stats_def
  by (intro adv_intro advances_emits [where P = "\<lambda>_. True", OF emits_sh_output]) (simp_all add: upd_host_def)

lemma advances_try_hosts [adv_intro]: "advances (try_hosts E P need order)"
  by (induction order) (simp_all only: try_hosts.simps, (intro adv_intro | assumption)+)

lemma advances_choose_host [adv_intro]: "advances (choose_host E P need)"
proof (rule advancesI)
  fix s :: "'a vst_scheme" and r t
  assume ret: "choose_host E P need s = Some (r, t)"
  let ?R = "\<lambda>E P need s (y :: nat result \<times> 'a vst_scheme). prefix (trace s) (trace (snd y))"
  have "?R E P need s (r, t)"
  proof (rule choose_host.raw_induct [where P = ?R, OF _ ret])
    fix f :: "env \<Rightarrow> 'a prov \<Rightarrow> rat \<Rightarrow> ('a, nat) vprog" and E P need and s :: "'a vst_scheme" and y
    let ?body = "bnd (gets host_order) (\<lambda>order.
       bnd (random_shuffle E order) (\<lambda>order'.
       bnd (modify (\<lambda>s. s\<lparr>host_order := order'\<rparr>)) (\<lambda>_.
       bnd (try_hosts E P need order') (\<lambda>best.
       case best of
         None \<Rightarrow> bnd (sleep E 30) (\<lambda>_. f E P need)
       | Some i \<Rightarrow> ret i))))"
    assume IH: "\<And>E P need s y. f E P need s = Some y \<Longrightarrow> ?R E P need s y" and eq: "?body s = Some y"
    have kf: "advances (f E P need)" by (rule advancesI) (drule IH, simp)
    have "advances (case best of None \<Rightarrow> bnd (sleep E 30) (\<lambda>_. f E P need) | Some i \<Rightarrow> ret i)" for best
      by (cases best) (auto intro!: adv_intro kf)
    then have "advances ?body" by (intro adv_intro) simp_all
    from advancesD [OF this, of s "fst y" "snd y"] eq show "prefix (trace s) (trace (snd y))" by simp
  qed
  then show "prefix (trace s) (trace t)" by simp
qed

text \<open>C13: two placements of the provider are at least four seconds apart, whatever the hosts and the clock do in
  between: the time a successful \<^verbatim>\<open>get_vms\<close> records is at least four seconds after the previous one.\<close>

theorem prov_get_vms_spacing:
  assumes "clock_ok E" and "random_ok E"
    and hosts: "\<And>i. i \<in> set (host_order s) \<Longrightarrow>
      \<exists>config k c (s0 :: 'y vst_scheme) s1. host_new E config k i c s0 = Some (Inr (p_host P i), s1)"
    and "prov_get_vms E P data confs (s :: 'y vst_scheme) = Some (Inr vms, t)"
  shows "prov_last s + 4 \<le> prov_last t"
proof -
  let ?last = "prov_last s"
  let ?t0 = "clock E (trace s)"
  let ?s1 = "s\<lparr>trace := trace s @ [Clock]\<rparr>"
  from assms(4) obtain need u i w vs where
    nap: "(if ?last + 5 - ?t0 > 1 then sleep E (?last + 5 - ?t0) else ret ()) ?s1 = Some (Inr (), u)"
    and ch: "choose_host E P need u = Some (Inr i, w)"
    and go: "host_get_vms E (p_host P i) data confs [] (w\<lparr>trace := trace w @ [Clock], prov_last := clock E (trace w)\<rparr>) = Some (Inr vs, t)"
    unfolding prov_get_vms_def by (auto elim!: bnd_InrE simp: now_def liftR_def)
  have u: "host_order u = host_order s" and late: "?last + 4 \<le> clock E (trace u)"
  proof -
    show "host_order u = host_order s" using nap by (auto simp: sleep_def split: if_splits)
    show "?last + 4 \<le> clock E (trace u)"
    proof (cases "?last + 5 - ?t0 > 1")
      case True
      with nap have "trace u = (trace s @ [Clock]) @ [Sleep (?last + 5 - ?t0)]" by (auto simp: sleep_def)
      then have "clock E (trace s @ [Clock]) + (?last + 5 - ?t0) \<le> clock E (trace u)"
        using clock_ok_sleep [OF assms(1), of "trace s @ [Clock]"] by (simp only:)
      moreover have "?t0 \<le> clock E (trace s @ [Clock])" by (rule clock_ok_mono [OF assms(1)])
      ultimately show ?thesis by simp
    next
      case False
      with nap have "u = ?s1" by simp
      with False clock_ok_mono [OF assms(1), of "trace s" "[Clock]"] show ?thesis by simp
    qed
  qed
  have "i \<in> set (host_order s)" using choose_host_choice [OF assms(2) ch] u by simp
  from hosts [OF this] have "vhost E (p_host P i)" by (blast intro: host_new_vhost)
  from keepsD [OF vhost.keeps_host_get_vms [OF this] go] have "prov_last t = clock E (trace w)"
    by (simp add: outer_def)
  moreover have "clock E (trace u) \<le> clock E (trace w)" by (rule advances_clock [OF assms(1) advances_choose_host ch])
  ultimately show ?thesis using late by simp
qed

definition demo_stats :: "string list" where
  "demo_stats = [''12:00 up 1 day, load average: 0.50, 0.1'' @ [newline], ''Mem:  4000 1 2000 1 1 500'']"

definition demo_prov :: "unit prov" where
  "demo_prov = \<lparr>p_cfg = PDict [(''maxla'', PInt 2)], p_host = (\<lambda>_. demo_host demo_cfg)\<rparr>"

lemma demo_choose:
  "map_option fst (choose_host (demo_env demo_stats) demo_prov 1024 (demo_vst [SshReady 0])) = Some (Inr 0)"
  by (subst choose_host.simps) code_simp


lemma demo_place:
  "\<exists>t. prov_get_vms (demo_env demo_stats) demo_prov [] [] (demo_vst [SshReady 0]) = Some (Inr [], t)"
proof -
  let ?E = "demo_env demo_stats"
  let ?s = "(demo_vst [SshReady 0])\<lparr>trace := [SshReady 0, Clock, Sleep 5]\<rparr>"
  have "map_option fst (choose_host ?E demo_prov 1024 ?s) = Some (Inr 0)"
    by (subst choose_host.simps) code_simp
  then obtain w where w: "choose_host ?E demo_prov 1024 ?s = Some (Inr 0, w)" by auto
  have need: "memory_required (p_cfg demo_prov) [] = Inr 1024" by (simp add: memory_required_def demo_prov_def)
  have clk: "demo_clock [SshReady 0] = 0" by (simp add: demo_clock_def)
  with w need show ?thesis
    unfolding prov_get_vms_def by (simp add: bnd_def now_def demo_vst_def clk sleep_def yielding_def)
qed

theorem prov_get_vms_spacing_witness:
  "\<exists>t. prov_get_vms (demo_env demo_stats) demo_prov [] [] (demo_vst [SshReady 0]) = Some (Inr [], t) \<and>
     4 \<le> prov_last t"
proof -
  let ?E = "demo_env demo_stats"
  obtain t where t: "prov_get_vms ?E demo_prov [] [] (demo_vst [SshReady 0]) = Some (Inr [], t)"
    using demo_place by blast
  have "\<exists>config k c s0 s1. host_new ?E config k i c (s0 :: vst) = Some (Inr (p_host demo_prov i), s1)"
    if "i \<in> set (host_order (demo_vst [SshReady 0]))" for i
  proof -
    have "p_host demo_prov i = demo_host demo_cfg" "i = 0" using that by (simp_all add: demo_vst_def demo_prov_def)
    then show ?thesis using demo_host_new [of ?E] by metis
  qed
  from prov_get_vms_spacing [OF clock_ok_demo random_ok_demo this t] t show ?thesis by (auto simp: demo_vst_def)
qed

lemma healthy_add_nets:
  assumes "healthy E" and "\<forall>net \<in> set nets. \<exists>w. net = PStr w"
  shows "succeeds (is_ready (h_ssh H)) (add_nets E nets v)"
  using assms(2)
proof (induction nets arbitrary: v)
  case (Cons net nets)
  then obtain w where w: "net = PStr w" by auto
  have "succeeds (is_ready (h_ssh H)) (add_net_spec E net v)"
  proof (cases "split_on (CHR '' '') w")
    case (Cons b ms)
    then show ?thesis unfolding add_net_spec_def w by (cases ms) (simp_all add: healthy_vm(1) [OF assms(1)])
  qed (simp add: w)
  then show ?case unfolding add_nets.simps by (rule succeeds_bnd) (use Cons in auto)
qed (simp add: succeeds_atomic)

context vhost
begin

lemma healthy_get_vm:
  assumes "healthy E" and "getitem lcfg ''name'' = Inr (PStr nm)" and "opt_field conf ''image'' = Inr None"
    and "bindR (getitem conf ''net'') py_iter = Inr nets" and "\<forall>net \<in> set nets. \<exists>w. net = PStr w"
    and "bindR (getdef (if truthy conf then conf else PDict []) ''memory'' (PInt 1024)) py_str = Inr mem"
  shows "succeeds (is_ready (h_ssh H)) (get_vm E H data lcfg conf)"
  unfolding get_vm_def assms(2-4) bindR_simps as_str.simps liftR_simps bnd_ret option.case
  by (intro ok_intro succeed_ops assms(1) healthy_vm_new [OF assms(1,2,6)] healthy_add_nets [OF assms(1,5)]) simp_all

end


definition demo_vmconf :: pyval where
  "demo_vmconf = PDict [(''net'', PList [PStr ''br0 02:00'', PStr ''br1''])]"

definition demo_lcfg :: pyval where
  "demo_lcfg = PDict [(''name'', PStr ''vm'')]"

lemma demo_vmconf_facts:
  "getitem demo_lcfg ''name'' = Inr (PStr ''vm'')" "opt_field demo_vmconf ''image'' = Inr None"
  "bindR (getitem demo_vmconf ''net'') py_iter = Inr [PStr ''br0 02:00'', PStr ''br1'']"
  "\<forall>net \<in> set [PStr ''br0 02:00'', PStr ''br1'']. \<exists>w. net = PStr w"
  "bindR (getdef (if truthy demo_vmconf then demo_vmconf else PDict []) ''memory'' (PInt 1024)) py_str = Inr (int_str 1024)"
  by (simp_all add: demo_vmconf_def demo_lcfg_def opt_field_def opt_str_def)



section \<open>Shutdown and metadata\<close>



lemma dlookup_enum:
  "dlookup (map (\<lambda>(i, l). (''key-'' @ nat_str i, PStr l)) (filter (\<lambda>(i, l). l \<noteq> []) (enumerate n xs))) (''key-'' @ nat_str i) =
    (if n \<le> i \<and> i < n + length xs \<and> xs ! (i - n) \<noteq> [] then Some (PStr (xs ! (i - n))) else None)"
proof (induction xs arbitrary: n)
  case (Cons x xs)
  show ?case
  proof (cases "i = n")
    case True
    then show ?thesis using Cons [of "Suc n"] by simp
  next
    case False
    then show ?thesis using Cons [of "Suc n"] by (auto simp: nth_Cons' Suc_le_eq)
  qed
qed simp

text \<open>The metadata server hands out the key on line \<open>i\<close> of the authorized keys under the name \<open>key-i\<close>, every line that
  is not empty and nothing else.\<close>

theorem public_keys_lookup:
  "dlookup (public_keys ls) (''key-'' @ nat_str i) =
     (if i < length ls \<and> ls ! i \<noteq> [] then Some (PStr (ls ! i)) else None)"
  unfolding public_keys_def dlookup_enum by simp

section \<open>What the provider keeps, and when it returns\<close>

lemma keeps_outer_more: "keeps outer m \<Longrightarrow> keeps vst.more m"
  by (rule keepsI, drule keepsD, assumption) (simp add: outer_def)

lemma keeps_more_prims [keeps_intro]:
  "keeps vst.more (sleep E t)" "keeps vst.more (now E)" "keeps vst.more (random_shuffle E xs)"
  "keeps vst.more (try_hosts E P need order)"
  by (rule keeps_outer_more, intro keeps_intro)+

lemma keeps_choose_host [keeps_intro]: "keeps vst.more (choose_host E P need)"
proof (rule keepsI)
  fix s :: "'a vst_scheme" and r t
  assume ret: "choose_host E P need s = Some (r, t)"
  let ?R = "\<lambda>E P need s (y :: nat result \<times> 'a vst_scheme). vst.more (snd y) = vst.more s"
  have "?R E P need s (r, t)"
  proof (rule choose_host.raw_induct [where P = ?R, OF _ ret])
    fix f :: "env \<Rightarrow> 'a prov \<Rightarrow> rat \<Rightarrow> ('a, nat) vprog" and E P need and s :: "'a vst_scheme" and y
    define B where "B = bnd (gets host_order) (\<lambda>order.
       bnd (random_shuffle E order) (\<lambda>order'.
       bnd (modify (\<lambda>s. s\<lparr>host_order := order'\<rparr>)) (\<lambda>_.
       bnd (try_hosts E P need order') (\<lambda>best.
       case best of
         None \<Rightarrow> bnd (sleep E 30) (\<lambda>_. f E P need)
       | Some i \<Rightarrow> ret i))))"
    assume IH: "\<And>E P need s y. f E P need s = Some y \<Longrightarrow> ?R E P need s y"
      and eq: "bnd (gets host_order) (\<lambda>order.
       bnd (random_shuffle E order) (\<lambda>order'.
       bnd (modify (\<lambda>s. s\<lparr>host_order := order'\<rparr>)) (\<lambda>_.
       bnd (try_hosts E P need order') (\<lambda>best.
       case best of
         None \<Rightarrow> bnd (sleep E 30) (\<lambda>_. f E P need)
       | Some i \<Rightarrow> ret i)))) s = Some y"
    have kf: "keeps vst.more (f E P need)" by (rule keepsI) (drule IH, simp)
    have k: "keeps vst.more B" unfolding B_def by (intro keeps_intro kf) simp
    have "B s = Some (fst y, snd y)" using eq unfolding B_def prod.collapse .
    from keepsD [OF k this] show "vst.more (snd y) = vst.more s" .
  qed
  then show "vst.more t = vst.more s" by simp
qed

text \<open>The hosts of a provider: every one keeps the contract of its storage back end.\<close>

locale placement =
  fixes P :: "'y prov"
  assumes hosts: "vhost E (p_host P i)"
begin

lemma keeps_prov_get_vms: "keeps vst.more (prov_get_vms E P data confs)"
proof -
  have "keeps vst.more (host_get_vms E (p_host P i) data confs [])" for i
    by (rule keeps_outer_more [OF vhost.keeps_host_get_vms [OF hosts]])
  then show ?thesis unfolding prov_get_vms_def by (intro keeps_intro) simp_all
qed

lemma keeps_prov_cleanup: "keeps vst.more (prov_cleanup E P vms)"
proof -
  have "keeps vst.more (vm_destroy E (p_host P i) v True)" for i v
    by (rule keeps_outer_more [OF vhost.keeps_vm_destroy [OF hosts]])
  then show ?thesis unfolding prov_cleanup_def by (intro keeps_intro)
qed

lemma returns_prov_cleanup: "clock_ok E \<Longrightarrow> returns (prov_cleanup E P vms)"
  unfolding prov_cleanup_def by (intro total_intro vhost.returns_vm_destroy [OF hosts])

end

interpretation btrfs_site: placement
  "\<lparr>p_cfg = c, p_host = (\<lambda>i. (H i)\<lparr>h_ssh := st_ssh (st i), h_ops := (\<lambda>E. btrfs_ops E (st i))\<rparr>)\<rparr>" for c H st
  by (rule placement.intro) (simp add: btrfs_host.vhost_axioms)

interpretation zfs_site: placement
  "\<lparr>p_cfg = c, p_host = (\<lambda>i. (H i)\<lparr>h_ssh := st_ssh (st i), h_ops := (\<lambda>E. zfs_ops E (st i))\<rparr>)\<rparr>" for c H st
  by (rule placement.intro) (simp add: zfs_host.vhost_axioms)

section \<open>Placement under a deadline\<close>

text \<open>\<open>ends I m\<close>: from a state with \<open>I\<close> the program returns or raises.\<close>

definition ends :: "('s \<Rightarrow> bool) \<Rightarrow> ('s, 'a) prog \<Rightarrow> bool" where
  "ends I m \<longleftrightarrow> (\<forall>s. I s \<longrightarrow> (\<exists>y. m s = Some y))"

lemma ends_returns: "returns m \<Longrightarrow> ends I m"
  unfolding ends_def returns_def by blast

lemma ends_honest_bnd:
  assumes "returns m" and "honest I m" and "\<And>a. ends I (f a)"
  shows "ends I (bnd m f)"
  unfolding ends_def
proof (intro allI impI)
  fix s
  assume I: "I s"
  obtain r t where rt: "m s = Some (r, t)" using assms(1) by (rule totalE)
  show "\<exists>y. bnd m f s = Some y"
  proof (cases r)
    case (Inr a)
    with honestD [OF assms(2) rt I] have "I t" by simp
    with assms(3) [of a] rt Inr show ?thesis by (simp add: ends_def bnd_run)
  qed (use rt in \<open>simp add: bnd_run\<close>)
qed

lemma ends_bnd_returns:
  assumes "ends I m" and "\<And>a. returns (f a)"
  shows "ends I (bnd m f)"
  unfolding ends_def
proof (intro allI impI)
  fix s
  assume "I s"
  then obtain r t where rt: "m s = Some (r, t)" using assms(1) by (auto simp: ends_def)
  show "\<exists>y. bnd m f s = Some y"
  proof (cases r)
    case (Inr a)
    obtain r' t' where "f a t = Some (r', t')" using assms(2) [of a] by (rule totalE)
    with rt Inr show ?thesis by (simp add: bnd_run)
  qed (use rt in \<open>simp add: bnd_run\<close>)
qed

lemma on_time_vst [simp]:
  "on_time E D n (upd_host i g s) = on_time E D n s" "on_time E D n (s\<lparr>host_order := x\<rparr>) = on_time E D n s"
  "on_time E D n (s\<lparr>prov_last := l\<rparr>) = on_time E D n s"
  by (simp_all add: on_time_def upd_host_def)

lemma honest_try_hosts [honest_intro]: "honest (on_time E D n) (try_hosts (with_deadline E D n) P need order)"
proof (induction order)
  case (Cons i order)
  have "honest (on_time E D n) (update_stats (with_deadline E D n) (p_host P i))"
    unfolding update_stats_def by (intro honest_intro) simp
  with Cons show ?case unfolding try_hosts.simps by (intro honest_intro)
qed (simp only: try_hosts.simps honest_atomic)

lemma returns_try_hosts: "clock_ok E \<Longrightarrow> returns (try_hosts E P need order)"
proof (induction order)
  case (Cons i order)
  then show ?case unfolding try_hosts.simps by (intro total_intro)
qed (simp only: try_hosts.simps total_atomic)

text \<open>The loop ends at the deadline at the latest: the first wait that is not over by then is cancelled.\<close>

lemma choose_host_ends:
  assumes "clock_ok E" and "on_time E D n s" and "D - clock E (trace s) < of_nat k"
  shows "\<exists>y. choose_host (with_deadline E D n) P need s = Some y"
  using assms(2,3)
proof (induction k arbitrary: s rule: less_induct)
  let ?E = "with_deadline E D n"
  case (less k)
  let ?ys = "map (nth (host_order s)) (rnd_shuffle ?E (trace s) (length (host_order s)))"
  let ?s1 = "s\<lparr>trace := trace s @ [Shuffle (length (host_order s))], host_order := ?ys\<rparr>"
  have sh: "random_shuffle ?E (host_order s) s = Some (Inr ?ys, s\<lparr>trace := trace s @ [Shuffle (length (host_order s))]\<rparr>)"
    by (simp add: random_shuffle_def)
  have "on_time E D n (s\<lparr>trace := trace s @ [Shuffle (length (host_order s))]\<rparr>)"
    using honestD [OF honest_nonwaiting(2) sh less.prems(1)] by simp
  then have on1: "on_time E D n ?s1" by (simp add: on_time_def)
  obtain r t where th: "try_hosts ?E P need ?ys ?s1 = Some (r, t)"
    using returns_try_hosts [of ?E P need ?ys] assms(1) unfolding returns_def with_deadline_clock by blast
  have clk: "clock E (trace s) \<le> clock E (trace t)"
  proof -
    have "clock E (trace ?s1) \<le> clock E (trace t)"
      by (rule advances_clock [OF assms(1) advances_try_hosts th])
    with clock_ok_mono [OF assms(1), of "trace s" "[Shuffle (length (host_order s))]"] show ?thesis by simp
  qed
  have again: "\<exists>y. bnd (sleep ?E 30) (\<lambda>_. choose_host ?E P need) t = Some y" if r: "r = Inr None"
  proof -
    let ?t1 = "t\<lparr>trace := trace t @ [Sleep 30]\<rparr>"
    have ont: "on_time E D n t" using honestD [OF honest_try_hosts th on1] r by simp
    consider "sleep ?E 30 t = Some (Inl CancelledError, ?t1)" | "sleep ?E 30 t = Some (Inr (), ?t1)"
      by (cases "cancelled ?E (trace t @ [Sleep 30])") (simp_all add: sleep_def yielding_def)
    then show ?thesis
    proof cases
      case 2
      have on2: "on_time E D n ?t1" using honestD [OF honest_sleep 2 ont] by simp
      have "\<not> D \<le> clock E (trace t @ [Sleep 30])" using on2 ont by (simp add: on_time_def timed_out_snoc)
      moreover have "clock E (trace s) + 30 \<le> clock E (trace t @ [Sleep 30])"
        using clock_ok_sleep [OF assms(1), of "trace t" 30] clk by simp
      ultimately have "0 < D - clock E (trace s)" "D - clock E (trace ?t1) < D - clock E (trace s) - 1" by simp_all
      moreover from this less.prems(2) obtain k' where "k = Suc k'" by (cases k) auto
      ultimately have "k' < k" "D - clock E (trace ?t1) < of_nat k'" using less.prems(2) by simp_all
      from less.IH [OF this(1) on2 this(2)] 2 show ?thesis by (simp add: bnd_run)
    qed (simp add: bnd_run)
  qed
  have "\<exists>y. bnd (try_hosts ?E P need ?ys) (\<lambda>best.
       case best of None \<Rightarrow> bnd (sleep ?E 30) (\<lambda>_. choose_host ?E P need) | Some i \<Rightarrow> ret i) ?s1 = Some y"
    using th again by (cases r) (auto simp: bnd_run split: option.splits)
  then show ?case by (subst choose_host.simps) (simp add: bnd_run(3) [where m = "random_shuffle ?E (host_order s)", OF sh])
qed


lemma ends_choose_host: "clock_ok E \<Longrightarrow> ends (on_time E D n) (choose_host (with_deadline E D n) P need)"
  unfolding ends_def
proof (intro allI impI)
  fix s :: "'a vst_scheme"
  assume "clock_ok E" "on_time E D n s"
  moreover obtain k :: nat where "D - clock E (trace s) < of_nat k" using reals_Archimedean2 by blast
  ultimately show "\<exists>y. choose_host (with_deadline E D n) P need s = Some y" by (rule choose_host_ends)
qed

context placement
begin

lemma prov_get_vms_ends:
  assumes "clock_ok E" and "\<And>i m p. image_parent (p_host P i) m = Some p \<Longrightarrow> (rank :: string \<Rightarrow> nat) p < rank m"
  shows "ends (on_time E D n) (prov_get_vms (with_deadline E D n) P data confs)"
proof -
  have "returns (host_get_vms (with_deadline E D n) (p_host P i) data confs [])" for i
    using assms by (intro vhost.returns_host_get_vms [OF hosts]) simp_all
  then show ?thesis
    unfolding prov_get_vms_def using assms(1)
    by (intro ends_honest_bnd ends_bnd_returns [OF ends_choose_host] honest_intro total_intro)
qed

end

section \<open>The hosts of a started provider\<close>

lemma hosts_new_result:
  assumes "hosts_new E config k i cs s = Some (Inr hs, t)"
  shows "length hs = length cs \<and> (\<forall>j < length hs. \<exists>s0 s1. host_new E config k (i + j) (cs ! j) s0 = Some (Inr (hs ! j), s1))"
  using assms
proof (induction cs arbitrary: i s hs)
  case (Cons c cs)
  from Cons.prems obtain h u hs' where h: "host_new E config k i c s = Some (Inr h, u)"
    and hs: "hosts_new E config k (Suc i) cs u = Some (Inr hs', t)" "hs = h # hs'"
    by (auto elim!: bnd_InrE)
  have IH: "length hs' = length cs" "\<And>j. j < length hs' \<Longrightarrow> \<exists>s0 s1. host_new E config k (Suc i + j) (cs ! j) s0 = Some (Inr (hs' ! j), s1)"
    using Cons.IH [OF hs(1)] by auto
  have "\<exists>s0 s1. host_new E config k (i + j) ((c # cs) ! j) s0 = Some (Inr (hs ! j), s1)" if "j < length hs" for j
    using that h IH(2) hs(2) by (cases j) auto
  with IH(1) hs(2) show ?case by simp
qed simp

text \<open>Every host of a provider that has started is one that \<^verbatim>\<open>Host.__init__\<close> made, in the order of the configuration: the contract \<open>vhost\<close>
  holds of all of them.\<close>

lemma provider_start_hosts:
  assumes "provider_start E config s = Some (Inr hs, t)" and "j < length hs"
  shows "\<exists>k cs s0 s1. bindR (getitem config ''hosts'') py_iter = Inr cs \<and> length hs = length cs \<and>
    host_new E config k j (cs ! j) s0 = Some (Inr (hs ! j), s1) \<and> host_order t = [0..<length hs]"
proof -
  from assms(1) obtain k cs u v where cs: "bindR (getitem config ''hosts'') py_iter = Inr cs"
    and new: "hosts_new E config k 0 cs u = Some (Inr hs, v)" and t: "t = v\<lparr>host_order := [0..<length hs]\<rparr>"
    by (auto simp: provider_start_def liftR_def elim!: bnd_InrE)
  from hosts_new_result [OF new] assms(2) obtain s0 s1 where
    "length hs = length cs" "host_new E config k j (cs ! j) s0 = Some (Inr (hs ! j), s1)" by auto
  with cs t show ?thesis by auto
qed

section \<open>A download that fails\<close>

lemma sh_fails:
  assumes "is_ready h s"
    and "spawn E (trace s) (ssh_argv h None (CmdStr cmd)) None = \<lparr>p_lines = l # ls, p_status = Exited rc\<rparr>" and "rc \<noteq> 0"
  shows "\<exists>msg. sh E h cmd s = Some (Inl (SSHError msg), s\<lparr>trace := trace s @ [Exec (ssh_argv h None (CmdStr cmd)) None]\<rparr>)"
  using assms unfolding sh_def by (simp add: bnd_run ssh_run_ready finish_run_def)

lemma btrfs_exist_ready:
  assumes "is_ready (st_ssh st) s"
    and "spawn E (trace s) (ssh_argv (st_ssh st) None (CmdStr (''btrfs subvolume list '' @ st_path st))) None = \<lparr>p_lines = ls, p_status = Exited 0\<rparr>"
    and "re_search ('' '' @ name @ ''$'') (strip (concat ls)) = Inr r"
  shows "btrfs_exist E st name s = Some (Inr (r \<noteq> None),
    s\<lparr>trace := trace s @ [Exec (ssh_argv (st_ssh st) None (CmdStr (''btrfs subvolume list '' @ st_path st))) None]\<rparr>)"
  unfolding btrfs_exist_def using sh_output_ready [OF assms(1,2)] assms(3) by (simp add: bnd_run)


definition broken_env :: env where
  "broken_env = (demo_env [])\<lparr>spawn := (\<lambda>tr argv i.
     if ''wget'' \<in> set argv then \<lparr>p_lines = [''failed''], p_status = Exited 8\<rparr>
     else if ''list'' \<in> set argv then
       \<lparr>p_lines = (if Exec (ssh_argv demo_ssh None (CmdStr ''btrfs subvolume create /b/base'')) None \<in> set tr then [''ID 1 path base''] else []),
         p_status = Exited 0\<rparr>
     else \<lparr>p_lines = [], p_status = Exited 0\<rparr>)\<rparr>"

definition url_images :: pyval where
  "url_images = PDict [(''images'', PDict [(''base'', PDict [(''url'', PStr ''http://x'')])])]"


end
