(* ===== verification/Net.thy ===== *)
theory Net
  imports Provider
begin

text \<open>
  The dynamic bridges of one host when placements and destructions of machines interleave: \<^verbatim>\<open>_get_bridge\<close>, the end of \<^verbatim>\<open>get_vms\<close>, the end of
  \<^verbatim>\<open>VM.destroy\<close> and \<^verbatim>\<open>cleanup_net\<close> of \<^verbatim>\<open>rallyci/providers/virsh.py\<close> cut at their suspension points, with the lock that two of them
  take. A coroutine places one machine on one dynamic network and destroys it later. The commands \<^verbatim>\<open>ip link\<close> act on the interfaces of the host
  as documented: adding an existing one and deleting a missing one fails; what the listing prints is a parameter.
  The theories \<open>Vm\<close> and \<open>Host\<close> model the same methods run alone, and a refinement at the end relates the two.
\<close>

section \<open>The state\<close>

text \<open>Where the coroutine of a machine is. The machine \<open>i\<close> belongs to the coroutine \<open>i\<close>.\<close>

datatype npc =
    Want string        \<comment> \<open>about to call \<^verbatim>\<open>_get_bridge\<close> with this prefix\<close>
  | Listing string     \<comment> \<open>has the lock, waits for \<^verbatim>\<open>ip link list\<close>\<close>
  | Adding string      \<comment> \<open>has the lock, waits for \<^verbatim>\<open>ip link add\<close> of this bridge\<close>
  | Upping string      \<comment> \<open>has the lock, waits for \<^verbatim>\<open>ip link set\<close>\<close>
  | Booting string     \<comment> \<open>the bridge was returned, the machine is being created\<close>
  | Live string        \<comment> \<open>the machine is listed at its bridge\<close>
  | Leaving            \<comment> \<open>in \<^verbatim>\<open>destroy\<close>, off the list, about to call \<^verbatim>\<open>cleanup_net\<close>\<close>
  | Deleting nat nat "string option list"
      \<comment> \<open>has the lock, waits for \<^verbatim>\<open>ip link del\<close> of the entry at a position; the size the loop began with; \<^verbatim>\<open>clean\<close>\<close>
  | Gone
  | Unbooted           \<comment> \<open>the creation of the machine raised\<close>
  | Failed             \<comment> \<open>a command on the bridges failed\<close>
  | Crashed            \<comment> \<open>\<^verbatim>\<open>RuntimeError: dictionary changed size during iteration\<close>\<close>

record net =
  n_lock :: "nat option"                          \<comment> \<open>\<^verbatim>\<open>DYNAMIC_BRIDGE_LOCK\<close>\<close>
  n_ifaces :: "string list"                       \<comment> \<open>the interfaces of the host\<close>
  n_table :: "(string option \<times> nat list) list"    \<comment> \<open>\<^verbatim>\<open>Host.br_vm\<close>\<close>
  n_pc :: "nat \<Rightarrow> npc"

definition goto :: "nat \<Rightarrow> npc \<Rightarrow> net \<Rightarrow> net" where
  "goto i p N = N\<lparr>n_pc := (n_pc N)(i := p)\<rparr>"

definition unlock :: "net \<Rightarrow> net" where
  "unlock N = N\<lparr>n_lock := None\<rparr>"

section \<open>Getting a bridge\<close>

definition pick_bridge :: "(string list \<Rightarrow> string) \<Rightarrow> string list \<Rightarrow> string \<Rightarrow> string option" where
  "pick_bridge lister ifs pfx = (case used_nums pfx (lister ifs) of
     Inl e \<Rightarrow> None
   | Inr nums \<Rightarrow> map_option (\<lambda>k. pfx @ nat_str k) (free_num nums))"

definition bridge_begin :: "nat \<Rightarrow> string \<Rightarrow> net \<Rightarrow> net option" where
  "bridge_begin i pfx N = (if n_lock N = None then Some (goto i (Listing pfx) (N\<lparr>n_lock := Some i\<rparr>)) else None)"

definition bridge_list :: "(string list \<Rightarrow> string) \<Rightarrow> nat \<Rightarrow> string \<Rightarrow> net \<Rightarrow> net" where
  "bridge_list lister i pfx N = (case pick_bridge lister (n_ifaces N) pfx of
     None \<Rightarrow> goto i Failed (unlock N)
   | Some br \<Rightarrow> goto i (Adding br) N)"

definition bridge_add :: "nat \<Rightarrow> string \<Rightarrow> net \<Rightarrow> net" where
  "bridge_add i br N =
     (if br \<in> set (n_ifaces N) then goto i Failed (unlock N)
      else goto i (Upping br) (N\<lparr>n_ifaces := n_ifaces N @ [br]\<rparr>))"

definition bridge_up :: "nat \<Rightarrow> string \<Rightarrow> net \<Rightarrow> net" where
  "bridge_up i br N =
     (if br \<in> set (n_ifaces N) then goto i (Booting br) (unlock N) else goto i Failed (unlock N))"

text \<open>The end of an iteration of \<^verbatim>\<open>Host.get_vms\<close>.\<close>

definition vm_listed :: "nat \<Rightarrow> string \<Rightarrow> net \<Rightarrow> net" where
  "vm_listed i br N = goto i (Live br) (N\<lparr>n_table := br_add (Some br) i (n_table N)\<rparr>)"

section \<open>Giving it back\<close>

definition vm_unlisted :: "nat \<Rightarrow> string \<Rightarrow> net \<Rightarrow> net" where
  "vm_unlisted i br N = goto i Leaving (N\<lparr>n_table := drop_from_bridge i (n_table N) br\<rparr>)"

text \<open>The loop of \<^verbatim>\<open>cleanup_net\<close> up to the next command, or to its end.\<close>

definition next_empty :: "nat \<Rightarrow> (string option \<times> nat list) list \<Rightarrow> nat option" where
  "next_empty k m = List.find (\<lambda>j. snd (m ! j) = []) [k..<length m]"

definition net_scan :: "nat \<Rightarrow> nat \<Rightarrow> nat \<Rightarrow> string option list \<Rightarrow> net \<Rightarrow> net" where
  "net_scan i k n clean N = (case next_empty k (n_table N) of
     Some j \<Rightarrow> goto i (Deleting j n clean) N
   | None \<Rightarrow> goto i Gone (unlock (N\<lparr>n_table := filter (\<lambda>(b, vms). b \<notin> set clean) (n_table N)\<rparr>)))"

definition cleanup_begin :: "nat \<Rightarrow> net \<Rightarrow> net option" where
  "cleanup_begin i N =
     (if n_lock N = None then Some (net_scan i 0 (length (n_table N)) [] (N\<lparr>n_lock := Some i\<rparr>)) else None)"

definition cleanup_delete :: "nat \<Rightarrow> nat \<Rightarrow> nat \<Rightarrow> string option list \<Rightarrow> net \<Rightarrow> net" where
  "cleanup_delete i j n clean N =
     (let br = fst (n_table N ! j) in
      if br_str br \<notin> set (n_ifaces N) then goto i Failed (unlock N)
      else let N1 = N\<lparr>n_ifaces := remove1 (br_str br) (n_ifaces N)\<rparr> in
        if length (n_table N) \<noteq> n then goto i Crashed (unlock N1)
        else net_scan i (Suc j) n (clean @ [br]) N1)"

section \<open>Steps\<close>

datatype net_event = NStep nat | NBootFails nat

definition net_step :: "(string list \<Rightarrow> string) \<Rightarrow> net_event \<Rightarrow> net \<Rightarrow> net option" where
  "net_step lister e N = (case e of
     NStep i \<Rightarrow> (case n_pc N i of
         Want pfx \<Rightarrow> bridge_begin i pfx N
       | Listing pfx \<Rightarrow> Some (bridge_list lister i pfx N)
       | Adding br \<Rightarrow> Some (bridge_add i br N)
       | Upping br \<Rightarrow> Some (bridge_up i br N)
       | Booting br \<Rightarrow> Some (vm_listed i br N)
       | Live br \<Rightarrow> Some (vm_unlisted i br N)
       | Leaving \<Rightarrow> cleanup_begin i N
       | Deleting j n clean \<Rightarrow> Some (cleanup_delete i j n clean N)
       | _ \<Rightarrow> None)
   | NBootFails i \<Rightarrow> (case n_pc N i of Booting br \<Rightarrow> Some (goto i Unbooted N) | _ \<Rightarrow> None))"

fun net_run :: "(string list \<Rightarrow> string) \<Rightarrow> net_event list \<Rightarrow> net \<Rightarrow> net option" where
  "net_run lister [] N = Some N"
| "net_run lister (e # es) N = Option.bind (net_step lister e N) (net_run lister es)"

definition net_init :: "string list \<Rightarrow> (nat \<Rightarrow> string) \<Rightarrow> net" where
  "net_init ifs pfx = \<lparr>n_lock = None, n_ifaces = ifs, n_table = [], n_pc = (\<lambda>i. Want (pfx i))\<rparr>"

text \<open>The names the kernel allows, and what \<^verbatim>\<open>ip link list\<close> documents: a numbered line for each interface.\<close>

definition iface_name :: "string \<Rightarrow> bool" where
  "iface_name x \<longleftrightarrow> x \<noteq> [] \<and> list_all (\<lambda>c. \<not> is_space c \<and> c \<noteq> CHR ''/'' \<and> c \<noteq> CHR '':'') x"

definition listing_ok :: "(string list \<Rightarrow> string) \<Rightarrow> bool" where
  "listing_ok lister \<longleftrightarrow> (\<forall>ifs. \<forall>x \<in> set ifs. iface_name x \<longrightarrow>
     (\<exists>k rest. nat_str k @ '': '' @ x @ '': '' @ rest \<in> set (splitlines (lister ifs))))"

section \<open>A crashed cleanup\<close>

fun numbered :: "nat \<Rightarrow> string list \<Rightarrow> string list" where
  "numbered k [] = []"
| "numbered k (x # xs) = (nat_str k @ '': '' @ x @ '': <UP>'') # numbered (Suc k) xs"

definition demo_show :: "string list \<Rightarrow> string" where
  "demo_show ifs = join [newline] (numbered 1 (filter iface_name ifs))"

definition crash_run :: "net_event list" where
  "crash_run = map NStep ([0, 0, 0, 0, 0] @ [1, 1, 1, 1] @ [0, 0] @ [1] @ [0] @ [2, 2, 2, 2] @ [1, 1, 1, 1] @ [2])"

lemma crash_state:
  "map_option (\<lambda>N. (n_ifaces N, n_table N, map (n_pc N) [0, 1, 2])) (net_run demo_show crash_run (net_init [''lo''] (\<lambda>_. ''br'')))
     = Some ([''lo''], [(Some ''br0'', [2])], [Crashed, Gone, Live ''br0''])"
  by code_simp

section \<open>The invariant\<close>

fun owns :: "npc \<Rightarrow> string \<Rightarrow> bool" where
  "owns (Upping b) br \<longleftrightarrow> b = br"
| "owns (Booting b) br \<longleftrightarrow> b = br"
| "owns (Live b) br \<longleftrightarrow> b = br"
| "owns _ br \<longleftrightarrow> False"

fun locked :: "npc \<Rightarrow> bool" where
  "locked (Listing pfx) \<longleftrightarrow> True"
| "locked (Adding br) \<longleftrightarrow> True"
| "locked (Upping br) \<longleftrightarrow> True"
| "locked (Deleting j n clean) \<longleftrightarrow> True"
| "locked _ \<longleftrightarrow> False"

fun cleaning :: "npc \<Rightarrow> string option set" where
  "cleaning (Deleting j n clean) = set clean"
| "cleaning _ = {}"

definition lock_inv :: "net \<Rightarrow> bool" where
  "lock_inv N \<longleftrightarrow> (\<forall>i. locked (n_pc N i) \<longleftrightarrow> n_lock N = Some i)"

definition owner_inv :: "net \<Rightarrow> bool" where
  "owner_inv N \<longleftrightarrow> distinct (n_ifaces N) \<and>
     (\<forall>i br. owns (n_pc N i) br \<longrightarrow> br \<in> set (n_ifaces N) \<and> (\<forall>j. owns (n_pc N j) br \<longrightarrow> j = i)) \<and>
     (\<forall>i. n_pc N i \<noteq> Failed) \<and>
     (\<forall>i pfx. n_pc N i = Want pfx \<or> n_pc N i = Listing pfx \<longrightarrow> lower_word pfx) \<and>
     (\<forall>i br. n_pc N i = Adding br \<longrightarrow> br \<notin> set (n_ifaces N))"

definition entry_ok :: "net \<Rightarrow> string \<Rightarrow> nat list \<Rightarrow> bool" where
  "entry_ok N br vms \<longleftrightarrow>
     (br \<in> set (n_ifaces N) \<or> (\<exists>i. Some br \<in> cleaning (n_pc N i))) \<and>
     distinct vms \<and> (\<forall>v. v \<in> set vms \<longleftrightarrow> n_pc N v = Live br) \<and> (\<forall>i. owns (n_pc N i) br \<longrightarrow> n_pc N i = Live br)"

definition table_inv :: "net \<Rightarrow> bool" where
  "table_inv N \<longleftrightarrow> distinct (map fst (n_table N)) \<and>
     (\<forall>(b, vms) \<in> set (n_table N). \<exists>br. b = Some br \<and> entry_ok N br vms) \<and>
     (\<forall>i br. n_pc N i = Live br \<longrightarrow> Some br \<in> fst ` set (n_table N))"

definition clean_inv :: "net \<Rightarrow> bool" where
  "clean_inv N \<longleftrightarrow> (\<forall>i j n clean. n_pc N i = Deleting j n clean \<longrightarrow>
     j < length (n_table N) \<and> snd (n_table N ! j) = [] \<and> set clean \<subseteq> fst ` set (take j (n_table N)) \<and>
     (\<forall>br. Some br \<in> set clean \<longrightarrow> br \<notin> set (n_ifaces N)))"

definition net_inv :: "net \<Rightarrow> bool" where
  "net_inv N \<longleftrightarrow> lock_inv N \<and> owner_inv N \<and> table_inv N \<and> clean_inv N"

lemma goto_simps [simp]:
  "n_pc (goto i p N) = (n_pc N)(i := p)" "n_lock (goto i p N) = n_lock N" "n_ifaces (goto i p N) = n_ifaces N"
  "n_table (goto i p N) = n_table N" "n_pc (unlock N) = n_pc N" "n_lock (unlock N) = None" "n_ifaces (unlock N) = n_ifaces N"
  "n_table (unlock N) = n_table N"
  by (simp_all add: goto_def unlock_def)

lemma cleaning_locked: "b \<in> cleaning p \<Longrightarrow> locked p"
  by (cases p) auto

lemma owns_pc: "owns p br \<longleftrightarrow> p = Upping br \<or> p = Booting br \<or> p = Live br"
  by (cases p) auto

lemma iface_lower:
  assumes "lower_word w"
  shows "iface_name (w @ nat_str k)"
proof -
  have "\<not> is_space c \<and> c \<noteq> CHR ''/'' \<and> c \<noteq> CHR '':''" if "amatch (Range (CHR ''a'') (CHR ''z'')) c \<or> is_digit c" for c
    using that by (auto simp: is_space_def is_digit_def)
  then show ?thesis using assms nat_str_digits by (auto simp: iface_name_def lower_word_def list_all_iff)
qed

lemma pick_fresh:
  assumes "listing_ok lister" and "lower_word pfx"
  shows "\<exists>br. pick_bridge lister ifs pfx = Some br \<and> br \<notin> set ifs"
proof -
  let ?nums = "concat (map (line_nums pfx) (splitlines (lister ifs)))"
  obtain k where k: "free_num (remdups ?nums) = Some k" "k \<notin> set ?nums" using free_num_spec [of "remdups ?nums"] by auto
  have "pfx @ nat_str k \<notin> set ifs"
  proof
    assume "pfx @ nat_str k \<in> set ifs"
    with assms(1) iface_lower [OF assms(2), of k] obtain m rest where "nat_str m @ '': '' @ (pfx @ nat_str k) @ '': '' @ rest \<in> set (splitlines (lister ifs))"
      unfolding listing_ok_def by blast
    then have "k \<in> set ?nums" by (intro used_nums_mem [OF assms(2), of m k rest]) (simp only: append_assoc)
    with k(2) show False ..
  qed
  then show ?thesis using k(1) by (auto simp: pick_bridge_def used_nums_eq)
qed

lemma table_invD:
  assumes "table_inv N" and "(b, vms) \<in> set (n_table N)"
  obtains br where "b = Some br" "entry_ok N br vms"
  using assms unfolding table_inv_def by blast

lemma table_inv_entry: "table_inv N \<Longrightarrow> (Some br, vms) \<in> set (n_table N) \<Longrightarrow> entry_ok N br vms"
  by (erule table_invD, assumption) simp

lemma table_inv_key: "table_inv N \<Longrightarrow> (b, vms) \<in> set (n_table N) \<Longrightarrow> \<exists>br. b = Some br"
  by (erule table_invD, assumption) simp

lemma table_inv_live: "table_inv N \<Longrightarrow> n_pc N i = Live br \<Longrightarrow> Some br \<in> fst ` set (n_table N)"
  by (auto simp: table_inv_def)

lemma table_invI:
  assumes "distinct (map fst (n_table N))" and "\<And>b vms. (b, vms) \<in> set (n_table N) \<Longrightarrow> \<exists>br. b = Some br"
    and "\<And>br vms. (Some br, vms) \<in> set (n_table N) \<Longrightarrow> entry_ok N br vms"
    and "\<And>i br. n_pc N i = Live br \<Longrightarrow> Some br \<in> fst ` set (n_table N)"
  shows "table_inv N"
  unfolding table_inv_def using assms by blast

text \<open>A step of a coroutine that neither is nor becomes live, and that keeps what it is cleaning.\<close>

lemma table_inv_frame:
  assumes inv: "table_inv N" and M: "n_table M = n_table N" "set (n_ifaces N) \<subseteq> set (n_ifaces M)" "n_pc M = (n_pc N)(i := p)"
    and live: "\<And>br. n_pc N i \<noteq> Live br" "\<And>br. p \<noteq> Live br" and clean: "cleaning (n_pc N i) \<subseteq> cleaning p"
    and own: "\<And>br. owns p br \<Longrightarrow> owns (n_pc N i) br \<or> Some br \<notin> fst ` set (n_table N)"
  shows "table_inv M"
proof -
  have "entry_ok M br vms" if e: "(Some br, vms) \<in> set (n_table N)" for br vms
  proof -
    from table_invD [OF inv e] have ok: "entry_ok N br vms" by auto
    then have "\<not> owns (n_pc N i) br" using live(1) by (auto simp: entry_ok_def)
    moreover have "Some br \<in> fst ` set (n_table N)" using e by force
    ultimately have "\<not> owns p br" using own by blast
    moreover have "br \<in> set (n_ifaces M) \<or> (\<exists>k. Some br \<in> cleaning (n_pc M k))"
    proof (cases "br \<in> set (n_ifaces N)")
      case False
      with ok obtain k where "Some br \<in> cleaning (n_pc N k)" by (auto simp: entry_ok_def)
      then have "Some br \<in> cleaning (n_pc M k)" using clean M(3) by auto
      then show ?thesis by blast
    qed (use M(2) in auto)
    ultimately show ?thesis using ok M(3) live unfolding entry_ok_def by auto
  qed
  moreover have "Some br \<in> fst ` set (n_table M)" if "n_pc M k = Live br" for k br
    using that M live table_inv_live [OF inv, of k br] by (cases "k = i") auto
  moreover have "distinct (map fst (n_table M))" using inv M(1) by (simp add: table_inv_def)
  ultimately show ?thesis using M(1) table_inv_key [OF inv] by (intro table_invI) simp_all
qed

lemma owner_invD:
  assumes "owner_inv N"
  shows "owns (n_pc N i) br \<Longrightarrow> br \<in> set (n_ifaces N)" and "owns (n_pc N i) br \<Longrightarrow> owns (n_pc N j) br \<Longrightarrow> j = i"
    and "distinct (n_ifaces N)" and "n_pc N i \<noteq> Failed" and "n_pc N i = Listing pfx \<Longrightarrow> lower_word pfx"
    and "n_pc N i = Want pfx \<Longrightarrow> lower_word pfx" and "n_pc N i = Adding br \<Longrightarrow> br \<notin> set (n_ifaces N)"
  using assms unfolding owner_inv_def by metis+

lemma owner_inv_frame:
  assumes "owner_inv N" and "n_ifaces M = n_ifaces N" and "n_pc M = (n_pc N)(i := p)" and "p \<noteq> Failed"
    and "\<And>br. owns p br \<Longrightarrow> owns (n_pc N i) br" and "\<And>pfx. p = Want pfx \<or> p = Listing pfx \<Longrightarrow> lower_word pfx"
    and "\<And>br. p = Adding br \<Longrightarrow> br \<notin> set (n_ifaces N)"
  shows "owner_inv M"
proof -
  have "owns (n_pc N k) br" if "owns (n_pc M k) br" for k br using that assms(3,5) by (auto split: if_splits)
  then have "\<forall>k br. owns (n_pc M k) br \<longrightarrow> br \<in> set (n_ifaces M) \<and> (\<forall>j. owns (n_pc M j) br \<longrightarrow> j = k)"
    using assms(1,2) unfolding owner_inv_def by metis
  then show ?thesis using assms unfolding owner_inv_def by (auto split: if_splits)
qed

lemma clean_invD:
  assumes "clean_inv N" and "n_pc N i = Deleting j n clean"
  shows "j < length (n_table N)" "snd (n_table N ! j) = []" "set clean \<subseteq> fst ` set (take j (n_table N))"
    "Some br \<in> set clean \<Longrightarrow> br \<notin> set (n_ifaces N)"
  using assms unfolding clean_inv_def by blast+

lemma clean_inv_frame:
  assumes "clean_inv N" and "n_table M = n_table N" and "n_ifaces M = n_ifaces N" and "n_pc M = (n_pc N)(i := p)"
    and "\<And>j n clean. p \<noteq> Deleting j n clean"
  shows "clean_inv M"
  using assms unfolding clean_inv_def by (auto split: if_splits)

lemma lock_inv_step:
  assumes "lock_inv N"
  shows "locked (n_pc N i) = locked p \<Longrightarrow> n_lock M = n_lock N \<Longrightarrow> n_pc M = (n_pc N)(i := p) \<Longrightarrow> lock_inv M"
    and "locked (n_pc N i) \<Longrightarrow> \<not> locked p \<Longrightarrow> n_lock M = None \<Longrightarrow> n_pc M = (n_pc N)(i := p) \<Longrightarrow> lock_inv M"
  using assms unfolding lock_inv_def by (auto split: if_splits)

text \<open>Only the coroutine that has the lock cleans.\<close>

lemma lock_invD: "lock_inv N \<Longrightarrow> locked (n_pc N i) \<Longrightarrow> locked (n_pc N j) \<Longrightarrow> j = i"
  unfolding lock_inv_def by (metis option.inject)

lemma not_cleaning:
  assumes "lock_inv N" and "locked (n_pc N i)" and "\<And>j n clean. n_pc N i \<noteq> Deleting j n clean"
  shows "cleaning (n_pc N k) = {}" and "n_pc N k \<noteq> Deleting j n clean"
proof -
  show "n_pc N k \<noteq> Deleting j n clean" for j n clean using lock_invD [OF assms(1,2), of k] assms(3) by (metis locked.simps(4))
  then show "cleaning (n_pc N k) = {}" by (cases "n_pc N k") auto
qed

lemma inv_begin: "net_inv N \<Longrightarrow> n_pc N i = Want pfx \<Longrightarrow> bridge_begin i pfx N = Some M \<Longrightarrow> net_inv M"
proof -
  assume inv: "net_inv N" and pc: "n_pc N i = Want pfx" and "bridge_begin i pfx N = Some M"
  then have free: "n_lock N = None" and M: "M = goto i (Listing pfx) (N\<lparr>n_lock := Some i\<rparr>)"
    by (auto simp: bridge_begin_def split: if_splits)
  have "lock_inv M" using inv free by (auto simp: net_inv_def lock_inv_def M)
  moreover have "lower_word pfx" using owner_invD(6) inv pc by (auto simp: net_inv_def)
  then have "owner_inv M" using inv pc by (intro owner_inv_frame [of N M i "Listing pfx"]) (auto simp: net_inv_def M)
  moreover have "table_inv M" using inv pc by (intro table_inv_frame [of N M i "Listing pfx"]) (auto simp: net_inv_def M)
  moreover have "clean_inv M" using inv by (intro clean_inv_frame [of N M i "Listing pfx"]) (auto simp: net_inv_def M)
  ultimately show ?thesis by (simp add: net_inv_def)
qed

lemma inv_list:
  assumes inv: "net_inv N" and pc: "n_pc N i = Listing pfx" and "listing_ok lister"
  shows "net_inv (bridge_list lister i pfx N)"
proof -
  have "lower_word pfx" using owner_invD(5) inv pc by (auto simp: net_inv_def)
  then obtain br where br: "pick_bridge lister (n_ifaces N) pfx = Some br" "br \<notin> set (n_ifaces N)" using pick_fresh [OF assms(3)] by blast
  let ?M = "goto i (Adding br) N"
  have "lock_inv ?M" by (rule lock_inv_step(1) [of N i "Adding br"]) (use inv pc in \<open>simp_all add: net_inv_def\<close>)
  moreover have "owner_inv ?M" using inv br by (intro owner_inv_frame [of N ?M i "Adding br"]) (auto simp: net_inv_def)
  moreover have "table_inv ?M" using inv pc by (intro table_inv_frame [of N ?M i "Adding br"]) (auto simp: net_inv_def)
  moreover have "clean_inv ?M" using inv by (intro clean_inv_frame [of N ?M i "Adding br"]) (auto simp: net_inv_def)
  ultimately show ?thesis by (simp add: net_inv_def bridge_list_def br)
qed

lemma inv_add:
  assumes inv: "net_inv N" and pc: "n_pc N i = Adding br"
  shows "net_inv (bridge_add i br N)"
proof -
  have fresh: "br \<notin> set (n_ifaces N)" using owner_invD(7) inv pc by (auto simp: net_inv_def)
  let ?M = "goto i (Upping br) (N\<lparr>n_ifaces := n_ifaces N @ [br]\<rparr>)"
  have locks: "lock_inv N" using inv by (simp add: net_inv_def)
  note alone = not_cleaning [OF locks, of i, unfolded pc, simplified]
  have "lock_inv ?M" by (rule lock_inv_step(1) [of N i "Upping br"]) (use inv pc in \<open>simp_all add: net_inv_def\<close>)
  moreover have free: "\<not> owns (n_pc N j) br" for j using owner_invD(1) [of N j br] inv fresh by (auto simp: net_inv_def)
  have "n_pc N j \<noteq> Adding b" if "j \<noteq> i" for j b using lock_invD [OF locks, of i j] pc that by auto
  with free have "owner_inv ?M" using inv pc fresh unfolding net_inv_def owner_inv_def by (auto split: if_splits)
  moreover have "Some br \<notin> fst ` set (n_table N)"
  proof
    assume "Some br \<in> fst ` set (n_table N)"
    then obtain vms where "(Some br, vms) \<in> set (n_table N)" by auto
    with inv have "entry_ok N br vms" by (auto simp: net_inv_def elim: table_invD)
    with fresh alone show False by (auto simp: entry_ok_def)
  qed
  then have "table_inv ?M" using inv pc by (intro table_inv_frame [of N ?M i "Upping br"]) (auto simp: net_inv_def)
  moreover have "clean_inv ?M" using alone(2) by (auto simp: clean_inv_def)
  ultimately show ?thesis using fresh by (simp add: net_inv_def bridge_add_def)
qed

lemma inv_up:
  assumes inv: "net_inv N" and pc: "n_pc N i = Upping br"
  shows "net_inv (bridge_up i br N)"
proof -
  let ?M = "goto i (Booting br) (unlock N)"
  have "br \<in> set (n_ifaces N)" using owner_invD(1) [of N i br] inv pc by (simp add: net_inv_def)
  moreover have "lock_inv ?M" by (rule lock_inv_step(2) [of N i "Booting br"]) (use inv pc in \<open>simp_all add: net_inv_def\<close>)
  moreover have "owner_inv ?M" using inv pc by (intro owner_inv_frame [of N ?M i "Booting br"]) (auto simp: net_inv_def)
  moreover have "table_inv ?M" using inv pc by (intro table_inv_frame [of N ?M i "Booting br"]) (auto simp: net_inv_def)
  moreover have "clean_inv ?M" using inv by (intro clean_inv_frame [of N ?M i "Booting br"]) (auto simp: net_inv_def)
  ultimately show ?thesis by (simp add: net_inv_def bridge_up_def)
qed

lemma inv_unbooted:
  assumes inv: "net_inv N" and pc: "n_pc N i = Booting br"
  shows "net_inv (goto i Unbooted N)"
proof -
  let ?M = "goto i Unbooted N"
  have "lock_inv ?M" by (rule lock_inv_step(1) [of N i Unbooted]) (use inv pc in \<open>simp_all add: net_inv_def\<close>)
  moreover have "owner_inv ?M" using inv pc by (intro owner_inv_frame [of N ?M i Unbooted]) (auto simp: net_inv_def)
  moreover have "table_inv ?M" using inv pc by (intro table_inv_frame [of N ?M i Unbooted]) (auto simp: net_inv_def)
  moreover have "clean_inv ?M" using inv by (intro clean_inv_frame [of N ?M i Unbooted]) (auto simp: net_inv_def)
  ultimately show ?thesis by (simp add: net_inv_def)
qed

lemma key_not_before:
  assumes "distinct (map fst m)" and "j < length m"
  shows "fst (m ! j) \<notin> fst ` set (take j m)"
proof -
  have "map fst m = map fst (take j m) @ fst (m ! j) # map fst (drop (Suc j) m)"
    using id_take_nth_drop [OF assms(2)] by (metis list.simps(9) map_append)
  with assms(1) have "distinct (map fst (take j m) @ fst (m ! j) # map fst (drop (Suc j) m))" by simp
  then show ?thesis by simp
qed

lemma key_in_table: "(b, vms) \<in> set m \<Longrightarrow> b \<in> fst ` set m"
  by force

lemma inv_listed:
  assumes inv: "net_inv N" and pc: "n_pc N i = Booting br"
  shows "net_inv (vm_listed i br N)"
proof -
  have I: "lock_inv N" "owner_inv N" "table_inv N" "clean_inv N" using inv by (simp_all add: net_inv_def)
  have own: "owns (n_pc N k) br \<Longrightarrow> k = i" for k using owner_invD(2) [OF I(2), of i br k] pc by simp
  have new: "Some br \<notin> fst ` set (n_table N)"
  proof
    assume "Some br \<in> fst ` set (n_table N)"
    then obtain vms where "(Some br, vms) \<in> set (n_table N)" by auto
    then have "entry_ok N br vms" by (rule table_inv_entry [OF I(3)])
    then have "owns (n_pc N i) br \<longrightarrow> n_pc N i = Live br" unfolding entry_ok_def by blast
    with pc show False by simp
  qed
  define M where "M = goto i (Live br) (N\<lparr>n_table := n_table N @ [(Some br, [i])]\<rparr>)"
  have "lock_inv M" by (rule lock_inv_step(1) [OF I(1), of i "Live br"]) (simp_all add: M_def pc)
  moreover have "owner_inv M" by (rule owner_inv_frame [OF I(2), of _ i "Live br"]) (simp_all add: M_def pc)
  moreover have "clean_inv M"
  proof -
    have "n_pc N k = Deleting j n clean" if "n_pc M k = Deleting j n clean" for k j n clean
      using that by (auto simp: M_def split: if_splits)
    note C = clean_invD [OF I(4) this]
    have "set clean \<subseteq> fst ` set (take j (n_table M))" if d: "n_pc M k = Deleting j n clean" for k j n clean
      using C(1,3) [OF d] by (simp add: M_def)
    with C(1,2,4) show ?thesis unfolding clean_inv_def by (auto simp: M_def nth_append less_SucI)
  qed
  moreover have "table_inv M"
  proof -
    have old: "entry_ok M b vms" if e: "(Some b, vms) \<in> set (n_table N)" for b vms
    proof -
      have "b \<noteq> br" using new key_in_table [OF e] by auto
      moreover have "entry_ok N b vms" by (rule table_inv_entry [OF I(3) e])
      moreover have "cleaning (n_pc M k) = cleaning (n_pc N k)" for k by (simp add: M_def pc)
      ultimately show ?thesis by (auto simp: entry_ok_def M_def pc split: if_splits)
    qed
    have "br \<in> set (n_ifaces N)" using owner_invD(1) [OF I(2), of i br] pc by simp
    then have "entry_ok M br [i]" using own by (auto simp: entry_ok_def M_def)
    with old show ?thesis
    proof (intro table_invI)
      show "distinct (map fst (n_table M))" using I(3) new by (auto simp: M_def table_inv_def)
      show "Some b \<in> fst ` set (n_table M)" if "n_pc M k = Live b" for k b
        using that I(3) by (auto simp: M_def table_inv_def split: if_splits)
    qed (auto simp: M_def dest: table_inv_key [OF I(3)])
  qed
  ultimately show ?thesis using new by (simp add: net_inv_def vm_listed_def br_add_def M_def)
qed

lemma inv_unlisted:
  assumes inv: "net_inv N" and pc: "n_pc N i = Live br"
  shows "net_inv (vm_unlisted i br N)"
proof -
  have I: "lock_inv N" "owner_inv N" "table_inv N" "clean_inv N" using inv by (simp_all add: net_inv_def)
  let ?cut = "\<lambda>(b, vms). (b, if b = Some br then remove1 i vms else vms)"
  define M where "M = goto i Leaving (N\<lparr>n_table := map ?cut (n_table N)\<rparr>)"
  have keys: "map fst (n_table M) = map fst (n_table N)" by (simp add: M_def comp_def split_def)
  have "lock_inv M" by (rule lock_inv_step(1) [OF I(1), of i Leaving]) (simp_all add: M_def pc)
  moreover have "owner_inv M" by (rule owner_inv_frame [OF I(2), of _ i Leaving]) (simp_all add: M_def)
  moreover have "clean_inv M"
  proof -
    have "snd (?cut e) = []" if "snd e = []" for e using that by (cases e) auto
    moreover have "fst ` set (take j (n_table M)) = fst ` set (take j (n_table N))" for j
      using keys by (metis list.set_map take_map)
    ultimately show ?thesis using I(4) unfolding clean_inv_def by (auto simp: M_def split: if_splits)
  qed
  moreover have "table_inv M"
  proof -
    have ok: "entry_ok M b (snd (?cut (Some b, vms)))" if e: "(Some b, vms) \<in> set (n_table N)" for b vms
    proof -
      have "entry_ok N b vms" by (rule table_inv_entry [OF I(3) e])
      moreover have "cleaning (n_pc M k) = cleaning (n_pc N k)" for k by (simp add: M_def pc)
      ultimately show ?thesis using pc by (auto simp: entry_ok_def M_def split: if_splits)
    qed
    have "\<exists>b'. b = Some b' \<and> entry_ok M b' vms" if m: "(b, vms) \<in> set (n_table M)" for b vms
    proof -
      from m obtain ws where e: "(b, ws) \<in> set (n_table N)" "vms = snd (?cut (b, ws))" by (auto simp: M_def)
      then obtain b' where "b = Some b'" by (auto elim: table_invD [OF I(3)])
      with ok [of b' ws] e show ?thesis by simp
    qed
    moreover have "distinct (map fst (n_table M))" using I(3) unfolding keys by (simp add: table_inv_def)
    moreover have "fst ` set (n_table M) = fst ` set (n_table N)" using keys by (metis list.set_map)
    then have "Some b \<in> fst ` set (n_table M)" if "n_pc M k = Live b" for k b
      using that I(3) by (auto simp: M_def table_inv_def split: if_splits)
    ultimately show ?thesis unfolding table_inv_def by blast
  qed
  ultimately show ?thesis by (simp add: net_inv_def vm_unlisted_def drop_from_bridge_def M_def)
qed

lemma next_empty_SomeD: "next_empty k m = Some j \<Longrightarrow> k \<le> j \<and> j < length m \<and> snd (m ! j) = []"
  unfolding next_empty_def find_Some_iff by (auto simp del: upt_Suc)

text \<open>The end of a cleanup: the entries whose bridges were deleted leave the table.\<close>

lemma table_inv_cleaned:
  assumes others: "\<And>k. k \<noteq> i \<Longrightarrow> \<not> locked (n_pc N k)" and own: "owner_inv N" and tab: "table_inv (goto i (Deleting k n clean) N)"
    and del: "\<And>br. Some br \<in> set clean \<Longrightarrow> br \<notin> set (n_ifaces N)"
  shows "table_inv (goto i Gone (unlock (N\<lparr>n_table := filter (\<lambda>(b, vms). b \<notin> set clean) (n_table N)\<rparr>)))" (is "table_inv ?M")
proof (rule table_invI)
  show "distinct (map fst (n_table ?M))" using tab by (auto simp: table_inv_def distinct_map inj_on_def)
  show "\<exists>br. b = Some br" if "(b, vms) \<in> set (n_table ?M)" for b vms
    using that table_inv_key [OF tab, of b vms] by simp
  show "entry_ok ?M br vms" if e: "(Some br, vms) \<in> set (n_table ?M)" for br vms
  proof -
    have "(Some br, vms) \<in> set (n_table (goto i (Deleting k n clean) N))" and c: "Some br \<notin> set clean" using e by auto
    then have ok: "entry_ok (goto i (Deleting k n clean) N) br vms" using table_inv_entry [OF tab] by blast
    have "Some br \<notin> cleaning (n_pc N k)" if "k \<noteq> i" for k using others [OF that] cleaning_locked by blast
    with ok c show ?thesis by (auto simp: entry_ok_def split: if_splits)
  qed
  show "Some br \<in> fst ` set (n_table ?M)" if "n_pc ?M m = Live br" for m br
  proof -
    have m: "n_pc N m = Live br" "m \<noteq> i" using that by (auto split: if_splits)
    then have "br \<in> set (n_ifaces N)" using owner_invD(1) [OF own, of m br] by simp
    then have "Some br \<notin> set clean" using del by blast
    moreover have "Some br \<in> fst ` set (n_table N)" using table_inv_live [OF tab, of m br] m by simp
    ultimately show ?thesis by force
  qed
qed

text \<open>The loop of \<^verbatim>\<open>cleanup_net\<close> at position \<open>k\<close>, by the coroutine \<open>i\<close> that has the lock.\<close>

lemma inv_scan:
  assumes lock: "n_lock N = Some i" "\<And>k. k \<noteq> i \<Longrightarrow> \<not> locked (n_pc N k)" and own: "owner_inv N"
    and tab: "table_inv (goto i (Deleting k n clean) N)" and keys: "set clean \<subseteq> fst ` set (take k (n_table N))"
    and del: "\<And>br. Some br \<in> set clean \<Longrightarrow> br \<notin> set (n_ifaces N)"
  shows "net_inv (net_scan i k n clean N)"
proof (cases "next_empty k (n_table N)")
  case (Some j)
  note j = next_empty_SomeD [OF Some]
  let ?M = "goto i (Deleting j n clean) N"
  have "lock_inv ?M" using lock by (auto simp: lock_inv_def)
  moreover have "owner_inv ?M" by (rule owner_inv_frame [OF own, of _ i "Deleting j n clean"]) simp_all
  moreover have "table_inv ?M" by (rule table_inv_frame [OF tab, of _ i "Deleting j n clean"]) simp_all
  moreover have "n_pc N k \<noteq> Deleting j' n' clean'" if "k \<noteq> i" for k j' n' clean' using lock(2) [OF that] by auto
  moreover have "set (take k (n_table N)) \<subseteq> set (take j (n_table N))" using j by (simp add: set_take_subset_set_take)
  then have "set clean \<subseteq> fst ` set (take j (n_table N))" using keys by (meson image_mono order_trans)
  ultimately have "clean_inv ?M" using j del unfolding clean_inv_def by (simp split: if_splits)
  with \<open>lock_inv ?M\<close> \<open>owner_inv ?M\<close> \<open>table_inv ?M\<close> show ?thesis by (simp add: net_scan_def Some net_inv_def)
next
  case None
  define T where "T = filter (\<lambda>(b, vms). b \<notin> set clean) (n_table N)"
  define M where "M = goto i Gone (unlock (N\<lparr>n_table := T\<rparr>))"
  have un: "\<not> locked (n_pc M k)" for k using lock(2) by (simp add: M_def)
  have "lock_inv M" using un by (simp add: lock_inv_def M_def)
  moreover have "owner_inv M" by (rule owner_inv_frame [OF own, of _ i Gone]) (simp_all add: M_def)
  moreover have "clean_inv M" using un by (auto simp: clean_inv_def) (metis locked.simps(4))+
  moreover have "table_inv M" unfolding M_def T_def by (rule table_inv_cleaned [OF lock(2) own tab del])
  ultimately show ?thesis by (simp add: net_scan_def None net_inv_def M_def T_def)
qed

lemma inv_cleanup_begin:
  assumes inv: "net_inv N" and pc: "n_pc N i = Leaving" and M: "cleanup_begin i N = Some M"
  shows "net_inv M"
proof -
  have free: "n_lock N = None" and M: "M = net_scan i 0 (length (n_table N)) [] (N\<lparr>n_lock := Some i\<rparr>)"
    using M by (auto simp: cleanup_begin_def split: if_splits)
  have I: "lock_inv N" "owner_inv N" "table_inv N" using inv by (simp_all add: net_inv_def)
  show ?thesis unfolding M
  proof (rule inv_scan)
    show "owner_inv (N\<lparr>n_lock := Some i\<rparr>)" using I(2) by (simp add: owner_inv_def)
    show "table_inv (goto i (Deleting 0 (length (n_table N)) []) (N\<lparr>n_lock := Some i\<rparr>))"
      by (rule table_inv_frame [OF I(3), of _ i "Deleting 0 (length (n_table N)) []"]) (simp_all add: pc)
  qed (use I(1) free in \<open>auto simp: lock_inv_def\<close>)
qed

lemma table_inv_deleted:
  assumes tab: "table_inv N" and pc: "n_pc N i = Deleting j n clean" and others: "\<And>k x. k \<noteq> i \<Longrightarrow> Some x \<notin> cleaning (n_pc N k)"
    and ifs: "set (n_ifaces (N\<lparr>n_ifaces := remove1 b (n_ifaces N)\<rparr>)) = set (n_ifaces N) - {b}"
  shows "table_inv (goto i (Deleting (Suc j) n (clean @ [Some b])) (N\<lparr>n_ifaces := remove1 b (n_ifaces N)\<rparr>))" (is "table_inv ?M")
proof (rule table_invI)
  show "entry_ok ?M x vms" if e: "(Some x, vms) \<in> set (n_table ?M)" for x vms
  proof -
    have okx: "entry_ok N x vms" using table_inv_entry [OF tab] e by simp
    have "x \<in> set (n_ifaces ?M) \<or> Some x \<in> cleaning (n_pc ?M i)"
    proof (cases "x \<in> set (n_ifaces N)")
      case False
      with okx obtain k where k: "Some x \<in> cleaning (n_pc N k)" by (auto simp: entry_ok_def)
      then have "k = i" using others by blast
      with k pc show ?thesis by simp
    qed (use ifs in auto)
    with okx pc show ?thesis unfolding entry_ok_def by auto
  qed
  show "\<exists>br. c = Some br" if "(c, vms) \<in> set (n_table ?M)" for c vms using that table_inv_key [OF tab] by simp
  show "Some br \<in> fst ` set (n_table ?M)" if "n_pc ?M m = Live br" for m br
    using that table_inv_live [OF tab, of m br] by (auto split: if_splits)
qed (use tab in \<open>simp add: table_inv_def\<close>)

lemma inv_delete:
  assumes inv: "net_inv N" and pc: "n_pc N i = Deleting j n clean" and ok: "n_pc (cleanup_delete i j n clean N) i \<noteq> Crashed"
  shows "net_inv (cleanup_delete i j n clean N)"
proof -
  have I: "lock_inv N" "owner_inv N" "table_inv N" "clean_inv N" using inv by (simp_all add: net_inv_def)
  note C = clean_invD [OF I(4) pc]
  have "locked (n_pc N i)" by (simp add: pc)
  then have lock: "n_lock N = Some i" "\<And>k. k \<noteq> i \<Longrightarrow> \<not> locked (n_pc N k)"
    using I(1) lock_invD [OF I(1)] unfolding lock_inv_def by blast+
  have at: "n_table N ! j \<in> set (n_table N)" using C(1) by simp
  then have "(fst (n_table N ! j), []) \<in> set (n_table N)" using C(2) by (metis prod.collapse)
  then obtain b where fb: "fst (n_table N ! j) = Some b" and okb: "entry_ok N b []" by (rule table_invD [OF I(3)])
  then have b: "n_table N ! j = (Some b, [])" using C(2) by (simp add: prod_eq_iff)
  have "Some b \<notin> fst ` set (take j (n_table N))"
    using key_not_before [of "n_table N" j] b C(1) I(3) by (simp add: table_inv_def)
  then have bc: "Some b \<notin> set clean" using C(3) by blast
  have others: "Some x \<notin> cleaning (n_pc N k)" if "k \<noteq> i" for k x using lock(2) [OF that] cleaning_locked by blast
  have "Some b \<notin> cleaning (n_pc N k)" for k using others bc pc by (cases "k = i") auto
  then have bin: "b \<in> set (n_ifaces N)" using okb by (auto simp: entry_ok_def)
  have free: "\<not> owns (n_pc N k) b" for k using okb by (auto simp: entry_ok_def)
  let ?N = "N\<lparr>n_ifaces := remove1 b (n_ifaces N)\<rparr>"
  have ifs: "set (n_ifaces ?N) = set (n_ifaces N) - {b}" using owner_invD(3) [OF I(2)] by simp
  show ?thesis
  proof (cases "length (n_table N) = n")
    case True
    have "net_inv (net_scan i (Suc j) n (clean @ [Some b]) ?N)"
    proof (rule inv_scan)
      show "owner_inv ?N" using I(2) free unfolding owner_inv_def by (auto simp: ifs)
      show "table_inv (goto i (Deleting (Suc j) n (clean @ [Some b])) ?N)" by (rule table_inv_deleted [OF I(3) pc others ifs])
      show "set (clean @ [Some b]) \<subseteq> fst ` set (take (Suc j) (n_table ?N))"
        using C(1,3) b by (auto simp: take_Suc_conv_app_nth)
    qed (use lock C(4) ifs in auto)
    then show ?thesis using True b bin by (simp add: cleanup_delete_def Let_def)
  next
    case False
    then show ?thesis using ok b bin by (simp add: cleanup_delete_def Let_def)
  qed
qed

section \<open>Every run\<close>

lemma net_step_inv:
  assumes "net_inv N" and "net_step lister e N = Some M" and "listing_ok lister" and "\<And>i. n_pc M i \<noteq> Crashed"
  shows "net_inv M"
proof (cases e)
  case (NStep i)
  show ?thesis
  proof (cases "n_pc N i")
    case (Want pfx)
    then show ?thesis using assms(2) NStep inv_begin [OF assms(1)] by (simp add: net_step_def)
  next
    case (Listing pfx)
    then show ?thesis using assms(2) NStep inv_list [OF assms(1) Listing assms(3)] by (auto simp: net_step_def)
  next
    case (Adding br)
    then show ?thesis using assms(2) NStep inv_add [OF assms(1)] by (auto simp: net_step_def)
  next
    case (Upping br)
    then show ?thesis using assms(2) NStep inv_up [OF assms(1)] by (auto simp: net_step_def)
  next
    case (Booting br)
    then show ?thesis using assms(2) NStep inv_listed [OF assms(1)] by (auto simp: net_step_def)
  next
    case (Live br)
    then show ?thesis using assms(2) NStep inv_unlisted [OF assms(1)] by (auto simp: net_step_def)
  next
    case Leaving
    then show ?thesis using assms(2) NStep inv_cleanup_begin [OF assms(1)] by (simp add: net_step_def)
  next
    case (Deleting j n clean)
    then have "M = cleanup_delete i j n clean N" using assms(2) NStep by (simp add: net_step_def)
    then show ?thesis using inv_delete [OF assms(1) Deleting] assms(4) by simp
  qed (use assms(2) NStep in \<open>simp_all add: net_step_def\<close>)
next
  case (NBootFails i)
  then show ?thesis using assms(1,2) inv_unbooted by (auto simp: net_step_def split: npc.splits)
qed

lemma other_pc [simp]:
  assumes "j \<noteq> i"
  shows "n_pc (net_scan i k n clean N) j = n_pc N j" and "n_pc (cleanup_delete i k n clean N) j = n_pc N j"
    and "n_pc (bridge_list lister i pfx N) j = n_pc N j" and "n_pc (bridge_add i br N) j = n_pc N j"
    and "n_pc (bridge_up i br N) j = n_pc N j" and "n_pc (vm_listed i br N) j = n_pc N j" and "n_pc (vm_unlisted i br N) j = n_pc N j"
  using assms by (simp_all add: net_scan_def cleanup_delete_def bridge_list_def bridge_add_def bridge_up_def vm_listed_def vm_unlisted_def
      Let_def split: option.splits)

lemma crashed_stays:
  assumes "net_step lister e N = Some M" and "n_pc N i = Crashed"
  shows "n_pc M i = Crashed"
proof (cases e)
  case (NStep k)
  then have "i \<noteq> k" using assms by (auto simp: net_step_def)
  then show ?thesis using assms NStep
    by (auto simp: net_step_def bridge_begin_def cleanup_begin_def split: npc.splits if_splits)
next
  case (NBootFails k)
  then show ?thesis using assms by (auto simp: net_step_def split: npc.splits)
qed

lemma net_run_inv:
  "net_inv N \<Longrightarrow> net_run lister es N = Some M \<Longrightarrow> listing_ok lister \<Longrightarrow> (\<And>i. n_pc M i \<noteq> Crashed) \<Longrightarrow> net_inv M"
proof (induction es arbitrary: N)
  case (Cons e es)
  then obtain L where L: "net_step lister e N = Some L" "net_run lister es L = Some M" by (auto simp: Option.bind_eq_Some_conv)
  have "n_pc M i = Crashed" if "n_pc L i = Crashed" for i
    using L(2) that
  proof (induction es arbitrary: L)
    case (Cons e es)
    then show ?case using crashed_stays by (fastforce simp: Option.bind_eq_Some_conv)
  qed simp
  then have "net_inv L" using net_step_inv [OF Cons.prems(1) L(1) Cons.prems(3)] Cons.prems(4) by blast
  with Cons.IH L(2) Cons.prems(3,4) show ?case by blast
qed simp

lemma net_init_inv: "distinct ifs \<Longrightarrow> (\<And>i. lower_word (pfx i)) \<Longrightarrow> net_inv (net_init ifs pfx)"
  by (auto simp: net_inv_def net_init_def lock_inv_def owner_inv_def table_inv_def clean_inv_def)


section \<open>Examples\<close>

lemma splitlines_from_line:
  "list_all (\<lambda>c. \<not> is_linebreak c) w \<Longrightarrow> splitlines_from acc (w @ newline # s) = (rev acc @ w) # splitlines_from [] s"
  by (induction w arbitrary: acc) (auto simp: is_linebreak_def)

lemma splitlines_from_last:
  "list_all (\<lambda>c. \<not> is_linebreak c) w \<Longrightarrow> acc @ w \<noteq> [] \<Longrightarrow> splitlines_from acc w = [rev acc @ w]"
  by (induction w arbitrary: acc) (auto simp: is_linebreak_def)

lemma splitlines_join:
  "(\<And>w. w \<in> set ws \<Longrightarrow> w \<noteq> [] \<and> list_all (\<lambda>c. \<not> is_linebreak c) w) \<Longrightarrow> splitlines (join [newline] ws) = ws"
proof (induction "[newline]" ws rule: join.induct)
  case (2 w)
  then show ?case using splitlines_from_last [of w "[]"] by (simp add: splitlines_def)
next
  case (3 w v ws)
  then show ?case using splitlines_from_line [of w "[]" "join [newline] (v # ws)"] by (simp add: splitlines_def)
qed (simp add: splitlines_def)

lemma numbered_clean: "list_all iface_name xs \<Longrightarrow> w \<in> set (numbered k xs) \<Longrightarrow> w \<noteq> [] \<and> list_all (\<lambda>c. \<not> is_linebreak c) w"
proof (induction k xs rule: numbered.induct)
  case (2 k x xs)
  have "\<not> is_linebreak c" if "\<not> is_space c \<or> is_digit c" for c using that by (auto simp: is_linebreak_def is_space_def is_digit_def)
  then have "list_all (\<lambda>c. \<not> is_linebreak c) (nat_str k @ '': '' @ x @ '': <UP>'')"
    using 2(2) nat_str_digits by (auto simp: iface_name_def list_all_iff is_linebreak_def)
  with 2 show ?case by auto
qed simp

lemma numbered_mem: "x \<in> set xs \<Longrightarrow> \<exists>m. nat_str m @ '': '' @ x @ '': <UP>'' \<in> set (numbered k xs)"
proof (induction k xs rule: numbered.induct)
  case (2 k y ys)
  then show ?case by (cases "x = y") auto
qed simp

lemma demo_listing_ok: "listing_ok demo_show"
  unfolding listing_ok_def
proof (intro allI ballI impI)
  fix ifs x assume x: "x \<in> set ifs" "iface_name x"
  let ?ls = "numbered 1 (filter iface_name ifs)"
  have "list_all iface_name (filter iface_name ifs)" by (simp add: list_all_iff)
  from numbered_clean [OF this] have lines: "splitlines (demo_show ifs) = ?ls" unfolding demo_show_def by (rule splitlines_join)
  obtain m where "nat_str m @ '': '' @ x @ '': <UP>'' \<in> set ?ls" using numbered_mem [of x "filter iface_name ifs" 1] x by auto
  then have "nat_str m @ '': '' @ x @ '': '' @ ''<UP>'' \<in> set ?ls" by simp
  then show "\<exists>k rest. nat_str k @ '': '' @ x @ '': '' @ rest \<in> set (splitlines (demo_show ifs))" unfolding lines by blast
qed

fun subject :: "net_event \<Rightarrow> nat" where
  "subject (NStep i) = i"
| "subject (NBootFails i) = i"

lemma net_step_other: "net_step lister e N = Some M \<Longrightarrow> j \<noteq> subject e \<Longrightarrow> n_pc M j = n_pc N j"
  by (cases e) (auto simp: net_step_def bridge_begin_def cleanup_begin_def split: npc.splits if_splits)

lemma net_run_other: "net_run lister es N = Some M \<Longrightarrow> j \<notin> subject ` set es \<Longrightarrow> n_pc M j = n_pc N j"
  by (induction es arbitrary: N) (auto simp: Option.bind_eq_Some_conv dest: net_step_other)

definition two_machines :: "net_event list" where
  "two_machines = map NStep [0, 0, 0, 0, 1, 0, 1, 1, 1]"



section \<open>A cleanup that is not disturbed\<close>

definition empties :: "nat \<Rightarrow> (string option \<times> nat list) list \<Rightarrow> string option set" where
  "empties k m = {fst (m ! j) |j. k \<le> j \<and> j < length m \<and> snd (m ! j) = []}"

lemma empties_None: "next_empty k m = None \<Longrightarrow> empties k m = {}"
  by (auto simp: next_empty_def find_None_iff empties_def)

lemma empties_Some:
  assumes "next_empty k m = Some j"
  shows "empties k m = insert (fst (m ! j)) (empties (Suc j) m)"
proof -
  have j: "k \<le> j" "j < length m" "snd (m ! j) = []" using next_empty_SomeD [OF assms] by auto
  have no: "\<not> (k \<le> i \<and> i < j \<and> snd (m ! i) = [])" for i
  proof
    assume i: "k \<le> i \<and> i < j \<and> snd (m ! i) = []"
    from assms obtain n where n: "n < length m - k" "j = k + n" "\<forall>l < n. snd (m ! (k + l)) \<noteq> []"
      unfolding next_empty_def find_Some_iff by auto
    from i n(2) have "i - k < n" "k + (i - k) = i" by auto
    with n(3) i show False by metis
  qed
  have "k \<le> i \<and> i < length m \<and> snd (m ! i) = [] \<longleftrightarrow> i = j \<or> Suc j \<le> i \<and> i < length m \<and> snd (m ! i) = []" for i
    using j no [of i] by (cases "i < j"; cases "i = j") auto
  then have "{i. k \<le> i \<and> i < length m \<and> snd (m ! i) = []} = insert j {i. Suc j \<le> i \<and> i < length m \<and> snd (m ! i) = []}" by blast
  moreover have "empties l m = (\<lambda>i. fst (m ! i)) ` {i. l \<le> i \<and> i < length m \<and> snd (m ! i) = []}" for l by (auto simp: empties_def)
  ultimately show ?thesis by simp
qed

lemma scan_alone:
  assumes "length (n_table N) = n" and "\<And>b. b \<in> empties k (n_table N) \<Longrightarrow> \<exists>br. b = Some br \<and> br \<in> set (n_ifaces N)"
    and "distinct (map fst (n_table N))" and "distinct (n_ifaces N)"
  shows "\<exists>m M. net_run lister (replicate m (NStep i)) (net_scan i k n clean N) = Some M \<and> n_pc M i = Gone \<and> n_lock M = None \<and>
    n_table M = filter (\<lambda>(b, vms). b \<notin> set clean \<union> empties k (n_table N)) (n_table N)"
  using assms
proof (induction "n - k" arbitrary: k clean N rule: less_induct)
  case less
  show ?case
  proof (cases "next_empty k (n_table N)")
    case None
    then show ?thesis by (intro exI [of _ 0]) (simp add: net_scan_def empties_None)
  next
    case (Some j)
    note j = next_empty_SomeD [OF Some]
    note E = empties_Some [OF Some]
    obtain b where b: "fst (n_table N ! j) = Some b" "b \<in> set (n_ifaces N)" using less.prems(2) E by blast
    let ?L = "goto i (Deleting j n clean) N"
    let ?N = "?L\<lparr>n_ifaces := remove1 b (n_ifaces N)\<rparr>"
    have step: "net_step lister (NStep i) ?L = Some (net_scan i (Suc j) n (clean @ [Some b]) ?N)"
      using less.prems(1) b by (simp add: net_step_def cleanup_delete_def Let_def)
    have "Some b \<notin> empties (Suc j) (n_table N)"
    proof
      assume "Some b \<in> empties (Suc j) (n_table N)"
      then obtain l where "Suc j \<le> l" "l < length (n_table N)" "fst (n_table N ! l) = Some b" by (auto simp: empties_def)
      with b(1) j less.prems(3) show False by (metis distinct_conv_nth length_map not_less_eq_eq nth_map order_refl)
    qed
    then have "\<exists>br. c = Some br \<and> br \<in> set (n_ifaces ?N)" if "c \<in> empties (Suc j) (n_table N)" for c
      using that less.prems(2) [of c] E less.prems(4) by auto
    moreover have "n - Suc j < n - k" using j less.prems(1) by arith
    ultimately have "\<exists>m M. net_run lister (replicate m (NStep i)) (net_scan i (Suc j) n (clean @ [Some b]) ?N) = Some M \<and> n_pc M i = Gone \<and>
        n_lock M = None \<and> n_table M = filter (\<lambda>(c, vms). c \<notin> set (clean @ [Some b]) \<union> empties (Suc j) (n_table ?N)) (n_table ?N)"
      using less.prems by (intro less.hyps) simp_all
    then obtain m M where M: "net_run lister (replicate m (NStep i)) (net_scan i (Suc j) n (clean @ [Some b]) ?N) = Some M"
        "n_pc M i = Gone" "n_lock M = None"
        "n_table M = filter (\<lambda>(c, vms). c \<notin> set (clean @ [Some b]) \<union> empties (Suc j) (n_table N)) (n_table N)"
      by auto
    show ?thesis
    proof (intro exI conjI)
      show "net_run lister (replicate (Suc m) (NStep i)) (net_scan i k n clean N) = Some M"
        using M(1) step by (simp add: net_scan_def Some)
      show "n_table M = filter (\<lambda>(c, vms). c \<notin> set clean \<union> empties k (n_table N)) (n_table N)"
        unfolding M(4) E b(1) by (rule filter_cong) auto
    qed (use M in auto)
  qed
qed

text \<open>C26: the detailed steps of a cleanup implement \<^verbatim>\<open>cleanup_net\<close> as one operation: run without a disturbance on a host that still has the
  bridges of the empty entries, they end, release the lock, and leave the table that the operation leaves.\<close>

theorem cleanup_steps_refine:
  assumes "n_pc N i = Leaving" and "n_lock N = None" and "n_table N = br_vm (hst s (hid H))"
    and "distinct (map fst (n_table N))" and "distinct (n_ifaces N)"
    and "\<And>b. (b, []) \<in> set (n_table N) \<Longrightarrow> \<exists>br. b = Some br \<and> br \<in> set (n_ifaces N)"
    and "cleanup_net E H s = Some (Inr (), t)"
  shows "\<exists>m M. net_run lister (replicate m (NStep i)) N = Some M \<and> n_pc M i = Gone \<and> n_lock M = None \<and> n_table M = br_vm (hst t (hid H))"
proof -
  let ?N = "N\<lparr>n_lock := Some i\<rparr>"
  have E: "empties 0 (n_table N) = fst ` set (filter (\<lambda>(b, vms). vms = []) (n_table N))"
  proof -
    have "empties 0 (n_table N) = fst ` {e \<in> set (n_table N). snd e = []}" by (force simp: empties_def in_set_conv_nth)
    then show ?thesis by (simp add: split_def)
  qed
  have "\<exists>br. b = Some br \<and> br \<in> set (n_ifaces ?N)" if "b \<in> empties 0 (n_table ?N)" for b
    using that assms(6) E by auto
  then obtain m M where M: "net_run lister (replicate m (NStep i)) (net_scan i 0 (length (n_table N)) [] ?N) = Some M" "n_pc M i = Gone" "n_lock M = None"
      "n_table M = filter (\<lambda>(b, vms). b \<notin> empties 0 (n_table N)) (n_table N)"
    using scan_alone [of ?N "length (n_table N)" 0 lister i "[]"] assms(4,5) by auto
  have "n_table M = filter (\<lambda>(b, vms). vms \<noteq> []) (n_table N)" unfolding M(4) E by (rule filter_keys [OF assms(4)])
  moreover have "br_vm (hst t (hid H)) = filter (\<lambda>(b, vms). vms \<noteq> []) (n_table N)"
    using cleanup_net_ok [OF assms(7)] assms(3,4) by simp
  moreover have "net_run lister (replicate (Suc m) (NStep i)) N = Some M"
    using M(1) assms(1,2) by (simp add: net_step_def cleanup_begin_def)
  ultimately show ?thesis using M(2,3) by metis
qed

definition quiet_bridges :: vst where
  "quiet_bridges = upd_host 0 (\<lambda>hs. hs\<lparr>br_vm := [(Some ''br0'', []), (Some ''br1'', [8])]\<rparr>) (demo_vst [SshReady 0])"

lemma quiet_cleanup:
  "map_option fst (cleanup_net (demo_env []) (demo_host demo_cfg) quiet_bridges) = Some (Inr ())"
  by code_simp

theorem cleanup_steps_refine_witness:
  "\<exists>m M t. cleanup_net (demo_env []) (demo_host demo_cfg) quiet_bridges = Some (Inr (), t) \<and>
     net_run demo_show (replicate m (NStep 5)) \<lparr>n_lock = None, n_ifaces = [''lo'', ''br0'', ''br1''],
       n_table = [(Some ''br0'', []), (Some ''br1'', [8])], n_pc = (\<lambda>_. Leaving)\<rparr> = Some M \<and>
     n_pc M 5 = Gone \<and> n_table M = br_vm (hst t 0)"
proof -
  let ?H = "demo_host demo_cfg"
  obtain t where t: "cleanup_net (demo_env []) ?H quiet_bridges = Some (Inr (), t)" using quiet_cleanup by auto
  have h: "hid ?H = 0" by (simp add: demo_host_def)
  have s: "br_vm (hst quiet_bridges 0) = [(Some ''br0'', []), (Some ''br1'', [8])]" by (simp add: quiet_bridges_def demo_vst_def upd_host_def)
  let ?N = "\<lparr>n_lock = None, n_ifaces = [''lo'', ''br0'', ''br1''], n_table = [(Some ''br0'', []), (Some ''br1'', [8])], n_pc = (\<lambda>_. Leaving)\<rparr>"
  have "\<exists>m M. net_run demo_show (replicate m (NStep 5)) ?N = Some M \<and> n_pc M 5 = Gone \<and> n_lock M = None \<and> n_table M = br_vm (hst t (hid ?H))"
    by (rule cleanup_steps_refine [OF _ _ _ _ _ _ t]) (auto simp: h s)
  with t h show ?thesis by auto
qed

end
