(* ===== verification/Job.thy ===== *)
theory Job
  imports Provider
begin

text \<open>
  \<^verbatim>\<open>rallyci/job.py\<close> with the two runners \<^verbatim>\<open>rallyci/runners/fake.py\<close> and \<^verbatim>\<open>rallyci/runners/ssh.py\<close>. The state of a
  job object, and of the runner it creates, extends the state of the providers. What the program
  does on a status update is the list \<open>hs\<close> of the handlers registered at the root; the module a
  runner configuration names is looked up in \<open>mods\<close>.
\<close>

section \<open>Jobs\<close>

record job =
  job_id :: string
  job_name :: string
  job_task :: string            \<comment> \<open>\<^verbatim>\<open>self.event.id\<close>\<close>
  job_config :: pyval
  job_timeout :: rat
  job_env :: "(string \<times> pyval) list"
  job_status :: string
  job_error :: pyval
  job_voting :: bool
  queued_at :: rat
  started_at :: "rat option"    \<comment> \<open>\<open>None\<close>: the attribute is not set\<close>
  finished_at :: rat
  job_log_path :: string

record jst = vst +
  the_job :: job
  has_runner :: bool            \<comment> \<open>the attribute \<^verbatim>\<open>runner\<close> is set\<close>
  r_prov :: "string option"     \<comment> \<open>the attribute \<^verbatim>\<open>prov\<close> of the ssh runner\<close>
  r_vms :: "(nat \<times> vm) list"
  r_log :: string

type_synonym ('z, 'a) jprog = "('z jst_scheme, 'a) prog"
type_synonym 'z handlers = "(job \<Rightarrow> ('z, unit) jprog) list"

definition SAFE_CHARS :: string where
  "SAFE_CHARS = ascii_letters @ ''0123456789'' @ ''_''"

definition get_valid_filename :: "string \<Rightarrow> string" where
  "get_valid_filename name = filter (\<lambda>c. c \<in> set SAFE_CHARS) (map (\<lambda>c. if c = CHR '' '' then CHR ''_'' else c) name)"

text \<open>\<^verbatim>\<open>self.config.get("timeout", 90) * 60\<close>, for a number.\<close>

definition timeout_seconds :: "pyval \<Rightarrow> rat result" where
  "timeout_seconds v = (case v of
     PStr _ \<Rightarrow> Inl Unmodelled | PList _ \<Rightarrow> Inl Unmodelled | _ \<Rightarrow> bindR (num_val v) (\<lambda>x. Inr (x * 60)))"

definition job_new :: "env \<Rightarrow> cfgdata \<Rightarrow> string \<Rightarrow> string \<Rightarrow> ('x io_scheme, job) prog" where
  "job_new E data task_id name =
     bnd (now E) (\<lambda>queued.
     bnd (liftR (data_item data ''job'' name)) (\<lambda>config.
     bnd (liftR (bindR (getdef config ''timeout'' (PInt 90)) timeout_seconds)) (\<lambda>timeout.
     bnd (get_rnd_name E ''JOB'' 10) (\<lambda>i.
     bnd (liftR (bindR (getdef config ''env'' (PDict [])) py_items)) (\<lambda>envs.
     ret \<lparr>job_id = i, job_name = name, job_task = task_id, job_config = config, job_timeout = timeout, job_env = envs,
          job_status = ''__init__'', job_error = PInt 254, job_voting = True, queued_at = queued, started_at = None,
          finished_at = 0, job_log_path = path_join task_id name\<rparr>)))))"

definition upd_job :: "(job \<Rightarrow> job) \<Rightarrow> ('z, unit) jprog" where
  "upd_job f = modify (\<lambda>s. s\<lparr>the_job := f (the_job s)\<rparr>)"

text \<open>\<^verbatim>\<open>Root.job_updated\<close>\<close>

definition job_updated :: "'z handlers \<Rightarrow> ('z, unit) jprog" where
  "job_updated hs = bnd (gets the_job) (\<lambda>j. forM hs (\<lambda>cb. cb j))"

definition set_status :: "'z handlers \<Rightarrow> string \<Rightarrow> ('z, unit) jprog" where
  "set_status hs status = bnd (upd_job (\<lambda>j. j\<lparr>job_status := status\<rparr>)) (\<lambda>_. job_updated hs)"

section \<open>The interface of a runner\<close>

text \<open>The methods of a runner object: its constructor, \<^verbatim>\<open>run\<close> and \<^verbatim>\<open>cleanup\<close>.\<close>

record 'z runner_ops =
  ro_init :: "env \<Rightarrow> ('z, unit) jprog"
  ro_run :: "env \<Rightarrow> ('z, pyval) jprog"
  ro_cleanup :: "env \<Rightarrow> ('z, unit) jprog"

type_synonym 'z modules = "string \<Rightarrow> (pyval \<Rightarrow> pyval \<Rightarrow> 'z runner_ops) result"

text \<open>\<^verbatim>\<open>self.root.config.get_instance(runner_cfg, self, runner_local_cfg)\<close> up to the call of the constructor.\<close>

definition find_runner :: "cfgdata \<Rightarrow> 'z modules \<Rightarrow> pyval \<Rightarrow> 'z runner_ops result" where
  "find_runner data mods config =
     bindR (getitem config ''runner'') (\<lambda>lcfg.
     bindR (bindR (getitem lcfg ''name'') (as_str TypeError)) (\<lambda>name.
     bindR (data_item data ''runner'' name) (\<lambda>runner_cfg.
     bindR (bindR (getitem runner_cfg ''module'') (as_str Unmodelled)) (\<lambda>m.
     bindR (mods m) (\<lambda>cls. Inr (cls runner_cfg lcfg))))))"

definition try_finally :: "('s, 'a) prog \<Rightarrow> ('s, unit) prog \<Rightarrow> ('s, 'a) prog" where
  "try_finally m n = bnd (catch m (\<lambda>e. bnd n (\<lambda>_. raise e))) (\<lambda>a. bnd n (\<lambda>_. ret a))"

fun failure_status :: "exn \<Rightarrow> string" where
  "failure_status TimeoutError = ''TIMEOUT''"
| "failure_status CancelledError = ''CANCELLED''"
| "failure_status e = ''ERROR''"

definition end_status :: "pyval \<Rightarrow> string" where
  "end_status err = (if truthy err then ''FAILURE'' else ''SUCCESS'')"

definition watch_runner :: "env \<Rightarrow> 'z handlers \<Rightarrow> 'z runner_ops \<Rightarrow> ('z, unit) jprog" where
  "watch_runner E hs ops =
     bnd (gets (job_timeout \<circ> the_job)) (\<lambda>timeout.
     catch
       (bnd (wait_for E timeout (ro_run ops)) (\<lambda>err.
        bnd (upd_job (\<lambda>j. j\<lparr>job_error := err\<rparr>)) (\<lambda>_.
        set_status hs (end_status err))))
       (\<lambda>e. set_status hs (failure_status e)))"

definition job_run :: "env \<Rightarrow> 'z handlers \<Rightarrow> cfgdata \<Rightarrow> 'z modules \<Rightarrow> ('z, unit) jprog" where
  "job_run E hs data mods =
     bnd (set_status hs ''queued'') (\<lambda>_.
     bnd (now E) (\<lambda>t.
     bnd (upd_job (\<lambda>j. j\<lparr>started_at := Some t\<rparr>)) (\<lambda>_.
     bnd (gets (job_config \<circ> the_job)) (\<lambda>config.
     bnd (liftR (find_runner data mods config)) (\<lambda>ops.
     bnd (ro_init ops E) (\<lambda>_.
     bnd (modify (\<lambda>s. s\<lparr>has_runner := True\<rparr>)) (\<lambda>_.
     try_finally (watch_runner E hs ops)
       (bnd (now E) (\<lambda>t. upd_job (\<lambda>j. j\<lparr>finished_at := t\<rparr>))))))))))"

definition job_cleanup :: "env \<Rightarrow> cfgdata \<Rightarrow> 'z modules \<Rightarrow> ('z, unit) jprog" where
  "job_cleanup E data mods =
     bnd (gets has_runner) (\<lambda>b. if \<not> b then raise AttributeError else
     bnd (gets (job_config \<circ> the_job)) (\<lambda>config.
     bnd (liftR (find_runner data mods config)) (\<lambda>ops. ro_cleanup ops E)))"

text \<open>\<^verbatim>\<open>int(x)\<close> truncates towards zero.\<close>

definition py_int :: "rat \<Rightarrow> int" where
  "py_int x = (if 0 \<le> x then \<lfloor>x\<rfloor> else \<lceil>x\<rceil>)"

definition job_to_dict :: "env \<Rightarrow> job \<Rightarrow> ('x io_scheme, pyval) prog" where
  "job_to_dict E j =
     bnd (now E) (\<lambda>t.
     ret (PDict [(''id'', PStr (job_id j)), (''name'', PStr (job_name j)), (''status'', PStr (job_status j)),
       (''task'', PStr (job_task j)), (''finished_at'', PFloat (finished_at j)),
       (''seconds'', PFloat (of_int (py_int t) - queued_at j))]))"

section \<open>The fake runner\<close>

fun int_pair :: "pyval \<Rightarrow> (int \<times> int) result" where
  "int_pair (PList [PInt a, PInt b]) = Inr (a, b)"
| "int_pair _ = Inl TypeError"

text \<open>\<^verbatim>\<open>asyncio.sleep(random.randint(*self.cfg.get(k, dflt)))\<close>\<close>

definition rnd_sleep :: "env \<Rightarrow> pyval \<Rightarrow> string \<Rightarrow> int \<times> int \<Rightarrow> ('x io_scheme, unit) prog" where
  "rnd_sleep E cfg k dflt =
     bnd (liftR (bindR (getdef cfg k (PList [PInt (fst dflt), PInt (snd dflt)])) int_pair)) (\<lambda>(a, b).
     bnd (random_randint E a b) (\<lambda>t. sleep E (of_int t)))"

definition fake_boot :: "env \<Rightarrow> pyval \<Rightarrow> ('x io_scheme, unit) prog" where
  "fake_boot E cfg = rnd_sleep E cfg ''sleep-build'' (1, 2)"

definition fake_build :: "env \<Rightarrow> pyval \<Rightarrow> ('x io_scheme, unit) prog" where
  "fake_build E cfg = rnd_sleep E cfg ''sleep-build'' (1, 2)"

definition fake_run :: "env \<Rightarrow> pyval \<Rightarrow> ('z, pyval) jprog" where
  "fake_run E cfg =
     bnd (now E) (\<lambda>t.
     bnd (upd_job (\<lambda>j. j\<lparr>started_at := Some t\<rparr>)) (\<lambda>_.
     bnd (rnd_sleep E cfg ''sleep-run'' (1, 2)) (\<lambda>_. ret PNone)))"

definition fake_run_script :: "env \<Rightarrow> pyval \<Rightarrow> ('x io_scheme, unit) prog" where
  "fake_run_script E cfg = rnd_sleep E cfg ''sleep-run'' (1, 2)"

definition fake_cleanup :: "env \<Rightarrow> pyval \<Rightarrow> ('x io_scheme, unit) prog" where
  "fake_cleanup E cfg = rnd_sleep E cfg ''sleep-cleanup'' (2, 4)"

definition fake_runner :: "pyval \<Rightarrow> pyval \<Rightarrow> 'z runner_ops" where
  "fake_runner cfg lcfg = \<lparr>ro_init = (\<lambda>E. ret ()), ro_run = (\<lambda>E. fake_run E cfg), ro_cleanup = (\<lambda>E. fake_cleanup E cfg)\<rparr>"

section \<open>The ssh runner\<close>

definition ssh_init :: "env \<Rightarrow> pyval \<Rightarrow> ('z, unit) jprog" where
  "ssh_init E cfg =
     bnd (modify (\<lambda>s. s\<lparr>r_vms := [], r_prov := None\<rparr>)) (\<lambda>_.
     bnd (liftR (bindR (getitem cfg ''logs'') (as_str TypeError))) (\<lambda>logs.
     bnd (gets (\<lambda>s. path_join logs (job_log_path (the_job s)))) (\<lambda>path.
     bnd (modify (\<lambda>s. s\<lparr>r_log := path\<rparr>)) (\<lambda>_.
     bnd (io_do (MakeDirs path) (\<lambda>tr. case mkdirs_errno E tr path of
            Some n \<Rightarrow> if n = EEXIST then Inr () else Inl (OSError n) | None \<Rightarrow> Inr ())) (\<lambda>_.
     io_do (OpenLog (path_join path ''console.txt''))
       (\<lambda>tr. case open_errno E tr (path_join path ''console.txt'') of Some n \<Rightarrow> Inl (OSError n) | None \<Rightarrow> Inr ()))))))"

definition ssh_cb :: "string \<Rightarrow> ('z, unit) jprog" where
  "ssh_cb line = io_do (LogWrite line) (\<lambda>_. Inr ())"

text \<open>The scripts of one machine: \<open>True\<close> when one of them failed and \<^verbatim>\<open>run\<close> returns 1.\<close>

fun run_scripts :: "env \<Rightarrow> 'z handlers \<Rightarrow> cfgdata \<Rightarrow> 'z jst_ext host \<Rightarrow> vm \<Rightarrow> pyval list \<Rightarrow> ('z, bool) jprog" where
  "run_scripts E hs data H v [] = ret False"
| "run_scripts E hs data H v (sc # scs) =
     bnd (liftR (as_str TypeError sc)) (\<lambda>script.
     bnd (liftR (data_item data ''script'' script)) (\<lambda>body.
     bnd (set_status hs script) (\<lambda>_.
     bnd (gets (job_env \<circ> the_job)) (\<lambda>envs.
     bnd (catch (bnd (run_script E H v body envs True ssh_cb) (\<lambda>_. ret False))
            (\<lambda>e. case e of SSHError _ \<Rightarrow> ret True | _ \<Rightarrow> raise e)) (\<lambda>failed.
     if failed then ret True else run_scripts E hs data H v scs)))))"

fun run_all :: "env \<Rightarrow> 'z handlers \<Rightarrow> cfgdata \<Rightarrow> 'z jst_ext prov \<Rightarrow> ((nat \<times> vm) \<times> pyval) list \<Rightarrow> ('z, pyval) jprog" where
  "run_all E hs data P [] = ret PNone"
| "run_all E hs data P (((i, v), scripts) # rest) =
     bnd (liftR (py_iter scripts)) (\<lambda>scs.
     bnd (run_scripts E hs data (p_host P i) v scs) (\<lambda>failed.
     if failed then ret (PInt 1) else run_all E hs data P rest))"

definition ssh_run_job :: "env \<Rightarrow> 'z handlers \<Rightarrow> cfgdata \<Rightarrow> (string \<times> 'z jst_ext prov) list \<Rightarrow> pyval \<Rightarrow> pyval \<Rightarrow> ('z, pyval) jprog" where
  "ssh_run_job E hs data provs cfg lcfg =
     bnd (liftR (bindR (getitem cfg ''provider'') (as_str Unmodelled))) (\<lambda>name.
     bnd (liftR (case dlookup provs name of Some P \<Rightarrow> Inr P | None \<Rightarrow> Inl (KeyError name))) (\<lambda>P.
     bnd (modify (\<lambda>s. s\<lparr>r_prov := Some name\<rparr>)) (\<lambda>_.
     bnd (liftR (bindR (getitem lcfg ''vms'') py_iter)) (\<lambda>vm_confs.
     bnd (liftR (mapR (\<lambda>c. getdef c ''scripts'' (PList [])) vm_confs)) (\<lambda>scripts.
     bnd (prov_get_vms E P data vm_confs) (\<lambda>vms.
     bnd (modify (\<lambda>s. s\<lparr>r_vms := vms\<rparr>)) (\<lambda>_.
     run_all E hs data P (zip vms scripts))))))))"

fun scp_pair :: "pyval \<Rightarrow> (string \<times> string) result" where
  "scp_pair (PList [PStr src, PStr dst]) = Inr (src, dst)"
| "scp_pair (PList ps) = (if length ps = 2 then Inl Unmodelled else Inl (ValueError ''unpack''))"
| "scp_pair (PStr w) = Inl Unmodelled"
| "scp_pair (PDict d) = Inl Unmodelled"
| "scp_pair _ = Inl TypeError"

definition scp_files :: "env \<Rightarrow> 'z jst_ext host \<Rightarrow> vm \<Rightarrow> ('z, unit) jprog" where
  "scp_files E H v =
     bnd (liftR (bindR (getdef (local_cfg v) ''scp'' (PList [])) py_iter)) (\<lambda>ps.
     forM ps (\<lambda>p.
       bnd (liftR (scp_pair p)) (\<lambda>(src, dst).
       bnd (gets (\<lambda>s. path_join (r_log s) dst)) (\<lambda>target.
       bnd (get_ssh E H v) (\<lambda>ssh.
       scp_get E ssh src target)))))"

definition ssh_cleanup :: "env \<Rightarrow> (string \<times> 'z jst_ext prov) list \<Rightarrow> ('z, unit) jprog" where
  "ssh_cleanup E provs =
     bnd (io_do LogClose (\<lambda>_. Inr ())) (\<lambda>_.
     bnd (gets (\<lambda>s. (r_prov s, r_vms s))) (\<lambda>(name, vms).
     case Option.bind name (dlookup provs) of
       None \<Rightarrow> raise AttributeError
     | Some P \<Rightarrow>
         bnd (forM vms (\<lambda>(i, v). scp_files E (p_host P i) v)) (\<lambda>_.
         prov_cleanup E P vms)))"

definition ssh_runner :: "'z handlers \<Rightarrow> cfgdata \<Rightarrow> (string \<times> 'z jst_ext prov) list \<Rightarrow> pyval \<Rightarrow> pyval \<Rightarrow> 'z runner_ops" where
  "ssh_runner hs data provs cfg lcfg = \<lparr>ro_init = (\<lambda>E. ssh_init E cfg),
     ro_run = (\<lambda>E. ssh_run_job E hs data provs cfg lcfg), ro_cleanup = (\<lambda>E. ssh_cleanup E provs)\<rparr>"

text \<open>The runner modules of the repository; any other name fails to import.\<close>

definition runner_modules :: "'z handlers \<Rightarrow> cfgdata \<Rightarrow> (string \<times> 'z jst_ext prov) list \<Rightarrow> 'z modules" where
  "runner_modules hs data provs m =
     (if m = ''rallyci.runners.fake'' then Inr fake_runner
      else if m = ''rallyci.runners.ssh'' then Inr (ssh_runner hs data provs)
      else Inl (ForeignError ''ImportError''))"

section \<open>The contract of a runner\<close>

text \<open>Everything of a job but what a runner may change: its status and the time it started.\<close>

definition jcore :: "job \<Rightarrow> job" where
  "jcore j = j\<lparr>job_status := [], started_at := None\<rparr>"

definition jview :: "'z jst_scheme \<Rightarrow> job \<times> bool" where
  "jview s = (jcore (the_job s), has_runner s)"

definition jall :: "'z jst_scheme \<Rightarrow> job \<times> bool \<times> string option \<times> (nat \<times> vm) list \<times> string" where
  "jall s = (the_job s, has_runner s, r_prov s, r_vms s, r_log s)"

lemma jview_updates [simp]:
  "jview (s\<lparr>r_prov := x\<rparr>) = jview s" "jview (s\<lparr>r_vms := y\<rparr>) = jview s" "jview (s\<lparr>r_log := z\<rparr>) = jview s"
  "jview (s\<lparr>trace := w\<rparr>) = jview s"
  by (simp_all add: jview_def)

lemma more_jall: "vst.more s = vst.more t \<Longrightarrow> jall s = jall t"
  by (cases s; cases t) (simp add: jall_def)

lemma jall_jview: "jall s = jall t \<Longrightarrow> jview s = jview t"
  by (simp add: jall_def jview_def)

lemma keeps_jview_jall: "keeps jall m \<Longrightarrow> keeps jview m"
  by (rule keepsI, drule keepsD, assumption) (rule jall_jview, simp)

lemma keeps_jall_more: "keeps vst.more m \<Longrightarrow> keeps jall m"
  by (rule keepsI, drule keepsD, assumption) (rule more_jall, simp)

lemmas keeps_jview_outer = keeps_jview_jall [OF keeps_jall_more [OF keeps_outer_more]]

text \<open>
  What \<^verbatim>\<open>Job.run\<close> relies on: constructor, \<^verbatim>\<open>run\<close> and \<^verbatim>\<open>cleanup\<close> leave the result fields of the job alone; the constructor and
  the cleanup end, and so does \<^verbatim>\<open>run\<close> once a deadline is set.
\<close>

locale job_runner =
  fixes ops :: "'z runner_ops"
  assumes init_keeps: "keeps jview (ro_init ops E)"
    and run_keeps: "keeps jview (ro_run ops E)"
    and cleanup_keeps: "keeps jview (ro_cleanup ops E)"
    and init_ends: "clock_ok E \<Longrightarrow> returns (ro_init ops E)"
    and cleanup_ends: "clock_ok E \<Longrightarrow> returns (ro_cleanup ops E)"
    and run_ends: "clock_ok E \<Longrightarrow> ends (on_time E D n) (ro_run ops (with_deadline E D n))"

text \<open>Handlers of status updates may do anything but change the job they are told of, and end.\<close>

locale job_handlers =
  fixes hs :: "'z handlers"
  assumes handler_keeps: "cb \<in> set hs \<Longrightarrow> keeps jall (cb j)"
    and handler_ends: "cb \<in> set hs \<Longrightarrow> returns (cb j)"
begin

lemma keeps_job_updated: "keeps jall (job_updated hs)"
  unfolding job_updated_def by (intro keeps_intro handler_keeps)

lemma returns_set_status: "returns (set_status hs st)"
  unfolding set_status_def upd_job_def job_updated_def by (intro total_intro handler_ends)

lemma keeps_set_status: "keeps jview (set_status hs st)"
proof -
  have "keeps jview (upd_job (\<lambda>j. j\<lparr>job_status := st\<rparr>))"
    unfolding upd_job_def by (intro keeps_intro) (simp add: jview_def jcore_def)
  then show ?thesis
    unfolding set_status_def by (intro keeps_intro keeps_jview_jall [OF keeps_job_updated])
qed

lemma set_status_result:
  assumes "set_status hs st s = Some (r, t)"
  shows "jall t = jall (s\<lparr>the_job := (the_job s)\<lparr>job_status := st\<rparr>\<rparr>)"
proof -
  have "job_updated hs (s\<lparr>the_job := (the_job s)\<lparr>job_status := st\<rparr>\<rparr>) = Some (r, t)"
    using assms by (simp add: set_status_def upd_job_def)
  then show ?thesis by (rule keepsD [OF keeps_job_updated])
qed

end

interpretation no_handlers: job_handlers "[]"
  by unfold_locales simp_all

section \<open>The fake runner\<close>

lemma emits_rnd_sleep: "emits (\<lambda>_. True) (rnd_sleep E cfg k d)"
  unfolding rnd_sleep_def by (intro io_frame) (auto intro!: io_frame split: prod.splits)

lemma returns_rnd_sleep [total_intro]: "returns (rnd_sleep E cfg k d)"
  unfolding rnd_sleep_def by (intro total_intro)

lemma jview_emits: "emits P m \<Longrightarrow> keeps jview m"
  by (rule emits_keeps_view) (simp_all add: jview_def)

interpretation fake: job_runner "fake_runner cfg lcfg" for cfg lcfg
proof unfold_locales
  fix E :: env and D n
  show "keeps jview (ro_init (fake_runner cfg lcfg) E)" by (simp add: fake_runner_def keeps_atomic)
  show "keeps jview (ro_run (fake_runner cfg lcfg) E)"
    unfolding fake_runner_def runner_ops.simps fake_run_def upd_job_def
    by (intro keeps_intro jview_emits [OF emits_rnd_sleep] jview_emits [where P = "\<lambda>_. True", OF emits_prims(2)])
      (simp_all add: jview_def jcore_def)
  show "keeps jview (ro_cleanup (fake_runner cfg lcfg) E)"
    unfolding fake_runner_def runner_ops.simps fake_cleanup_def by (rule jview_emits [OF emits_rnd_sleep])
  show "returns (ro_init (fake_runner cfg lcfg) E)" by (simp add: fake_runner_def total_atomic)
  show "returns (ro_cleanup (fake_runner cfg lcfg) E)"
    unfolding fake_runner_def runner_ops.simps fake_cleanup_def by (intro total_intro)
  show "ends (on_time E D n) (ro_run (fake_runner cfg lcfg) (with_deadline E D n))"
    unfolding fake_runner_def runner_ops.simps fake_run_def upd_job_def by (intro ends_returns total_intro)
qed

section \<open>The ssh runner\<close>

lemma keeps_run_script_jview: "keeps jview (run_script E H v script envs re ssh_cb)"
  by (rule keeps_jview_outer, intro keeps_run_script)
    (simp add: ssh_cb_def emits_keeps_view [OF emits_io_do [where P = "\<lambda>_. True"]])

lemma returns_ssh_cb: "returns (ssh_cb line)"
  unfolding ssh_cb_def by (intro total_intro)

lemma returns_scp_get [total_intro]: "returns (scp_get E h src dst)"
  unfolding scp_get_def by (intro total_intro) (auto intro!: total_intro split: pstatus.splits)

lemma emits_scp_get: "emits (\<lambda>_. True) (scp_get E h src dst)"
  unfolding scp_get_def by (intro io_frame) (auto intro!: io_frame split: pstatus.splits)

lemma on_time_jst [simp]: "on_time E D n (s\<lparr>r_prov := x\<rparr>) = on_time E D n s"
  by (simp add: on_time_def)

lemma keeps_case_exn:
  "(\<And>w. keeps g (f w)) \<Longrightarrow> keeps g k \<Longrightarrow> keeps g (case e of SSHError w \<Rightarrow> f w | _ \<Rightarrow> k)"
  by (cases e) simp_all

lemma returns_case_exn:
  "(\<And>w. returns (f w)) \<Longrightarrow> returns k \<Longrightarrow> returns (case e of SSHError w \<Rightarrow> f w | _ \<Rightarrow> k)"
  by (cases e) simp_all

lemma ends_liftR: "(\<And>a. r = Inr a \<Longrightarrow> ends I (f a)) \<Longrightarrow> ends I (bnd (liftR r) f)"
  by (cases r) (simp_all add: ends_def)

locale deployment = job_handlers hs for hs :: "'z handlers" +
  fixes provs :: "(string \<times> 'z jst_ext prov) list" and rank :: "string \<Rightarrow> nat"
  assumes placements: "(name, P) \<in> set provs \<Longrightarrow> placement P"
    and acyclic: "(name, P) \<in> set provs \<Longrightarrow> image_parent (p_host P i) m = Some p \<Longrightarrow> rank p < rank m"
begin

lemma provs_lookup: "dlookup provs name = Some P \<Longrightarrow> (name, P) \<in> set provs"
  by (simp add: dlookup_map_of map_of_SomeD)

lemma keeps_run_scripts: "keeps jview (run_scripts E hs data H v scs)"
  by (induction scs)
    (simp_all only: run_scripts.simps, (intro keeps_intro keeps_set_status keeps_run_script_jview keeps_case_exn | assumption)+)

lemma returns_run_scripts: "clock_ok E \<Longrightarrow> returns (run_scripts E hs data H v scs)"
proof (induction scs)
  case (Cons sc scs)
  then show ?case unfolding run_scripts.simps
    by (intro total_intro returns_set_status returns_ssh_cb returns_case_exn)
qed (simp only: run_scripts.simps total_atomic)

lemma keeps_run_all: "keeps jview (run_all E hs data P jobs)"
proof (induction jobs)
  case (Cons j jobs)
  obtain i v sc where "j = ((i, v), sc)" by (metis prod.collapse)
  with Cons show ?case by (simp only: run_all.simps) (intro keeps_intro keeps_run_scripts)
qed (simp only: run_all.simps keeps_atomic)

lemma returns_run_all:
  assumes "clock_ok E"
  shows "returns (run_all E hs data P jobs)"
proof (induction jobs)
  case (Cons j jobs)
  obtain i v sc where "j = ((i, v), sc)" by (metis prod.collapse)
  with Cons assms show ?case by (simp only: run_all.simps) (intro total_intro returns_run_scripts)
qed (simp only: run_all.simps total_atomic)

lemma keeps_scp_files: "keeps jview (scp_files E H v)"
  unfolding scp_files_def
  by (intro keeps_intro keeps_jview_outer [OF keeps_get_ssh] jview_emits [OF emits_scp_get])

lemma returns_scp_files: "clock_ok E \<Longrightarrow> returns (scp_files E H v)"
  unfolding scp_files_def get_ssh_def by (intro total_intro)

lemma find_prov:
  "(case dlookup provs name of Some P \<Rightarrow> Inr P | None \<Rightarrow> Inl (KeyError name)) = Inr P \<Longrightarrow> (name, P) \<in> set provs"
  by (auto split: option.splits intro: provs_lookup)

lemma keeps_ssh_run_job: "keeps jview (ssh_run_job E hs data provs cfg lcfg)"
proof -
  have get: "keeps jview (prov_get_vms E P data confs)" if "(name, P) \<in> set provs" for name P confs
    by (rule keeps_jview_jall [OF keeps_jall_more [OF placement.keeps_prov_get_vms [OF placements [OF that]]]])
  show ?thesis
    unfolding ssh_run_job_def
    apply (rule keeps_liftR, rule keeps_liftR, drule find_prov)
    by (intro keeps_intro keeps_run_all, simp_all add: get)
qed

lemma ssh_run_job_ends:
  assumes "clock_ok E"
  shows "ends (on_time E D n) (ssh_run_job (with_deadline E D n) hs data provs cfg lcfg)"
proof -
  have get: "ends (on_time E D n) (prov_get_vms (with_deadline E D n) P data confs)" if "(name, P) \<in> set provs" for name P confs
    using placement.prov_get_vms_ends [OF placements [OF that] assms] acyclic [OF that] by blast
  have clk: "clock_ok (with_deadline E D n)" using assms by simp
  show ?thesis
    unfolding ssh_run_job_def
    apply (rule ends_liftR, rule ends_liftR, drule find_prov)
    apply (rule ends_honest_bnd, rule total_atomic, rule honest_modify, simp)
    apply (rule ends_liftR, rule ends_liftR, rule ends_bnd_returns, erule get)
    by (intro total_intro returns_run_all clk)
qed

lemma keeps_ssh_cleanup: "keeps jview (ssh_cleanup E provs)"
proof -
  have clean: "keeps jview (prov_cleanup E P vms)" if "dlookup provs name = Some P" for name P vms
    by (rule keeps_jview_jall [OF keeps_jall_more [OF placement.keeps_prov_cleanup [OF placements [OF provs_lookup [OF that]]]]])
  have "keeps jview (case Option.bind name (dlookup provs) of None \<Rightarrow> raise AttributeError
     | Some P \<Rightarrow> bnd (forM vms (\<lambda>(i, v). scp_files E (p_host P i) v)) (\<lambda>_. prov_cleanup E P vms))" for name vms
  proof (cases "Option.bind name (dlookup provs)")
    case (Some P)
    then obtain m where "dlookup provs m = Some P" by (auto simp: Option.bind_eq_Some_conv)
    with Some show ?thesis by (simp only: option.case) (intro keeps_intro keeps_scp_files clean)
  qed (simp add: keeps_atomic)
  then show ?thesis
    unfolding ssh_cleanup_def
    by (intro keeps_bnd keeps_case_prod keeps_atomic jview_emits [OF emits_io_do [where P = "\<lambda>_. True"]] TrueI)
qed

lemma returns_ssh_cleanup:
  assumes "clock_ok E"
  shows "returns (ssh_cleanup E provs)"
proof -
  have "returns (case Option.bind name (dlookup provs) of None \<Rightarrow> raise AttributeError
     | Some P \<Rightarrow> bnd (forM vms (\<lambda>(i, v). scp_files E (p_host P i) v)) (\<lambda>_. prov_cleanup E P vms))" for name vms
  proof (cases "Option.bind name (dlookup provs)")
    case (Some P)
    then obtain m where "dlookup provs m = Some P" by (auto simp: Option.bind_eq_Some_conv)
    then have "returns (prov_cleanup E P vms)"
      using assms by (intro placement.returns_prov_cleanup [OF placements [OF provs_lookup]])
    with Some show ?thesis by (simp only: option.case) (intro total_intro returns_scp_files assms)
  qed (simp add: total_atomic)
  then show ?thesis unfolding ssh_cleanup_def by (intro total_bnd total_case_prod total_atomic total_io_do)
qed

lemma keeps_ssh_init: "keeps jview (ssh_init E cfg)"
  unfolding ssh_init_def
  by (intro keeps_intro jview_emits [OF emits_io_do [where P = "\<lambda>_. True"]] TrueI) simp_all

lemma returns_ssh_init: "returns (ssh_init E cfg)"
  unfolding ssh_init_def by (intro total_intro)

sublocale ssh: job_runner "ssh_runner hs data provs cfg lcfg" for data cfg lcfg
  by unfold_locales (simp_all add: ssh_runner_def keeps_ssh_init keeps_ssh_run_job keeps_ssh_cleanup returns_ssh_init
      returns_ssh_cleanup ssh_run_job_ends)

lemma module_runner:
  assumes "find_runner data (runner_modules hs data provs) config = Inr ops"
  shows "job_runner ops"
  using assms fake.job_runner_axioms ssh.job_runner_axioms
  unfolding find_runner_def runner_modules_def
  by (auto simp: bindR_Inr_iff split: if_splits)

end

section \<open>How a job ends\<close>

lemma wait_for_ends:
  assumes "\<And>D n. ends (on_time E D n) (m (with_deadline E D n))"
  shows "returns (wait_for E t m)"
proof (rule totalI)
  fix s :: "'a io_scheme"
  let ?D = "clock E (trace s) + t"
  have "on_time E ?D (length (trace s)) s" by (simp add: on_time_def timed_out_def late_def list_ex_iff)
  with assms obtain y where "m (with_deadline E ?D (length (trace s))) s = Some y" unfolding ends_def by blast
  then show "\<exists>y. wait_for E t m s = Some y" by (cases y) (simp add: wait_for_def Let_def)
qed

definition never_raises :: "('s, 'a) prog \<Rightarrow> bool" where
  "never_raises m \<longleftrightarrow> (\<forall>s e t. m s \<noteq> Some (Inl e, t))"

definition quiet_handlers :: "'z handlers \<Rightarrow> bool" where
  "quiet_handlers hs \<longleftrightarrow> (\<forall>cb \<in> set hs. \<forall>j. never_raises (cb j))"

context job_handlers
begin

lemma set_status_quiet:
  assumes "quiet_handlers hs" and "set_status hs st s = Some (r, t)"
  shows "r = Inr ()"
proof -
  have "r = Inr ()" if "forM xs (\<lambda>cb. cb j) u = Some (r, t)" "set xs \<subseteq> set hs" for xs j u
    using that
  proof (induction xs arbitrary: u)
    case (Cons cb xs)
    have "never_raises (cb j)" using Cons.prems(2) assms(1) by (simp add: quiet_handlers_def)
    with Cons show ?case by (auto elim!: bnd_SomeE simp: never_raises_def)
  qed simp
  with assms(2) show ?thesis by (simp add: set_status_def upd_job_def job_updated_def)
qed

lemma returns_watch_runner:
  assumes "clock_ok E" and "job_runner ops"
  shows "returns (watch_runner E hs ops)"
proof -
  have "returns (wait_for E t (ro_run ops))" for t
    by (rule wait_for_ends) (rule job_runner.run_ends [OF assms(2,1)])
  then show ?thesis
    unfolding watch_runner_def upd_job_def by (intro total_bnd total_catch total_atomic returns_set_status)
qed

lemma watch_runner_result:
  assumes quiet: "quiet_handlers hs" and "job_runner ops"
    and run: "watch_runner E hs ops s = Some (r, t)"
  shows "r = Inr () \<and> has_runner t = has_runner s \<and>
    (job_status (the_job t) = end_status (job_error (the_job t)) \<or>
     job_error (the_job t) = job_error (the_job s) \<and> job_status (the_job t) \<in> {''TIMEOUT'', ''CANCELLED'', ''ERROR''})"
proof -
  let ?wait = "wait_for E (job_timeout (the_job s)) (ro_run ops)"
  have kw: "keeps jview ?wait" by (intro keeps_intro job_runner.run_keeps [OF assms(2)])
  from run have "catch (bnd ?wait (\<lambda>err. bnd (upd_job (\<lambda>j. j\<lparr>job_error := err\<rparr>)) (\<lambda>_. set_status hs (end_status err))))
      (\<lambda>e. set_status hs (failure_status e)) s = Some (r, t)"
    by (simp add: watch_runner_def)
  then show ?thesis
  proof (cases rule: catch_SomeE)
    case (raised e u)
    from raised(1) have "?wait s = Some (Inl e, u)"
    proof (cases rule: bnd_SomeE)
      case (returned err w)
      then have "set_status hs (end_status err) (w\<lparr>the_job := (the_job w)\<lparr>job_error := err\<rparr>\<rparr>) = Some (Inl e, u)"
        by (simp add: upd_job_def)
      then show ?thesis using set_status_quiet [OF quiet] by auto
    qed simp
    then have "jview u = jview s" by (rule keepsD [OF kw])
    moreover have "jall t = jall (u\<lparr>the_job := (the_job u)\<lparr>job_status := failure_status e\<rparr>\<rparr>)"
      using raised(2) by (rule set_status_result)
    moreover have "r = Inr ()" using set_status_quiet [OF quiet raised(2)] .
    moreover have "failure_status e \<in> {''TIMEOUT'', ''CANCELLED'', ''ERROR''}" by (cases e) simp_all
    moreover have "job_error (jcore j) = job_error j" for j by (simp add: jcore_def)
    ultimately show ?thesis unfolding jall_def jview_def by simp (metis (no_types, lifting))
  next
    case (returned a)
    then obtain err w where w: "?wait s = Some (Inr err, w)"
      "set_status hs (end_status err) (w\<lparr>the_job := (the_job w)\<lparr>job_error := err\<rparr>\<rparr>) = Some (Inr a, t)"
      by (auto elim!: bnd_InrE simp: upd_job_def)
    from keepsD [OF kw w(1)] have "has_runner w = has_runner s" by (simp add: jview_def)
    with set_status_result [OF w(2)] returned(2) show ?thesis by (simp add: jall_def)
  qed
qed

end

lemma try_finally_eq:
  assumes "m s = Some (r, u)" and "n u = Some (Inr (), t)"
  shows "try_finally m n s = Some (r, t)"
  using assms by (cases r) (simp_all add: try_finally_def bnd_def catch_def raise_def ret_def)

lemma stamp_run: "bnd (now E) (\<lambda>t. upd_job (\<lambda>j. j\<lparr>finished_at := t\<rparr>)) s =
    Some (Inr (), s\<lparr>trace := trace s @ [Clock], the_job := (the_job s)\<lparr>finished_at := clock E (trace s)\<rparr>\<rparr>)"
  by (simp add: bnd_def now_def upd_job_def)

context deployment
begin

lemma returns_job_run:
  assumes "clock_ok E"
  shows "returns (job_run E hs data (runner_modules hs data provs))"
proof -
  have "returns (ro_init ops E)" "returns (watch_runner E hs ops)"
    if "find_runner data (runner_modules hs data provs) config = Inr ops" for config ops
    using module_runner [OF that] assms by (auto intro: returns_watch_runner job_runner.init_ends)
  note r = this
  show ?thesis
    unfolding job_run_def upd_job_def try_finally_def
    apply (rule total_bnd, rule returns_set_status, rule total_bnd, rule total_prims, rule total_bnd, rule total_atomic,
        rule total_bnd, rule total_atomic, rule total_liftR)
    subgoal for a b c config ops
      by (intro total_intro r)
    done
qed

lemma job_run_steps:
  assumes quiet: "quiet_handlers hs"
    and run: "job_run E hs data (runner_modules hs data provs) s = Some (r, t)"
  obtains (early) e where "r = Inl e" "jview t = jview s"
    | (watched) ops u w where "job_runner ops" "watch_runner E hs ops u = Some (r, w)" "jview u = (jcore (the_job s), True)"
        "t = w\<lparr>trace := trace w @ [Clock], the_job := (the_job w)\<lparr>finished_at := clock E (trace w)\<rparr>\<rparr>"
proof -
  let ?mods = "runner_modules hs data provs"
  obtain s1 where s1: "set_status hs ''queued'' s = Some (Inr (), s1)"
  proof -
    obtain r1 s1 where s1: "set_status hs ''queued'' s = Some (r1, s1)" using returns_set_status by (rule totalE)
    with set_status_quiet [OF quiet s1] that show thesis by simp
  qed
  let ?s2 = "s1\<lparr>trace := trace s1 @ [Clock], the_job := (the_job s1)\<lparr>started_at := Some (clock E (trace s1))\<rparr>\<rparr>"
  have s2: "jview ?s2 = jview s"
    using keepsD [OF keeps_set_status s1] by (simp add: jview_def jcore_def)
  have run2: "bnd (liftR (find_runner data ?mods (job_config (the_job ?s2)))) (\<lambda>ops.
     bnd (ro_init ops E) (\<lambda>_.
     bnd (modify (\<lambda>s. s\<lparr>has_runner := True\<rparr>)) (\<lambda>_.
     try_finally (watch_runner E hs ops)
       (bnd (now E) (\<lambda>t. upd_job (\<lambda>j. j\<lparr>finished_at := t\<rparr>)))))) ?s2 = Some (r, t)"
    using run s1 by (simp add: job_run_def bnd_run now_def upd_job_def comp_def)
  then show thesis
  proof (cases rule: bnd_SomeE)
    case (raised e)
    then show thesis using early s2 by (auto simp: liftR_def)
  next
    case (returned ops u0)
    then have ops: "find_runner data ?mods (job_config (the_job ?s2)) = Inr ops" and u0: "u0 = ?s2" by (auto simp: liftR_def)
    have R: "job_runner ops" by (rule module_runner [OF ops])
    from returned(2) show thesis
    proof (cases rule: bnd_SomeE)
      case (raised e)
      have "jview t = jview u0" by (rule keepsD [OF job_runner.init_keeps [OF R] raised(1)])
      with raised(2) early s2 u0 show thesis by simp
    next
      case (returned x u1)
      let ?u = "u1\<lparr>has_runner := True\<rparr>"
      have "jview u1 = jview u0" by (rule keepsD [OF job_runner.init_keeps [OF R] returned(1)])
      then have ju: "jview ?u = (jcore (the_job s), True)" using s2 u0 by (simp add: jview_def)
      from returned(2) have tf: "try_finally (watch_runner E hs ops)
         (bnd (now E) (\<lambda>t. upd_job (\<lambda>j. j\<lparr>finished_at := t\<rparr>))) ?u = Some (r, t)" by simp
      show thesis
      proof (cases "watch_runner E hs ops ?u")
        case None
        with tf show thesis by (simp add: try_finally_def bnd_def catch_def)
      next
        case (Some y)
        obtain r' w where y: "y = (r', w)" by (cases y)
        have "try_finally (watch_runner E hs ops) (bnd (now E) (\<lambda>t. upd_job (\<lambda>j. j\<lparr>finished_at := t\<rparr>))) ?u =
          Some (r', w\<lparr>trace := trace w @ [Clock], the_job := (the_job w)\<lparr>finished_at := clock E (trace w)\<rparr>\<rparr>)"
          using Some unfolding y by (rule try_finally_eq) (rule stamp_run)
        with tf have "r = r'" "t = w\<lparr>trace := trace w @ [Clock], the_job := (the_job w)\<lparr>finished_at := clock E (trace w)\<rparr>\<rparr>" by simp_all
        with watched [OF R _ ju] Some y show thesis by simp
      qed
    qed
  qed
qed

lemma job_run_result:
  assumes quiet: "quiet_handlers hs"
    and fresh: "truthy (job_error (the_job s))" "\<not> has_runner s"
    and run: "job_run E hs data (runner_modules hs data provs) s = Some (r, t)"
  shows "(r = Inr () \<and> has_runner t \<and> job_status (the_job t) \<in> {''SUCCESS'', ''FAILURE'', ''TIMEOUT'', ''CANCELLED'', ''ERROR''} \<and>
      (job_status (the_job t) = ''SUCCESS'' \<longleftrightarrow> \<not> truthy (job_error (the_job t)))) \<or>
    ((\<exists>e. r = Inl e) \<and> \<not> has_runner t \<and> job_error (the_job t) = job_error (the_job s))"
proof -
  have core: "jcore a = jcore b \<Longrightarrow> job_error a = job_error b" for a b
    by (metis (no_types, lifting) jcore_def job.select_convs(8) job.surjective job.update_convs(11) job.update_convs(7))
  from quiet run show ?thesis
  proof (cases rule: job_run_steps)
    case (early e)
    then have "jcore (the_job t) = jcore (the_job s)" "has_runner t = has_runner s" by (simp_all add: jview_def)
    then show ?thesis using early fresh(2) core by blast
  next
    case (watched ops u w)
    have u: "has_runner u" "jcore (the_job u) = jcore (the_job s)" using watched(3) by (simp_all add: jview_def)
    note ue = core [OF u(2)]
    note res = watch_runner_result [OF quiet watched(1,2)]
    have t: "has_runner t = has_runner w" "job_status (the_job t) = job_status (the_job w)"
      "job_error (the_job t) = job_error (the_job w)"
      using watched(4) by simp_all
    from res have "r = Inr ()" "has_runner t" using u(1) t(1) by simp_all
    moreover from res have "job_status (the_job t) \<in> {''SUCCESS'', ''FAILURE'', ''TIMEOUT'', ''CANCELLED'', ''ERROR''} \<and>
      (job_status (the_job t) = ''SUCCESS'' \<longleftrightarrow> \<not> truthy (job_error (the_job t)))"
      unfolding t(2,3) end_status_def using ue fresh(1) by (auto split: if_splits)
    ultimately show ?thesis by blast
  qed
qed

end

lemma deploymentI:
  assumes "\<And>cb j. cb \<in> set hs \<Longrightarrow> keeps jall (cb j) \<and> returns (cb j)"
    and "\<And>name P i. (name, P) \<in> set provs \<Longrightarrow>
      \<exists>E config k c s0 s1. host_new E config k i c s0 = Some (Inr (p_host P i), s1)"
    and "\<And>name P i m p. (name, P) \<in> set provs \<Longrightarrow> image_parent (p_host P i) m = Some p \<Longrightarrow> rank p < rank m"
  shows "deployment hs provs rank"
proof -
  have "placement P" if mem: "(name, P) \<in> set provs" for name P
  proof (rule placement.intro)
    fix E i
    obtain E0 config k c s0 s1 where "host_new E0 config k i c s0 = Some (Inr (p_host P i), s1)" using assms(2) [OF mem] by blast
    then show "vhost E (p_host P i)" by (rule host_new_vhost)
  qed
  then show ?thesis
    using assms(1,3) by (intro deployment.intro job_handlers.intro deployment_axioms.intro) blast+
qed



section \<open>A job for the concrete examples\<close>

definition demo_data :: cfgdata where
  "demo_data = [(''runner'', Named [(''r'', PDict [(''name'', PStr ''r''), (''module'', PStr ''rallyci.runners.fake'')])])]"

definition demo_job :: job where
  "demo_job = \<lparr>job_id = ''J'', job_name = ''unit'', job_task = ''T'', job_config = PDict [(''runner'', PDict [(''name'', PStr ''r'')])],
     job_timeout = 60, job_env = [], job_status = ''__init__'', job_error = PInt 254, job_voting = True, queued_at = 0,
     started_at = None, finished_at = 0, job_log_path = ''T/unit''\<rparr>"

definition demo_jst :: jst where
  "demo_jst = vst.extend (demo_vst [SshReady 0]) (jst.fields demo_job False None [] [])"

lemma demo_job_run:
  "map_option (\<lambda>(r, t). (r, job_status (the_job t)))
     (job_run (demo_env []) [] demo_data (runner_modules [] demo_data []) demo_jst) = Some (Inr (), ''SUCCESS'')"
  by code_simp


definition demo_provs :: "(string \<times> unit jst_ext prov) list" where
  "demo_provs = [(''p'', \<lparr>p_cfg = PDict [], p_host = (\<lambda>i. demo_host_at i demo_tree)\<rparr>)]"

definition demo_rank :: "string \<Rightarrow> nat" where
  "demo_rank n = (if n = ''child'' then 1 else 0)"

lemma demo_provs_hosts:
  assumes "(name, P) \<in> set demo_provs"
  shows "\<exists>E config k c s0 s1. host_new E config k i c (s0 :: jst) = Some (Inr (p_host P i), s1)"
proof -
  have "SshNew \<notin> set (trace demo_jst)" by (simp add: demo_jst_def demo_vst_def vst.defs jst.defs)
  then obtain t where "host_new (demo_env []) demo_tree None i demo_hostcfg demo_jst = Some (Inr (demo_host_at i demo_tree), t)"
    using demo_host_new_at [of demo_tree demo_jst "demo_env []" i] by (auto simp: demo_tree_def)
  moreover have "p_host P i = demo_host_at i demo_tree" using assms by (simp add: demo_provs_def)
  ultimately show ?thesis by metis
qed

lemma demo_provs_rank:
  "(name, P) \<in> set demo_provs \<Longrightarrow> image_parent (p_host P i) m = Some p \<Longrightarrow> demo_rank p < demo_rank m"
  by (auto simp: demo_provs_def demo_rank_def image_parent_def image_conf_def demo_host_at_def demo_tree_def opt_field_def
      opt_str_def split: if_splits)


interpretation demo_site: deployment "[]" demo_provs demo_rank
  by (rule deploymentI) (simp, erule demo_provs_hosts, rule demo_provs_rank)



end
