(* ===== verification/Task.thy ===== *)
theory Task
  imports Job
begin

text \<open>
  \<^verbatim>\<open>rallyci/task.py\<close>: a task holds the jobs of one event of a stream. Here are the creation of a task from an
  event, its environment, the cleanup that publishes the votes and the comment, and the
  dictionary shown by the status service. A stream keeps the keys of its running tasks in the state.
  How \<^verbatim>\<open>Task.run\<close> schedules its jobs belongs to the event loop.
\<close>

section \<open>Times\<close>

definition time_units :: "(int \<times> string \<times> string) list" where
  "time_units = [(86400, ''day'', ''days''), (3600, ''h'', ''h''), (60, ''m'', ''m''), (1, ''s'', ''s'')]"

fun human_parts :: "(int \<times> string \<times> string) list \<Rightarrow> int \<Rightarrow> (int \<times> string) list" where
  "human_parts [] seconds = []"
| "human_parts ((interval, sg, pl) # us) seconds =
     (let a = seconds div interval in
      if a > 0 then (a, if 1 mod a = 0 then sg else pl) # human_parts us (seconds - a * interval)
      else human_parts us seconds)"

definition human_time :: "rat \<Rightarrow> string" where
  "human_time seconds = join '' '' (map (\<lambda>(a, name). int_str a @ name) (human_parts time_units (py_int seconds)))"

section \<open>Tasks\<close>

text \<open>Two strings give the key; every exception, and everything that is not a string, gives the empty key.\<close>

definition get_key :: "pyval \<Rightarrow> string" where
  "get_key event =
     (case (bindR (getitem event ''change'') (\<lambda>c. getitem c ''project''),
            bindR (getitem event ''patchSet'') (\<lambda>p. getitem p ''ref'')) of
        (Inr (PStr project), Inr (PStr ref)) \<Rightarrow> project @ ref
      | _ \<Rightarrow> [])"

record task =
  t_id :: string
  t_project :: string
  t_event :: pyval
  t_jobs :: "job list"
  t_finished_at :: int

fun walk :: "pyval \<Rightarrow> string list \<Rightarrow> pyval result" where
  "walk v [] = Inr v"
| "walk v (k # ks) = bindR (getitem v k) (\<lambda>w. walk w ks)"

text \<open>\<^verbatim>\<open>Task._get_env\<close>: a path that misses a key is skipped, any other error is raised.\<close>

fun env_items :: "pyval \<Rightarrow> (string \<times> pyval) list \<Rightarrow> (string \<times> pyval) list \<Rightarrow> (string \<times> pyval) list result" where
  "env_items event [] r = Inr r"
| "env_items event ((k, v) # kvs) r =
     bindR (as_str AttributeError v) (\<lambda>path.
     (case walk event (split_on (CHR ''.'') path) of
        Inr value \<Rightarrow> env_items event kvs (dset r k value)
      | Inl (KeyError _) \<Rightarrow> env_items event kvs r
      | Inl e \<Rightarrow> Inl e))"

definition get_env :: "pyval \<Rightarrow> pyval \<Rightarrow> (string \<times> pyval) list result" where
  "get_env stream_cfg event =
     bindR (getdef stream_cfg ''env'' PNone) (\<lambda>env.
     if \<not> truthy env then Inr [] else bindR (py_items env) (\<lambda>kvs. env_items event kvs []))"

definition make_jobs :: "env \<Rightarrow> cfgdata \<Rightarrow> string \<Rightarrow> (string \<times> pyval) list \<Rightarrow> bool \<Rightarrow> pyval \<Rightarrow> string \<Rightarrow> ('x io_scheme, job list) prog" where
  "make_jobs E data tid env voting cfg sec =
     bnd (liftR (bindR (getdef cfg sec (PList [])) py_iter)) (\<lambda>names.
     mapM (\<lambda>n. bnd (liftR (as_str Unmodelled n)) (\<lambda>name.
               bnd (job_new E data tid name) (\<lambda>j.
               ret (j\<lparr>job_env := dupdate (job_env j) env, job_voting := voting\<rparr>)))) names)"

definition task_new :: "env \<Rightarrow> cfgdata \<Rightarrow> pyval \<Rightarrow> string \<Rightarrow> pyval \<Rightarrow> ('x io_scheme, task) prog" where
  "task_new E data stream_cfg project event =
     bnd (get_rnd_name E ''EVNT'' 10) (\<lambda>tid.
     bnd (liftR (data_item data ''project'' project)) (\<lambda>cfg.
     bnd (liftR (get_env stream_cfg event)) (\<lambda>env.
     bnd (liftR (getitem event ''type'')) (\<lambda>etype.
     bnd (if etype = PStr ''ref-updated'' then make_jobs E data tid env True cfg ''on-ref-updated''
          else bnd (make_jobs E data tid env True cfg ''jobs'') (\<lambda>js.
               bnd (make_jobs E data tid env False cfg ''non-voting-jobs'') (\<lambda>ks. ret (js @ ks)))) (\<lambda>js.
     ret \<lparr>t_id = tid, t_project = project, t_event = event, t_jobs = js, t_finished_at = 0\<rparr>)))))"

section \<open>Publishing\<close>

definition task_failed :: "task \<Rightarrow> bool" where
  "task_failed t = list_ex (\<lambda>j. job_voting j \<and> truthy (job_error j)) (t_jobs t)"

definition job_line :: "pyval \<Rightarrow> job \<Rightarrow> string result" where
  "job_line tpl j =
     (case started_at j of
        None \<Rightarrow> Inl AttributeError
      | Some st \<Rightarrow>
          bindR (as_str AttributeError tpl) (\<lambda>template.
          bindR (bindR (getitem (job_config j) ''name'') py_str) (\<lambda>name.
          bindR (py_format template [(''success'', job_status j @ (if job_voting j then [] else '' (non-voting)'')),
              (''name'', name), (''time'', human_time (finished_at j - st)), (''log_path'', job_log_path j)]) (\<lambda>w.
          Inr (w @ [newline])))))"

definition review_cmd :: "pyval \<Rightarrow> task \<Rightarrow> string \<Rightarrow> string list result" where
  "review_cmd cfg t header =
     bindR (getdef cfg ''vote'' PNone) (\<lambda>vote.
     bindR (py_format header [(''succeeded'', if task_failed t then ''failed'' else ''succeeded'')]) (\<lambda>summary.
     bindR (getitem cfg ''comment-job-template'') (\<lambda>tpl.
     bindR (mapR (job_line tpl) (t_jobs t)) (\<lambda>ls.
     bindR (bindR (bindR (getitem (t_event t) ''patchSet'') (\<lambda>p. getitem p ''revision'')) (as_str TypeError)) (\<lambda>rev.
     Inr ([''gerrit'', ''review'']
       @ (if truthy vote then [if task_failed t then ''--verified=-1'' else ''--verified=+1''] else [])
       @ [''-m'', [CHR 0x27] @ (summary @ concat ls) @ [CHR 0x27], rev]))))))"

definition publish_results :: "env \<Rightarrow> pyval \<Rightarrow> task \<Rightarrow> ('x io_scheme, unit) prog" where
  "publish_results E cfg t =
     bnd (liftR (getdef cfg ''comment-header'' PNone)) (\<lambda>header.
     if \<not> truthy header then ret () else
     bnd (liftR (as_str AttributeError header)) (\<lambda>h.
     bnd (liftR (review_cmd cfg t h)) (\<lambda>cmd.
     bnd (liftR (getitem cfg ''ssh'')) (\<lambda>ssh_cfg.
     bnd (ssh_of_cfg ssh_cfg) (\<lambda>ssh.
     bnd (ssh_run E ssh no_cb (CmdList cmd) None False True True None) (\<lambda>_. ret ()))))))"

section \<open>Cleanup\<close>

record gst = io +
  g_tasks :: "string set"   \<comment> \<open>the keys of the running tasks of the stream\<close>
  g_live :: "task list"     \<comment> \<open>the tasks handed to the event loop and not cleaned up yet\<close>
  g_cfg :: pyval            \<comment> \<open>the configuration of the stream, which its \<^verbatim>\<open>run\<close> completes\<close>

type_synonym ('z, 'a) gprog = "('z gst_scheme, 'a) prog"

definition remove_key :: "string \<Rightarrow> ('z, unit) gprog" where
  "remove_key k = (\<lambda>s. if k \<in> g_tasks s then Some (Inr (), s\<lparr>g_tasks := g_tasks s - {k}\<rparr>) else Some (Inl (KeyError k), s))"

definition task_cleanup :: "env \<Rightarrow> (task \<Rightarrow> ('z, unit) gprog) list \<Rightarrow> task \<Rightarrow> ('z, task) gprog" where
  "task_cleanup E end_handlers t =
     bnd (now E) (\<lambda>x.
     let t' = t\<lparr>t_finished_at := py_int x\<rparr> in
     bnd (remove_key (get_key (t_event t))) (\<lambda>_.
     bnd (gets g_cfg) (\<lambda>cfg.
     bnd (liftR (getdef cfg ''silent'' PNone)) (\<lambda>silent.
     bnd (if \<not> truthy silent then catch (publish_results E cfg t') (\<lambda>e. ret ()) else sleep E 0) (\<lambda>_.
     bnd (forM end_handlers (\<lambda>cb. catch (cb t') (\<lambda>e. ret ()))) (\<lambda>_.
     ret t'))))))"

section \<open>The dictionary of a task\<close>

definition task_url :: "task \<Rightarrow> string result" where
  "task_url t =
     bindR (py_items (t_event t)) (\<lambda>d.
     if dlookup d ''patchSet'' \<noteq> None then
       bindR (bindR (bindR (getitem (t_event t) ''patchSet'') (\<lambda>p. getitem p ''ref'')) (as_str AttributeError)) (\<lambda>ref.
       Inr (''https://review.openstack.org/#/c/'' @ last (split_max 3 (CHR ''/'') ref)))
     else
       bindR (bindR (bindR (getitem (t_event t) ''refUpdate'') (\<lambda>p. getitem p ''newRev'')) py_str) (\<lambda>rev.
       Inr (''https://github.com/'' @ t_project t @ ''/commit/'' @ rev)))"

definition task_to_dict :: "env \<Rightarrow> task \<Rightarrow> ('x io_scheme, pyval) prog" where
  "task_to_dict E t =
     bnd (mapM (job_to_dict E) (t_jobs t)) (\<lambda>js.
     bnd (liftR (bindR (getdef (t_event t) ''change'' (PDict [])) (\<lambda>c.
        bindR (getdef c ''subject'' (PStr ''[view on github]'')) (as_str AttributeError)))) (\<lambda>subject.
     bnd (liftR (task_url t)) (\<lambda>url.
     ret (PDict [(''id'', PStr (t_id t)), (''jobs'', PList js), (''finished_at'', PInt (t_finished_at t)),
       (''subject'', PStr (cgi_escape subject)), (''project'', PStr (cgi_escape (t_project t))), (''url'', PStr url)]))))"

section \<open>Times are printed without loss\<close>

definition ref_parts :: "int \<Rightarrow> (int \<times> string) list" where
  "ref_parts n = filter (\<lambda>(a, u). a > 0)
     [(n div 86400, if n div 86400 = 1 then ''day'' else ''days''), (n mod 86400 div 3600, ''h''),
      (n mod 3600 div 60, ''m''), (n mod 60, ''s'')]"

lemma singular: "0 < (a :: int) \<Longrightarrow> (1 mod a = 0) = (a = 1)"
  by (cases "a = 1") (auto simp: zmod_trivial_iff)

lemma human_parts_step:
  assumes "0 < i" and "0 \<le> n"
  shows "human_parts ((i, sg, pl) # us) n =
    filter (\<lambda>(a, u). a > 0) [(n div i, if n div i = 1 then sg else pl)] @ human_parts us (n mod i)"
proof (cases "n div i > 0")
  case True
  then show ?thesis by (simp add: Let_def singular minus_div_mult_eq_mod)
next
  case False
  with assms have "n div i = 0" by (meson div_int_pos_iff linorder_not_less order_antisym_conv order_le_less)
  then have "n mod i = n" by (metis add_0 mult_zero_left div_mult_mod_eq)
  with False show ?thesis by (simp add: Let_def)
qed

lemma div_less_mult: "0 < k \<Longrightarrow> a < b * k \<Longrightarrow> a div k < (b :: int)"
proof -
  assume k: "0 < k" and a: "a < b * k"
  have "a div k * k + a mod k = a" "0 \<le> a mod k" using k by simp_all
  then have "a div k * k \<le> a" by linarith
  with a have "a div k * k < b * k" by simp
  with k show ?thesis by simp
qed

lemma human_parts_nonpos: "n \<le> 0 \<Longrightarrow> \<forall>(i, sg, pl) \<in> set us. 0 < i \<Longrightarrow> human_parts us n = []"
  by (induction us n rule: human_parts.induct) (auto simp: Let_def pos_imp_zdiv_pos_iff)

lemma human_parts_eq: "human_parts time_units n = (if n \<le> 0 then [] else ref_parts n)"
proof (cases "n \<le> 0")
  case True
  then show ?thesis by (simp add: human_parts_nonpos time_units_def del: human_parts.simps)
next
  case False
  have m: "n mod 86400 mod 3600 = n mod 3600" "n mod 3600 mod 60 = n mod 60"
    by (simp_all add: mod_mod_cancel)
  have 1: "human_parts time_units n = filter (\<lambda>(a, u). a > 0) [(n div 86400, if n div 86400 = 1 then ''day'' else ''days'')] @
      human_parts (tl time_units) (n mod 86400)"
    using False unfolding time_units_def list.sel by (intro human_parts_step) simp_all
  have 2: "human_parts (tl time_units) (n mod 86400) = filter (\<lambda>(a, u). a > 0) [(n mod 86400 div 3600, ''h'')] @
      human_parts (tl (tl time_units)) (n mod 3600)"
    using human_parts_step [of 3600 "n mod 86400" "''h''" "''h''" "tl (tl time_units)"]
    unfolding time_units_def list.sel if_cancel m by (simp del: human_parts.simps(2))
  have 3: "human_parts (tl (tl time_units)) (n mod 3600) = filter (\<lambda>(a, u). a > 0) [(n mod 3600 div 60, ''m''), (n mod 60, ''s'')]"
    using human_parts_step [of 60 "n mod 3600" "''m''" "''m''" "tl (tl (tl time_units))"]
      human_parts_step [of 1 "n mod 60" "''s''" "''s''" "[]"]
    unfolding time_units_def list.sel if_cancel m by (simp del: human_parts.simps(2))
  from False show ?thesis unfolding 1 2 3 ref_parts_def by (simp del: human_parts.simps)
qed

text \<open>The units of \<^verbatim>\<open>human_time\<close> are those of the mixed-radix expansion in days, hours, minutes and seconds, the
  zero ones left out, with the singular of the day; for a time that is not positive there are none.\<close>

theorem human_parts_ref: "human_parts time_units n = (if n \<le> 0 then [] else ref_parts n)"
  by (rule human_parts_eq)

definition unit_secs :: "string \<Rightarrow> int" where
  "unit_secs u = (if u \<in> {''day'', ''days''} then 86400 else if u = ''h'' then 3600 else if u = ''m'' then 60 else 1)"

lemma filter_sum: "sum_list (map (\<lambda>(a, u). a * w u) (filter (\<lambda>(a, u). a > 0) xs)) = sum_list (map (\<lambda>(a, u). a * w u) xs)"
  if "\<forall>(a, u) \<in> set xs. 0 \<le> (a :: int)"
  using that by (induction xs) auto


lemma parts_bounds:
  "h < 24 \<Longrightarrow> m < 60 \<Longrightarrow> s < 60 \<Longrightarrow> \<forall>(a, u) \<in> set (filter (\<lambda>(a, u). a > 0)
     [(d, if d = 1 then ''day'' else ''days''), (h, ''h''), (m, ''m''), (s, ''s'')]).
   0 < (a :: int) \<and> (u = ''h'' \<longrightarrow> a < 24) \<and> (u \<in> {''m'', ''s''} \<longrightarrow> a < 60)"
  by auto

text \<open>C38: reading the printed units back gives the number of seconds, and no unit reaches the next larger one.\<close>

theorem human_parts_roundtrip:
  assumes "0 \<le> n"
  shows "sum_list (map (\<lambda>(a, u). a * unit_secs u) (human_parts time_units n)) = n \<and>
    (\<forall>(a, u) \<in> set (human_parts time_units n). 0 < a \<and> (u = ''h'' \<longrightarrow> a < 24) \<and> (u \<in> {''m'', ''s''} \<longrightarrow> a < 60))"
proof (cases "n = 0")
  case False
  let ?xs = "[(n div 86400, if n div 86400 = 1 then ''day'' else ''days''), (n mod 86400 div 3600, ''h''),
      (n mod 3600 div 60, ''m''), (n mod 60, ''s'')]"
  have "sum_list (map (\<lambda>(a, u). a * unit_secs u) (ref_parts n)) = sum_list (map (\<lambda>(a, u). a * unit_secs u) ?xs)"
    unfolding ref_parts_def by (rule filter_sum) (use assms in \<open>simp add: pos_imp_zdiv_nonneg_iff\<close>)
  also have "\<dots> = n div 86400 * 86400 + n mod 86400 div 3600 * 3600 + n mod 3600 div 60 * 60 + n mod 60"
    by (simp add: unit_secs_def)
  also have "\<dots> = n"
  proof -
    have "n mod 3600 = n mod 86400 mod 3600" "n mod 60 = n mod 3600 mod 60" by (simp_all add: mod_mod_cancel)
    then show ?thesis using div_mult_mod_eq [of n 86400] div_mult_mod_eq [of "n mod 86400" 3600]
      div_mult_mod_eq [of "n mod 3600" 60] by linarith
  qed
  finally have total: "sum_list (map (\<lambda>(a, u). a * unit_secs u) (ref_parts n)) = n" .
  have "n mod 86400 div 3600 < 24" "n mod 3600 div 60 < 60" by (intro div_less_mult; simp)+
  moreover have "n mod 60 < 60" by simp
  ultimately have "\<forall>(a, u) \<in> set (ref_parts n). 0 < a \<and> (u = ''h'' \<longrightarrow> a < 24) \<and> (u \<in> {''m'', ''s''} \<longrightarrow> a < 60)"
    unfolding ref_parts_def by (intro parts_bounds)
  moreover have "human_parts time_units n = ref_parts n" using False assms unfolding human_parts_eq by (simp only: if_not_P not_le order_le_less simp_thms) auto
  ultimately show ?thesis using total by (simp only: simp_thms)
qed (simp add: human_parts_eq)

theorem human_parts_roundtrip_witness:
  "sum_list (map (\<lambda>(a, u). a * unit_secs u) (human_parts time_units 90061)) = 90061 \<and> human_time 90061 = ''1day 1h 1m 1s''"
  using human_parts_roundtrip [of 90061] by (simp, code_simp)

section \<open>Votes\<close>

text \<open>What holds of a job before and after its run: its status says success exactly when its error counts as false.\<close>

definition job_settled :: "job \<Rightarrow> bool" where
  "job_settled j \<longleftrightarrow> (job_status j = ''SUCCESS'' \<longleftrightarrow> \<not> truthy (job_error j))"

lemma task_failed_iff: "task_failed t \<longleftrightarrow> (\<exists>j \<in> set (t_jobs t). job_voting j \<and> truthy (job_error j))"
  by (auto simp: task_failed_def list_ex_iff)

definition demo_stream :: pyval where
  "demo_stream = PDict [(''vote'', PBool True), (''comment-header'', PStr ''run {succeeded}''), (''comment-job-template'', PStr ''{name} {success}'')]"

definition demo_event :: pyval where
  "demo_event = PDict [(''type'', PStr ''patchset-created''), (''change'', PDict [(''project'', PStr ''p'')]),
     (''patchSet'', PDict [(''revision'', PStr ''r1''), (''ref'', PStr ''refs/changes/1/2/3'')])]"

definition demo_task :: task where
  "demo_task = \<lparr>t_id = ''T'', t_project = ''p'', t_event = demo_event,
     t_jobs = [demo_job\<lparr>job_status := ''SUCCESS'', job_error := PNone, started_at := Some 0, job_config := PDict [(''name'', PStr ''unit'')]\<rparr>],
     t_finished_at = 0\<rparr>"

section \<open>The environment of the jobs\<close>

lemma env_items_ConsE:
  assumes "env_items event ((k, v) # kvs) r = Inr r'"
  obtains path r1 where "v = PStr path" "env_items event kvs r1 = Inr r'"
    "(\<exists>w. walk event (split_on (CHR ''.'') path) = Inr w \<and> r1 = dset r k w) \<or>
     (\<exists>e. walk event (split_on (CHR ''.'') path) = Inl e \<and> r1 = r)"
proof -
  from assms obtain path where v: "v = PStr path" by (cases v) simp_all
  show thesis
  proof (cases "walk event (split_on (CHR ''.'') path)")
    case (Inl e)
    with assms v have "env_items event kvs r = Inr r'" by (cases e) simp_all
    with that v Inl show thesis by blast
  next
    case (Inr w)
    with assms v have "env_items event kvs (dset r k w) = Inr r'" by simp
    with that v Inr show thesis by blast
  qed
qed

lemma env_items_other: "env_items event kvs r = Inr r' \<Longrightarrow> k \<notin> fst ` set kvs \<Longrightarrow> dlookup r' k = dlookup r k"
proof (induction kvs arbitrary: r)
  case (Cons kv kvs)
  obtain k' v where kv: "kv = (k', v)" by (cases kv)
  from Cons.prems(1) [unfolded kv] obtain r1 where r1: "env_items event kvs r1 = Inr r'" "r1 = r \<or> (\<exists>w. r1 = dset r k' w)"
    by (rule env_items_ConsE) blast
  with Cons.IH [OF r1(1)] Cons.prems(2) kv show ?case by auto
qed simp

text \<open>C37: the environment a stream takes from an event has, under every configured name, the value at the end of its dotted
  path, and no entry where the path misses a key.\<close>

theorem env_items_lookup:
  assumes "env_items event kvs [] = Inr r" and "distinct (map fst kvs)" and "(k, PStr path) \<in> set kvs"
  shows "dlookup r k = (case walk event (split_on (CHR ''.'') path) of Inr v \<Rightarrow> Some v | Inl e \<Rightarrow> None)"
proof -
  have "dlookup r k = (case walk event (split_on (CHR ''.'') path) of Inr v \<Rightarrow> Some v | Inl e \<Rightarrow> None)"
    if "env_items event kvs r0 = Inr r" "dlookup r0 k = None" for r0
    using assms(2,3) that
  proof (induction kvs arbitrary: r0)
    case (Cons kv kvs)
    obtain k' v where kv: "kv = (k', v)" by (cases kv)
    from Cons.prems(3) [unfolded kv] obtain p r1 where r1: "v = PStr p" "env_items event kvs r1 = Inr r"
      "(\<exists>w. walk event (split_on (CHR ''.'') p) = Inr w \<and> r1 = dset r0 k' w) \<or>
       (\<exists>e. walk event (split_on (CHR ''.'') p) = Inl e \<and> r1 = r0)"
      by (rule env_items_ConsE)
    show ?case
    proof (cases "k' = k")
      case True
      with Cons.prems(1,2) kv r1(1) have p: "p = path" "k \<notin> fst ` set kvs" by force+
      from env_items_other [OF r1(2) p(2)] r1(3) p(1) True Cons.prems(4) show ?thesis by auto
    next
      case False
      with Cons.prems kv r1(3) have "(k, PStr path) \<in> set kvs" "distinct (map fst kvs)" "dlookup r1 k = None" by auto
      with Cons.IH r1(2) show ?thesis by blast
    qed
  qed simp
  with assms(1) show ?thesis by simp
qed

theorem env_items_lookup_witness:
  "env_items demo_event [(''R'', PStr ''patchSet.revision''), (''X'', PStr ''patchSet.none'')] [] = Inr [(''R'', PStr ''r1'')] \<and>
   dlookup [(''R'', PStr ''r1'')] ''X'' = None"
proof -
  have e: "env_items demo_event [(''R'', PStr ''patchSet.revision''), (''X'', PStr ''patchSet.none'')] [] = Inr [(''R'', PStr ''r1'')]"
    by code_simp
  have "walk demo_event (split_on (CHR ''.'') ''patchSet.none'') = Inl (KeyError ''none'')" by code_simp
  with e env_items_lookup [OF e, of "''X''" "''patchSet.none''"] show ?thesis by simp
qed

section \<open>The jobs of a new task\<close>

definition fresh_job :: "string \<Rightarrow> bool \<Rightarrow> job \<Rightarrow> bool" where
  "fresh_job tid voting j \<longleftrightarrow> job_task j = tid \<and> job_voting j = voting \<and> job_error j = PInt 254 \<and>
     job_status j = ''__init__'' \<and> started_at j = None"

lemma job_new_fresh:
  assumes "job_new E data tid name s = Some (Inr j, t)"
  shows "job_name j = name \<and> fresh_job tid True j"
  using assms unfolding job_new_def by (auto elim!: bnd_InrE simp: fresh_job_def)

lemma make_jobs_fresh:
  fixes s :: "'x io_scheme"
  assumes "make_jobs E data tid env voting cfg sec s = Some (Inr js, t)"
    and "bindR (getdef cfg sec (PList [])) py_iter = Inr (map PStr names)"
  shows "map job_name js = names \<and> (\<forall>j \<in> set js. fresh_job tid voting j)"
proof -
  define one :: "pyval \<Rightarrow> ('x io_scheme, job) prog" where "one n = bnd (liftR (as_str Unmodelled n)) (\<lambda>name.
    bnd (job_new E data tid name) (\<lambda>j. ret (j\<lparr>job_env := dupdate (job_env j) env, job_voting := voting\<rparr>)))" for n
  have one: "job_name j = n \<and> fresh_job tid voting j" if "one (PStr n) u = Some (Inr j, w)" for n u j w
    using that by (auto elim!: bnd_InrE dest!: job_new_fresh simp: fresh_job_def one_def)
  have "map job_name js = names \<and> (\<forall>j \<in> set js. fresh_job tid voting j)" if "mapM one (map PStr names) u = Some (Inr js, w)" for u w
    using that
  proof (induction names arbitrary: js u)
    case (Cons n names)
    from Cons.prems obtain j u1 js' where j: "one (PStr n) u = Some (Inr j, u1)" "mapM one (map PStr names) u1 = Some (Inr js', w)"
      "js = j # js'"
      by (auto elim!: bnd_InrE)
    with one [OF j(1)] Cons.IH [OF j(2)] show ?case by simp
  qed simp
  moreover have "mapM one (map PStr names) s = Some (Inr js, t)"
    using assms by (simp add: make_jobs_def one_def [abs_def])
  ultimately show ?thesis by blast
qed

text \<open>C8: a task created for a patch set or a recheck has one job for every voting and then every non-voting job of its
  project, in the order of the configuration, each of them unrun, with the error 254, so that none counts as passed.\<close>

theorem task_new_jobs:
  fixes s :: "'x io_scheme"
  assumes "task_new E data scfg project event s = Some (Inr t, u)"
    and "getitem event ''type'' \<noteq> Inr (PStr ''ref-updated'')" and "data_item data ''project'' project = Inr cfg"
    and "bindR (getdef cfg ''jobs'' (PList [])) py_iter = Inr (map PStr vs)"
    and "bindR (getdef cfg ''non-voting-jobs'' (PList [])) py_iter = Inr (map PStr ns)"
  shows "\<exists>js ks. t_jobs t = js @ ks \<and> map job_name js = vs \<and> map job_name ks = ns \<and> (\<forall>j \<in> set js. fresh_job (t_id t) True j) \<and>
    (\<forall>j \<in> set ks. fresh_job (t_id t) False j) \<and> (\<forall>j \<in> set (t_jobs t). job_settled j)"
proof -
  from assms(1) obtain tid env js ks and s1 s2 s3 :: "'x io_scheme" where
    js: "make_jobs E data tid env True cfg ''jobs'' s1 = Some (Inr js, s2)"
    and ks: "make_jobs E data tid env False cfg ''non-voting-jobs'' s2 = Some (Inr ks, s3)"
    and t: "t = \<lparr>t_id = tid, t_project = project, t_event = event, t_jobs = js @ ks, t_finished_at = 0\<rparr>"
    using assms(2,3) unfolding task_new_def by (auto elim!: bnd_InrE simp: liftR_def split: if_splits)
  have "job_settled j" if "fresh_job tid b j" for b j using that by (simp add: fresh_job_def job_settled_def)
  with make_jobs_fresh [OF js assms(4)] make_jobs_fresh [OF ks assms(5)] show ?thesis
    by (intro exI [of _ js] exI [of _ ks]) (auto simp: t)
qed

definition demo_project :: cfgdata where
  "demo_project = [(''project'', Named [(''p'', PDict [(''name'', PStr ''p''), (''jobs'', PList [PStr ''unit''])])]),
     (''job'', Named [(''unit'', PDict [(''name'', PStr ''unit'')])])]"

lemma demo_task_new:
  "map_option (\<lambda>(r, t). isl r)
     (task_new (demo_env []) demo_project demo_stream ''p'' demo_event \<lparr>trace = []\<rparr>) = Some False"
  by code_simp

theorem task_new_jobs_witness:
  "\<exists>t u. task_new (demo_env []) demo_project demo_stream ''p'' demo_event \<lparr>trace = []\<rparr> = Some (Inr t, u) \<and>
     map job_name (t_jobs t) = [''unit'']"
proof -
  obtain t u where t: "task_new (demo_env []) demo_project demo_stream ''p'' demo_event \<lparr>trace = []\<rparr> = Some (Inr t, u)"
    using demo_task_new by (auto simp: isl_def) (metis obj_sumE)
  have "getitem demo_event ''type'' \<noteq> Inr (PStr ''ref-updated'')" by (simp add: demo_event_def)
  moreover have "data_item demo_project ''project'' ''p'' = Inr (PDict [(''name'', PStr ''p''), (''jobs'', PList [PStr ''unit''])])"
    by (simp add: data_item_def demo_project_def)
  ultimately have "map job_name (t_jobs t) = [''unit'']"
    using task_new_jobs [OF t, of _ "[''unit'']" "[]"] by auto
  with t show ?thesis by (intro exI conjI)
qed

section \<open>Cleanup\<close>

text \<open>C39: for an event without a registered key, which every ref-updated event is, \<^verbatim>\<open>Task.cleanup\<close> raises \<open>KeyError\<close> at once: nothing is
  published and no end handler is told.\<close>

theorem cleanup_unknown_key:
  assumes "get_key (t_event t) \<notin> g_tasks s"
  shows "task_cleanup E ths t s = Some (Inl (KeyError (get_key (t_event t))), s\<lparr>trace := trace s @ [Clock]\<rparr>)"
  using assms by (simp add: task_cleanup_def bnd_def now_def Let_def remove_key_def)

theorem cleanup_unknown_key_witness:
  "task_cleanup (demo_env []) []
     (demo_task\<lparr>t_event := PDict [(''type'', PStr ''ref-updated''), (''refUpdate'', PDict [(''project'', PStr ''p'')])]\<rparr>)
     \<lparr>trace = [], g_tasks = {''pr''}, g_live = [], g_cfg = demo_stream\<rparr> = Some (Inl (KeyError []), \<lparr>trace = [Clock], g_tasks = {''pr''}, g_live = [], g_cfg = demo_stream\<rparr>)"
  using cleanup_unknown_key [of "demo_task\<lparr>t_event := PDict [(''type'', PStr ''ref-updated''), (''refUpdate'', PDict [(''project'', PStr ''p'')])]\<rparr>"
      "\<lparr>trace = [], g_tasks = {''pr''}, g_live = [], g_cfg = demo_stream\<rparr>" "demo_env []" "[]"]
  by (simp add: get_key_def)

lemma keeps_publish: "emits (\<lambda>_. True) (publish_results E cfg t)"
proof -
  have "emits (\<lambda>_. True) (ssh_new u h k p)" for u h k p by (auto simp: ssh_new_def emits_def)
  then have new: "emits (\<lambda>_. True) (ssh_of_cfg c)" for c
    unfolding ssh_of_cfg_def by (cases c) (simp_all only: pyval.case, (intro io_frame | assumption)+)
  show ?thesis
    unfolding publish_results_def no_cb_def by (intro io_frame new emits_ssh_run) simp_all
qed


lemma returns_publish: "clock_ok E \<Longrightarrow> returns (publish_results E cfg t)"
proof -
  have new: "returns (ssh_of_cfg c)" for c
    unfolding ssh_of_cfg_def by (cases c) (simp_all only: pyval.case, (intro total_intro)+)
  assume "clock_ok E"
  then show ?thesis unfolding publish_results_def by (intro total_intro new)
qed

text \<open>C7: for a registered event \<^verbatim>\<open>Task.cleanup\<close> releases the key of the event whatever happens to the publication and to the
  handlers: it returns, and the keys of all other running tasks stay.\<close>

theorem cleanup_releases_key:
  assumes "clock_ok E" and "get_key (t_event t) \<in> g_tasks s" and "getdef (g_cfg s) ''silent'' PNone = Inr v" and "truthy v \<Longrightarrow> \<forall>tr. \<not> cancelled E tr"
    and "\<And>cb t'. cb \<in> set ths \<Longrightarrow> keeps g_tasks (cb t') \<and> returns (cb t')"
  shows "\<exists>t' u. task_cleanup E ths t s = Some (Inr t', u) \<and> g_tasks u = g_tasks s - {get_key (t_event t)} \<and>
    t_finished_at t' = py_int (clock E (trace s))"
proof -
  let ?t = "t\<lparr>t_finished_at := py_int (clock E (trace s))\<rparr>"
  let ?pub = "if \<not> truthy v then catch (publish_results E (g_cfg s) ?t) (\<lambda>e. ret ()) else sleep E 0"
  let ?hand = "forM ths (\<lambda>cb. catch (cb ?t) (\<lambda>e. ret ()))"
  let ?s1 = "s\<lparr>trace := trace s @ [Clock], g_tasks := g_tasks s - {get_key (t_event t)}\<rparr>"
  have kp: "keeps g_tasks ?pub"
    using emits_keeps_view [OF keeps_publish, of g_tasks] emits_keeps_view [OF emits_prims(1) [where P = "\<lambda>_. True"], of g_tasks]
    by (intro keeps_intro) auto
  have kh: "keeps g_tasks ?hand" using assms(5) by (intro keeps_intro) auto
  have caught: "\<exists>u. catch (m :: ('a, unit) gprog) (\<lambda>e. ret ()) w = Some (Inr (), u)" if "returns m" for m w
  proof -
    obtain r u where "m w = Some (r, u)" using \<open>returns m\<close> by (rule totalE)
    then show ?thesis by (cases r) (simp_all add: catch_run)
  qed
  obtain u1 where u1: "?pub ?s1 = Some (Inr (), u1)"
  proof (cases "truthy v")
    case True
    with assms(4) that show ?thesis by (simp add: sleep_def yielding_def)
  next
    case False
    with caught [OF returns_publish [OF assms(1), of "g_cfg s" ?t], of ?s1] that show ?thesis by auto
  qed
  have "\<exists>u. forM xs (\<lambda>cb. catch (cb ?t) (\<lambda>e. ret ())) w = Some (Inr (), u)" if "set xs \<subseteq> set ths" for xs w
    using that
  proof (induction xs arbitrary: w)
    case (Cons cb xs)
    obtain u where "catch (cb ?t) (\<lambda>e. ret ()) w = Some (Inr (), u)" using caught Cons.prems assms(5) by fastforce
    moreover have "set xs \<subseteq> set ths" using Cons.prems by simp
    with Cons.IH obtain u' where "forM xs (\<lambda>cb. catch (cb ?t) (\<lambda>e. ret ())) u = Some (Inr (), u')" by blast
    ultimately show ?case unfolding forM.simps by (intro exI [of _ u']) (simp only: bnd_run)
  qed simp
  then obtain u2 where u2: "?hand u1 = Some (Inr (), u2)" by blast
  have "task_cleanup E ths t s = Some (Inr ?t, u2)"
    using assms(2,3) u1 u2 by (simp add: task_cleanup_def now_def bnd_def remove_key_def Let_def cong: if_cong split del: if_split)
  moreover have "g_tasks u2 = g_tasks s - {get_key (t_event t)}" using keepsD [OF kp u1] keepsD [OF kh u2] by simp
  ultimately show ?thesis by simp
qed

theorem cleanup_releases_key_witness:
  "\<exists>t' u. task_cleanup (demo_env []) [] demo_task \<lparr>trace = [], g_tasks = {''prefs/changes/1/2/3'', ''q''}, g_live = [], g_cfg = demo_stream\<rparr> = Some (Inr t', u) \<and>
     g_tasks u = {''q''}"
proof -
  have "get_key (t_event demo_task) = ''prefs/changes/1/2/3''" by (simp add: demo_task_def demo_event_def get_key_def)
  moreover have "getdef demo_stream ''silent'' PNone = Inr PNone" by (simp add: demo_stream_def)
  ultimately show ?thesis
    using cleanup_releases_key [of "demo_env []" demo_task "\<lparr>trace = [], g_tasks = {''prefs/changes/1/2/3'', ''q''}, g_live = [], g_cfg = demo_stream\<rparr>"
        PNone "[]"] by (fastforce simp: insert_Diff_if)
qed

end
