(* ===== verification/Gerrit.thy ===== *)
theory Gerrit
  imports Task Regex
begin

text \<open>
  \<^verbatim>\<open>rallyci/services/gerrit.py\<close>: the stream service. It reads events, one JSON document a line, from \<^verbatim>\<open>gerrit stream-events\<close>
  or from a file, and creates a task for each event that asks for one. The keys of the tasks it
  has running keep a change from being tested twice at the same time. The JSON decoder is the parameter \<open>decode\<close>;
  what \<^verbatim>\<open>Root.start_task\<close> does with a new task is given by the handlers of task starts.
\<close>

section \<open>From events to tasks\<close>

text \<open>\<open>None\<close>: the event names no project.\<close>

definition event_project :: "pyval \<Rightarrow> pyval option result" where
  "event_project event =
     bindR (bindR (getdef event ''change'' (PDict [])) (\<lambda>c. getdef c ''project'' PNone)) (\<lambda>p.
     if truthy p then Inr (Some p) else
     bindR (bindR (getdef event ''refUpdate'' (PDict [])) (\<lambda>c. getdef c ''project'' PNone)) (\<lambda>q.
     Inr (if truthy q then Some q else None)))"

text \<open>\<^verbatim>\<open>project in self.config.data["project"]\<close>: looking up a list or a dictionary in a dictionary is an error.\<close>

definition project_known :: "cfgdata \<Rightarrow> pyval \<Rightarrow> bool result" where
  "project_known data v =
     (case dlookup data ''project'' of
        None \<Rightarrow> Inl (KeyError ''project'')
      | Some (Unnamed vs) \<Rightarrow> (case v of PStr p \<Rightarrow> Inr (v \<in> set vs) | _ \<Rightarrow> Inl Unmodelled)
      | Some (Named d) \<Rightarrow> (case v of PStr p \<Rightarrow> Inr (dlookup d p \<noteq> None) | PList xs \<Rightarrow> Inl TypeError
                             | PDict e \<Rightarrow> Inl TypeError | _ \<Rightarrow> Inr False))"

definition is_recheck :: "pyval \<Rightarrow> pyval \<Rightarrow> bool result" where
  "is_recheck cfg event =
     bindR (getdef cfg ''recheck-regexp'' (PStr ''^rally-ci recheck$'')) (\<lambda>r.
     bindR (getitem event ''comment'') (\<lambda>c.
     bindR (as_str TypeError r) (\<lambda>pat.
     bindR (re_compile pat) (\<lambda>its.
     bindR (as_str TypeError c) (\<lambda>comment.
     Inr (search its None comment \<noteq> None))))))"

text \<open>The common end of the first two branches of \<^verbatim>\<open>_get_task\<close>: the key is registered before the task is made.\<close>

definition register_task :: "env \<Rightarrow> cfgdata \<Rightarrow> string \<Rightarrow> pyval \<Rightarrow> ('z, task option) gprog" where
  "register_task E data project event =
     bnd (gets (\<lambda>s. (g_tasks s, g_cfg s))) (\<lambda>(keys, cfg).
     if get_key event \<in> keys then ret None
     else bnd (modify (\<lambda>s. s\<lparr>g_tasks := insert (get_key event) (g_tasks s)\<rparr>)) (\<lambda>_.
          bnd (task_new E data cfg project event) (\<lambda>t. ret (Some t))))"

definition get_task :: "env \<Rightarrow> cfgdata \<Rightarrow> pyval \<Rightarrow> ('z, task option) gprog" where
  "get_task E data event =
     bnd (liftR (event_project event)) (\<lambda>project.
     case project of None \<Rightarrow> ret None | Some v \<Rightarrow>
     bnd (liftR (project_known data v)) (\<lambda>known. if \<not> known then ret None else
     bnd (liftR (as_str Unmodelled v)) (\<lambda>p.
     bnd (liftR (getitem event ''type'')) (\<lambda>etype.
     bnd (gets g_cfg) (\<lambda>cfg.
     if etype = PStr ''patchset-created'' then register_task E data p event
     else if etype = PStr ''comment-added'' then
       bnd (liftR (is_recheck cfg event)) (\<lambda>m. if m then register_task E data p event else ret None)
     else if etype = PStr ''ref-updated'' then bnd (task_new E data cfg p event) (\<lambda>t. ret (Some t))
     else ret None)))))"

section \<open>Lines\<close>

text \<open>
  \<^verbatim>\<open>Root.start_task\<close> as the stream sees it: the handlers are told first, and only when none of them
  raises is the task handed to the event loop.
\<close>

definition start_task :: "(task \<Rightarrow> ('z, unit) gprog) list \<Rightarrow> task \<Rightarrow> ('z, unit) gprog" where
  "start_task start_handlers t =
     bnd (forM start_handlers (\<lambda>cb. cb t)) (\<lambda>_. modify (\<lambda>s. s\<lparr>g_live := g_live s @ [t]\<rparr>))"

datatype stream_line = Bytes string | Text string

definition handle_event :: "env \<Rightarrow> cfgdata \<Rightarrow> (task \<Rightarrow> ('z, unit) gprog) list \<Rightarrow> pyval \<Rightarrow> ('z, unit) gprog" where
  "handle_event E data hs event =
     catch (bnd (get_task E data event) (\<lambda>t. case t of None \<Rightarrow> ret () | Some t \<Rightarrow> start_task hs t)) (\<lambda>e. ret ())"

definition handle_line :: "env \<Rightarrow> cfgdata \<Rightarrow> (task \<Rightarrow> ('z, unit) gprog) list \<Rightarrow> (string \<Rightarrow> pyval result) \<Rightarrow> stream_line \<Rightarrow> ('z, unit) gprog" where
  "handle_line E data hs decode line =
     (case line of
        Text w \<Rightarrow> ret ()
      | Bytes w \<Rightarrow> if w = [] then ret () else bnd (liftR (decode w)) (handle_event E data hs))"

section \<open>Running the service\<close>

text \<open>\<^verbatim>\<open>open(fake_stream, 'rb')\<close> and its lines.\<close>

definition read_lines :: "env \<Rightarrow> string \<Rightarrow> ('x io_scheme, string list) prog" where
  "read_lines E path = io_do (ReadFile path) (\<lambda>tr. file_lines E tr path)"

definition replay :: "env \<Rightarrow> (stream_line \<Rightarrow> ('z, unit) gprog) \<Rightarrow> string \<Rightarrow> ('z, unit) gprog" where
  "replay E h path =
     bnd (read_lines E path) (\<lambda>ls. forM ls (\<lambda>l. bnd (sleep E 2) (\<lambda>_. h (Bytes l))))"

partial_function (option) fake_loop :: "env \<Rightarrow> (stream_line \<Rightarrow> ('z, unit) gprog) \<Rightarrow> string \<Rightarrow> ('z, unit) gprog" where
  "fake_loop E h path s = bnd (replay E h path) (\<lambda>_. fake_loop E h path) s"

text \<open>\<^verbatim>\<open>if "port" not in self.cfg["ssh"]: self.cfg["ssh"]["port"] = 29418\<close>; \<^verbatim>\<open>self.cfg\<close> is the dictionary of keyword arguments.\<close>

definition default_port :: "pyval \<Rightarrow> pyval result" where
  "default_port cfg =
     bindR (getitem cfg ''ssh'') (\<lambda>c.
     bindR (py_items cfg) (\<lambda>d.
     case c of
       PDict e \<Rightarrow> Inr (PDict (dset d ''ssh'' (PDict (if dlookup e ''port'' = None then dset e ''port'' (PInt 29418) else e))))
     | PStr w \<Rightarrow> Inl Unmodelled
     | PList xs \<Rightarrow> if PStr ''port'' \<in> set xs then Inr cfg else Inl TypeError
     | _ \<Rightarrow> Inl TypeError))"

definition no_cb_key :: "pyval \<Rightarrow> unit result" where
  "no_cb_key c = (case c of PDict e \<Rightarrow> if dlookup e ''cb'' = None then Inr () else Inl TypeError | _ \<Rightarrow> Inl TypeError)"

definition gerrit_run :: "env \<Rightarrow> cfgdata \<Rightarrow> (task \<Rightarrow> ('z, unit) gprog) list \<Rightarrow> (string \<Rightarrow> pyval result) \<Rightarrow> ('z, unit) gprog" where
  "gerrit_run E data hs decode =
     bnd (gets g_cfg) (\<lambda>cfg.
     bnd (liftR (getdef cfg ''fake-stream'' PNone)) (\<lambda>fake_stream.
     if truthy fake_stream then
       bnd (liftR (as_str Unmodelled fake_stream)) (fake_loop E (handle_line E data hs decode))
     else
       bnd (liftR (default_port cfg)) (\<lambda>cfg'.
       bnd (modify (\<lambda>s. s\<lparr>g_cfg := cfg'\<rparr>)) (\<lambda>_.
       bnd (liftR (getitem cfg' ''ssh'')) (\<lambda>ssh_cfg.
       bnd (liftR (no_cb_key ssh_cfg)) (\<lambda>_.
       bnd (ssh_of_cfg ssh_cfg) (\<lambda>ssh.
       bnd (ssh_run E ssh (\<lambda>l. handle_line E data hs decode (Bytes l)) (CmdStr ''gerrit stream-events'') None False True True None)
         (\<lambda>_. ret ()))))))))"

definition gerrit_cleanup :: "env \<Rightarrow> ('x io_scheme, unit) prog" where
  "gerrit_cleanup E = sleep E 0"

section \<open>What the steps change\<close>

text \<open>The part of the state that belongs to the stream.\<close>

definition gview :: "'z gst_scheme \<Rightarrow> string set \<times> task list \<times> pyval" where
  "gview s = (g_tasks s, g_live s, g_cfg s)"

lemma gview_eq_iff: "gview s = gview t \<longleftrightarrow> g_tasks s = g_tasks t \<and> g_live s = g_live t \<and> g_cfg s = g_cfg t"
  by (auto simp: gview_def)

lemma gview_emits: "emits P m \<Longrightarrow> keeps gview m"
  by (rule emits_keeps_view) (simp_all add: gview_def)

lemma emits_job_new [io_frame]: "emits (\<lambda>_. True) (job_new E data tid name)"
  unfolding job_new_def by (intro io_frame) simp_all

lemma emits_make_jobs [io_frame]: "emits (\<lambda>_. True) (make_jobs E data tid env voting cfg sec)"
  unfolding make_jobs_def by (intro io_frame)

lemma emits_task_new [io_frame]: "emits (\<lambda>_. True) (task_new E data cfg project event)"
  unfolding task_new_def by (intro io_frame) simp_all

lemma task_new_event: "task_new E data cfg project event s = Some (Inr t, u) \<Longrightarrow> t_event t = event \<and> t_project t = project"
  unfolding task_new_def by (auto elim!: bnd_InrE)

text \<open>The key of an event is taken: \<open>fresh\<close> says that it was free before and registered after.\<close>

definition fresh_key :: "pyval \<Rightarrow> 'z gst_scheme \<Rightarrow> 'z gst_scheme \<Rightarrow> bool" where
  "fresh_key event s t \<longleftrightarrow> get_key event \<notin> g_tasks s \<and> g_tasks t = insert (get_key event) (g_tasks s)"

definition same_stream :: "'z gst_scheme \<Rightarrow> 'z gst_scheme \<Rightarrow> bool" where
  "same_stream s t \<longleftrightarrow> g_live t = g_live s \<and> g_cfg t = g_cfg s"

lemma gview_same: "gview t = gview s \<Longrightarrow> same_stream s t \<and> g_tasks t = g_tasks s"
  by (simp add: gview_def same_stream_def)

lemma task_new_view: "task_new E data cfg project event s = Some (r, t) \<Longrightarrow> gview t = gview s"
  by (rule keepsD [OF gview_emits [OF emits_task_new]])

lemma register_task_result:
  assumes "register_task E data project event s = Some (r, t)"
  shows "same_stream s t \<and> (r = Inr None \<and> t = s \<and> get_key event \<in> g_tasks s \<or>
    fresh_key event s t \<and> r \<noteq> Inr None \<and> (\<forall>tk. r = Inr (Some tk) \<longrightarrow> t_event tk = event))"
proof (cases "get_key event \<in> g_tasks s")
  case True
  with assms show ?thesis by (simp add: register_task_def same_stream_def)
next
  case False
  let ?s = "s\<lparr>g_tasks := insert (get_key event) (g_tasks s)\<rparr>"
  from assms False have "bnd (task_new E data (g_cfg s) project event) (\<lambda>t. ret (Some t)) ?s = Some (r, t)"
    by (simp add: register_task_def)
  then obtain r' where r': "task_new E data (g_cfg s) project event ?s = Some (r', t)"
    "r = (case r' of Inl e \<Rightarrow> Inl e | Inr tk \<Rightarrow> Inr (Some tk))"
    by (auto elim!: bnd_SomeE)
  from task_new_view [OF r'(1)] False have "same_stream s t \<and> fresh_key event s t"
    by (auto simp: gview_def same_stream_def fresh_key_def)
  with r' show ?thesis by (auto dest: task_new_event split: sum.splits)
qed

text \<open>What a call of \<^verbatim>\<open>_get_task\<close> can come to.\<close>

definition asks_once :: "pyval \<Rightarrow> pyval \<Rightarrow> bool" where
  "asks_once cfg event \<longleftrightarrow> getitem event ''type'' = Inr (PStr ''patchset-created'') \<or>
     getitem event ''type'' = Inr (PStr ''comment-added'') \<and> is_recheck cfg event = Inr True"

definition names_project :: "cfgdata \<Rightarrow> pyval \<Rightarrow> bool" where
  "names_project data event \<longleftrightarrow> (\<exists>p. event_project event = Inr (Some (PStr p)) \<and> project_known data (PStr p) = Inr True)"

definition updates_ref :: "pyval \<Rightarrow> bool" where
  "updates_ref event \<longleftrightarrow> getitem event ''type'' = Inr (PStr ''ref-updated'')"

lemma get_task_result:
  assumes "get_task E data event s = Some (r, t)"
  shows "same_stream s t \<and> (g_tasks t = g_tasks s \<and> (\<forall>tk. r \<noteq> Inr (Some tk)) \<or>
    g_tasks t = g_tasks s \<and> updates_ref event \<and> names_project data event \<and> (\<exists>tk. r = Inr (Some tk) \<and> t_event tk = event) \<or>
    fresh_key event s t \<and> asks_once (g_cfg s) event \<and> names_project data event \<and> (\<forall>tk. r = Inr (Some tk) \<longrightarrow> t_event tk = event))"
proof (cases "\<exists>p etype. event_project event = Inr (Some (PStr p)) \<and> project_known data (PStr p) = Inr True \<and> getitem event ''type'' = Inr etype")
  case False
  with assms have "t = s \<and> (\<forall>tk. r \<noteq> Inr (Some tk))"
    unfolding get_task_def liftR_def
    by (cases "event_project event") (auto elim!: bnd_SomeE split: option.splits if_splits sum.splits elim!: as_str.elims, blast+)
  then show ?thesis by (simp add: same_stream_def)
next
  case True
  then obtain p etype where p: "event_project event = Inr (Some (PStr p))" "project_known data (PStr p) = Inr True"
    "getitem event ''type'' = Inr etype" by blast
  then have named: "names_project data event" by (auto simp: names_project_def)
  consider "etype = PStr ''patchset-created''" | "etype = PStr ''comment-added''" | "etype = PStr ''ref-updated''"
    | "etype \<notin> {PStr ''patchset-created'', PStr ''comment-added'', PStr ''ref-updated''}" by blast
  then show ?thesis
  proof cases
    case 1
    with assms p have "register_task E data p event s = Some (r, t)" by (simp add: get_task_def)
    from register_task_result [OF this] 1 p(3) named show ?thesis by (auto simp: asks_once_def)
  next
    case 2
    with assms p have run: "bnd (liftR (is_recheck (g_cfg s) event))
      (\<lambda>m. if m then register_task E data p event else ret None) s = Some (r, t)" by (simp add: get_task_def)
    show ?thesis
    proof (cases "is_recheck (g_cfg s) event = Inr True")
      case True
      with run have "register_task E data p event s = Some (r, t)" by simp
      from register_task_result [OF this] 2 p(3) named True show ?thesis by (auto simp: asks_once_def)
    next
      case False
      with run have "t = s \<and> (\<forall>tk. r \<noteq> Inr (Some tk))" by (cases "is_recheck (g_cfg s) event") (auto split: if_splits)
      then show ?thesis by (simp add: same_stream_def)
    qed
  next
    case 3
    with assms p have "bnd (task_new E data (g_cfg s) p event) (\<lambda>t. ret (Some t)) s = Some (r, t)" by (simp add: get_task_def)
    then obtain r' where r': "task_new E data (g_cfg s) p event s = Some (r', t)"
      "r = (case r' of Inl e \<Rightarrow> Inl e | Inr tk \<Rightarrow> Inr (Some tk))" by (auto elim!: bnd_SomeE)
    from gview_same [OF task_new_view [OF r'(1)]] r' 3 p(3) named show ?thesis
      by (auto dest: task_new_event simp: updates_ref_def split: sum.splits)
  next
    case 4
    with assms p have "t = s \<and> r = Inr None" by (simp add: get_task_def)
    then show ?thesis by (simp add: same_stream_def)
  qed
qed

section \<open>Handlers of the start and the end of a task\<close>

text \<open>Handlers of a task may do anything but touch the keys, the tasks and the configuration of the stream.\<close>

locale task_handlers =
  fixes hs :: "(task \<Rightarrow> ('z, unit) gprog) list"
  assumes task_handler_keeps: "cb \<in> set hs \<Longrightarrow> keeps gview (cb t)"
begin

lemma start_task_result:
  assumes "start_task hs tk s = Some (r, t)"
  shows "g_tasks t = g_tasks s \<and> g_cfg t = g_cfg s \<and> (r = Inr () \<and> g_live t = g_live s @ [tk] \<or> r \<noteq> Inr () \<and> g_live t = g_live s)"
  using assms unfolding start_task_def
proof (cases rule: bnd_SomeE)
  case (raised e)
  have "keeps gview (forM hs (\<lambda>cb. cb tk))" by (intro keeps_intro task_handler_keeps)
  from keepsD [OF this raised(1)] raised(2) show ?thesis by (simp add: gview_eq_iff)
next
  case (returned a u)
  have "keeps gview (forM hs (\<lambda>cb. cb tk))" by (intro keeps_intro task_handler_keeps)
  from keepsD [OF this returned(1)] returned(2) show ?thesis by (clarsimp simp: gview_eq_iff)
qed

text \<open>One line hands at most one task to the event loop: one that the event asks for, and unless the event updates a
  reference, one with a key that was free.\<close>

lemma handle_event_result:
  assumes "handle_event E data hs event s = Some (r, t)"
  shows "r = Inr () \<and> g_cfg t = g_cfg s \<and>
    (g_tasks t = g_tasks s \<and> g_live t = g_live s \<or>
     fresh_key event s t \<and> asks_once (g_cfg s) event \<and> names_project data event \<and>
       (g_live t = g_live s \<or> (\<exists>tk. t_event tk = event \<and> g_live t = g_live s @ [tk])) \<or>
     g_tasks t = g_tasks s \<and> updates_ref event \<and> names_project data event \<and>
       (\<exists>tk. t_event tk = event \<and> g_live t = g_live s @ [tk]))"
proof -
  from assms obtain r' where body: "bnd (get_task E data event) (\<lambda>t. case t of None \<Rightarrow> ret () | Some t \<Rightarrow> start_task hs t) s = Some (r', t)"
    and r: "r = Inr ()" unfolding handle_event_def by (auto elim!: catch_SomeE)
  from body show ?thesis
  proof (cases rule: bnd_SomeE)
    case (raised e)
    from get_task_result [OF raised(1)] r show ?thesis by (auto simp: same_stream_def)
  next
    case (returned a u)
    note got = get_task_result [OF returned(1)]
    show ?thesis
    proof (cases a)
      case None
      with returned(2) got r show ?thesis by (auto simp: same_stream_def)
    next
      case (Some tk)
      with returned(2) have "start_task hs tk u = Some (r', t)" by simp
      from start_task_result [OF this] got Some r show ?thesis
        by (auto simp: same_stream_def fresh_key_def)
    qed
  qed
qed

end

interpretation silent: task_handlers "[]"
  by unfold_locales simp

section \<open>The stream with its tasks\<close>

text \<open>
  The life of a stream: lines arrive, and the event loop cleans up tasks it was handed. The key of a task
  is released before the first suspension point of its cleanup, so that the
  lines handled during the publication meet the keys as they are at the end of this step.
\<close>

inductive stream_step :: "env \<Rightarrow> cfgdata \<Rightarrow> (task \<Rightarrow> ('z, unit) gprog) list \<Rightarrow> (task \<Rightarrow> ('z, unit) gprog) list \<Rightarrow>
    (string \<Rightarrow> pyval result) \<Rightarrow> 'z gst_scheme \<Rightarrow> 'z gst_scheme \<Rightarrow> bool" for E data hs ths decode where
  line: "handle_line E data hs decode l s = Some (r, t) \<Longrightarrow> stream_step E data hs ths decode s t"
| cleanup: "g_live s = xs @ tk # ys \<Longrightarrow> task_cleanup E ths tk (s\<lparr>g_live := xs @ ys\<rparr>) = Some (r, t) \<Longrightarrow>
    stream_step E data hs ths decode s t"

definition task_key :: "task \<Rightarrow> string" where
  "task_key tk = get_key (t_event tk)"

text \<open>Every task that has a key holds it, and no two tasks hold the same one.\<close>

definition stream_inv :: "'z gst_scheme \<Rightarrow> bool" where
  "stream_inv s \<longleftrightarrow> set (map task_key (g_live s)) - {[]} \<subseteq> g_tasks s \<and> distinct (filter (\<lambda>k. k \<noteq> []) (map task_key (g_live s)))"

text \<open>Gerrit sends no \<^verbatim>\<open>ref-updated\<close> event that carries a change and a patch set.\<close>

definition plain_refs :: "(string \<Rightarrow> pyval result) \<Rightarrow> bool" where
  "plain_refs decode \<longleftrightarrow> (\<forall>w event. decode w = Inr event \<longrightarrow> updates_ref event \<longrightarrow> get_key event = [])"

lemma stream_inv_add:
  assumes "stream_inv s" and "fresh_key (t_event tk) s t" and "g_live t = g_live s @ [tk]"
  shows "stream_inv t"
  using assms by (auto simp: stream_inv_def fresh_key_def task_key_def)

lemma stream_inv_keyless:
  assumes "stream_inv s" and "g_tasks t = g_tasks s" and "task_key tk = []" and "g_live t = g_live s @ [tk]"
  shows "stream_inv t"
  using assms by (auto simp: stream_inv_def)

lemma stream_inv_register:
  assumes "stream_inv s" and "g_tasks s \<subseteq> g_tasks t" and "g_live t = g_live s"
  shows "stream_inv t"
  using assms by (auto simp: stream_inv_def)

lemma stream_inv_remove:
  assumes "stream_inv s" and "g_live s = xs @ tk # ys" and "g_live t = xs @ ys" and "g_tasks s - {task_key tk} \<subseteq> g_tasks t"
  shows "stream_inv t"
proof -
  have "distinct (filter (\<lambda>k. k \<noteq> []) (map task_key (xs @ tk # ys)))" and sub: "set (map task_key (xs @ tk # ys)) - {[]} \<subseteq> g_tasks s"
    using assms(1,2) by (simp_all add: stream_inv_def)
  then have d: "distinct (filter (\<lambda>k. k \<noteq> []) (map task_key (xs @ ys)))" and new: "task_key tk \<notin> set (map task_key (xs @ ys)) - {[]}"
    by (cases "task_key tk = []"; auto simp del: set_map)+
  have "set (map task_key (xs @ ys)) - {[]} \<subseteq> g_tasks s - {task_key tk}"
    using sub new by (auto simp del: set_map)
  with d assms(3,4) show ?thesis by (auto simp: stream_inv_def simp del: set_map)
qed

lemma cleanup_view:
  assumes "task_handlers ths" and "task_cleanup E ths tk s = Some (r, t)"
  shows "g_live t = g_live s \<and> g_cfg t = g_cfg s \<and> g_tasks s - {task_key tk} \<subseteq> g_tasks t"
proof -
  let ?s = "s\<lparr>trace := trace s @ [Clock]\<rparr>"
  let ?t = "tk\<lparr>t_finished_at := py_int (clock E (trace s))\<rparr>"
  let ?rest = "bnd (gets g_cfg) (\<lambda>cfg. bnd (liftR (getdef cfg ''silent'' PNone)) (\<lambda>silent.
     bnd (if \<not> truthy silent then catch (publish_results E cfg ?t) (\<lambda>e. ret ()) else sleep E 0) (\<lambda>_.
     bnd (forM ths (\<lambda>cb. catch (cb ?t) (\<lambda>e. ret ()))) (\<lambda>_. ret ?t))))"
  have rest: "keeps gview ?rest"
    by (intro keeps_intro gview_emits [OF keeps_publish] gview_emits [where P = "\<lambda>_. True", OF emits_prims(1)]
        task_handlers.task_handler_keeps [OF assms(1)] TrueI)
  have run: "bnd (remove_key (task_key tk)) (\<lambda>_. ?rest) ?s = Some (r, t)"
    using assms(2) by (simp add: task_cleanup_def Let_def now_def bnd_def task_key_def)
  then show ?thesis
  proof (cases rule: bnd_SomeE)
    case (raised e)
    then show ?thesis by (auto simp: remove_key_def split: if_splits)
  next
    case (returned a u)
    from keepsD [OF rest returned(2)] returned(1) show ?thesis by (auto simp: remove_key_def gview_eq_iff split: if_splits)
  qed
qed

lemma stream_step_inv:
  assumes "task_handlers hs" and "task_handlers ths" and "plain_refs decode"
    and "stream_step E data hs ths decode s t" and "stream_inv s"
  shows "stream_inv t"
  using assms(4)
proof (cases rule: stream_step.cases)
  case (line l r)
  show ?thesis
  proof (cases "\<exists>w event. l = Bytes w \<and> w \<noteq> [] \<and> decode w = Inr event")
    case False
    with line have "t = s" by (cases l) (auto simp: handle_line_def liftR_def elim!: bnd_SomeE split: if_splits)
    with assms(5) show ?thesis by simp
  next
    case True
    then obtain w event where w: "l = Bytes w" "w \<noteq> []" "decode w = Inr event" by blast
    with line have ev: "handle_event E data hs event s = Some (r, t)" by (simp add: handle_line_def)
    have key: "get_key event = []" if "updates_ref event" using assms(3) w(3) that unfolding plain_refs_def by blast
    from task_handlers.handle_event_result [OF assms(1) ev] assms(5) key show ?thesis
      by (auto simp: fresh_key_def task_key_def
          intro: stream_inv_register stream_inv_keyless stream_inv_add [unfolded fresh_key_def])
  qed
next
  case (cleanup xs tk ys r)
  from cleanup_view [OF assms(2) cleanup(2)] cleanup(1) show ?thesis
    by (intro stream_inv_remove [OF assms(5)]) auto
qed

section \<open>One task per key\<close>

lemma stream_reachable_inv:
  assumes "(stream_step E data hs ths decode)\<^sup>*\<^sup>* s0 s" and "task_handlers hs" and "task_handlers ths" and "plain_refs decode" and "stream_inv s0"
  shows "stream_inv s"
  using assms(1,5) by (induction rule: rtranclp_induct) (auto intro: stream_step_inv [OF assms(2-4)])

lemma distinct_filter_count:
  "distinct (filter P (map f xs)) \<Longrightarrow> P k \<Longrightarrow> length (filter (\<lambda>x. f x = k) xs) \<le> 1"
proof (induction xs)
  case (Cons x xs)
  show ?case
  proof (cases "f x = k")
    case True
    with Cons.prems have "k \<notin> f ` set xs" by auto
    then have "filter (\<lambda>x. f x = k) xs = []" by (auto simp: filter_empty_conv)
    with True show ?thesis by simp
  qed (use Cons in \<open>auto split: if_splits\<close>)
qed simp

text \<open>C2: whatever lines arrive and whichever tasks are cleaned up in between, no patch set is ever tested by two tasks at the
  same time, and a task that is running holds its key, so that further events of the patch set are duplicates.\<close>

theorem one_task_per_key:
  assumes "(stream_step E data hs ths decode)\<^sup>*\<^sup>* s0 s" and "g_live s0 = []"
    and "\<And>cb t. cb \<in> set hs \<union> set ths \<Longrightarrow> keeps gview (cb t)" and "plain_refs decode" and "k \<noteq> []"
  shows "length (filter (\<lambda>tk. task_key tk = k) (g_live s)) \<le> 1 \<and> (k \<in> task_key ` set (g_live s) \<longrightarrow> k \<in> g_tasks s)"
proof -
  have "task_handlers hs" "task_handlers ths" using assms(3) by (auto intro: task_handlers.intro)
  moreover have "stream_inv s0" using assms(2) by (simp add: stream_inv_def)
  ultimately have "stream_inv s" using stream_reachable_inv assms(1,4) by blast
  then show ?thesis using assms(5) distinct_filter_count [of "\<lambda>k. k \<noteq> []" task_key "g_live s" k]
    by (auto simp: stream_inv_def)
qed

definition demo_gst :: gst where
  "demo_gst = \<lparr>trace = [], g_tasks = {}, g_live = [], g_cfg = demo_stream\<rparr>"

definition demo_decode :: "string \<Rightarrow> pyval result" where
  "demo_decode w = (if w = ''created'' then Inr demo_event
     else if w = ''recheck'' then Inr (PDict (dset (dset [(''change'', PDict [(''project'', PStr ''p'')]),
       (''patchSet'', PDict [(''revision'', PStr ''r1''), (''ref'', PStr ''refs/changes/1/2/3'')])] ''type'' (PStr ''comment-added''))
         ''comment'' (PStr (''Patch Set 1:'' @ [newline, newline] @ ''rally-ci recheck''))))
     else Inl (ValueError w))"

lemma demo_handle:
  "map_option (\<lambda>(r, t). (r, map task_key (g_live t), g_tasks t)) (handle_line (demo_env []) demo_project [] demo_decode (Bytes ''created'') demo_gst) =
     Some (Inr (), [''prefs/changes/1/2/3''], {''prefs/changes/1/2/3''})"
  by code_simp

lemma demo_plain_refs: "plain_refs demo_decode"
  by (auto simp: plain_refs_def demo_decode_def updates_ref_def demo_event_def)

theorem one_task_per_key_witness:
  "\<exists>s. (stream_step (demo_env []) demo_project [] [] demo_decode)\<^sup>*\<^sup>* demo_gst s \<and> map task_key (g_live s) = [''prefs/changes/1/2/3''] \<and>
     ''prefs/changes/1/2/3'' \<in> g_tasks s"
proof -
  obtain rs where rs: "handle_line (demo_env []) demo_project [] demo_decode (Bytes ''created'') demo_gst = Some rs"
    "(case rs of (r, t) \<Rightarrow> (r, map task_key (g_live t), g_tasks t)) = (Inr (), [''prefs/changes/1/2/3''], {''prefs/changes/1/2/3''})"
    using demo_handle unfolding map_option_eq_Some by blast
  obtain r s where "rs = (r, s)" by (cases rs)
  with rs have s: "handle_line (demo_env []) demo_project [] demo_decode (Bytes ''created'') demo_gst = Some (r, s)"
    "map task_key (g_live s) = [''prefs/changes/1/2/3'']" by (simp_all only: prod.case prod.inject)
  then have step: "(stream_step (demo_env []) demo_project [] [] demo_decode)\<^sup>*\<^sup>* demo_gst s" by (blast intro: stream_step.line)
  have "''prefs/changes/1/2/3'' \<in> set (map task_key (g_live s))" unfolding s(2) by simp
  then have "''prefs/changes/1/2/3'' \<in> g_tasks s"
    using one_task_per_key [OF step _ _ demo_plain_refs, of "''prefs/changes/1/2/3''"] by (auto simp: demo_gst_def)
  with step s(2) show ?thesis by (intro exI conjI)
qed

lemma duplicate_line:
  assumes "get_key event \<in> g_tasks s" and "\<not> updates_ref event" and "decode w = Inr event"
  shows "handle_line E data hs decode (Bytes w) s = Some (Inr (), s)"
proof -
  have reg: "register_task E data p event s = Some (Inr None, s)" for p
    using assms(1) by (simp add: register_task_def)
  have "\<exists>r. get_task E data event s = Some (r, s) \<and> (\<forall>tk. r \<noteq> Inr (Some tk))"
  proof (cases "event_project event")
    case (Inr project)
    show ?thesis
    proof (cases project)
      case (Some v)
      show ?thesis
        by (cases "project_known data v"; cases "as_str Unmodelled v"; cases "getitem event ''type''"; cases "is_recheck (g_cfg s) event")
          (use assms(2) Some Inr in \<open>simp_all add: get_task_def reg updates_ref_def\<close>)
    qed (simp add: get_task_def Inr)
  qed (simp add: get_task_def)
  then obtain r where "get_task E data event s = Some (r, s)" "\<forall>tk. r \<noteq> Inr (Some tk)" by blast
  then have "bnd (get_task E data event) (\<lambda>t. case t of None \<Rightarrow> ret () | Some t \<Rightarrow> start_task hs t) s = Some (case r of Inl e \<Rightarrow> Inl e | Inr _ \<Rightarrow> Inr (), s)"
    by (cases r) (auto simp: bnd_def split: option.splits)
  then have "handle_event E data hs event s = Some (Inr (), s)"
    unfolding handle_event_def by (cases r) (simp_all add: catch_run)
  with assms(3) show ?thesis by (simp add: handle_line_def)
qed

text \<open>An event for a patch set that is being tested changes nothing: no task, no request, no key.\<close>

theorem duplicate_ignored:
  assumes "get_key event \<in> g_tasks s" and "\<not> updates_ref event" and "decode w = Inr event"
  shows "handle_line E data hs decode (Bytes w) s = Some (Inr (), s)"
  using assms by (rule duplicate_line)

theorem duplicate_ignored_witness:
  "handle_line (demo_env []) demo_project [] demo_decode (Bytes ''recheck'') (demo_gst\<lparr>g_tasks := {''prefs/changes/1/2/3''}\<rparr>) =
     Some (Inr (), demo_gst\<lparr>g_tasks := {''prefs/changes/1/2/3''}\<rparr>)"
  by (rule duplicate_ignored [where event = "projr (demo_decode ''recheck'')"]) (simp_all add: demo_decode_def get_key_def updates_ref_def)

section \<open>Rechecks\<close>

text \<open>C23: with a pattern of the form of the default one and of the sample configurations, a comment asks for a recheck exactly
  when one of its lines is the phrase and nothing else.\<close>

theorem recheck_line:
  assumes "getdef cfg ''recheck-regexp'' (PStr ''^rally-ci recheck$'') = Inr (PStr (''^'' @ w @ ''$''))" and "plain_word w" and "newline \<notin> set w"
    and "getitem event ''comment'' = Inr (PStr comment)"
  shows "is_recheck cfg event = Inr (w \<in> set (split_on newline comment))"
proof -
  from re_search_whole_line [OF assms(2,3), of comment] obtain its where
    its: "re_compile (''^'' @ w @ ''$'') = Inr its" "search its None comment = (if w \<in> set (split_on newline comment) then Some [] else None)"
    unfolding re_search_def by (auto simp: bindR_Inr_iff)
  show ?thesis unfolding is_recheck_def assms(1,4) by (simp only: bindR_simps as_str.simps its) simp
qed

theorem recheck_line_witness:
  "is_recheck demo_stream (projr (demo_decode ''recheck'')) = Inr True"
proof -
  have 1: "getdef demo_stream ''recheck-regexp'' (PStr ''^rally-ci recheck$'') = Inr (PStr (''^'' @ ''rally-ci recheck'' @ ''$''))"
    by (simp add: demo_stream_def)
  have 2: "plain_word ''rally-ci recheck''" and 3: "newline \<notin> set ''rally-ci recheck''" by code_simp+
  have 4: "getitem (projr (demo_decode ''recheck'')) ''comment'' = Inr (PStr (''Patch Set 1:'' @ [newline, newline] @ ''rally-ci recheck''))"
    by (simp add: demo_decode_def)
  have 5: "''rally-ci recheck'' \<in> set (split_on newline (''Patch Set 1:'' @ [newline, newline] @ ''rally-ci recheck''))" by code_simp
  show ?thesis unfolding recheck_line [OF 1 2 3 4] using 5 by (simp only: simp_thms)
qed

section \<open>What goes wrong\<close>

text \<open>C24: when the task of an event cannot be created, the key that was registered for it stays: no task is running for the
  patch set, and yet every later event of it is taken for a duplicate.\<close>

theorem failed_task_leaks_key:
  assumes "decode w = Inr event" and "w \<noteq> []" and "event_project event = Inr (Some (PStr p))" and "project_known data (PStr p) = Inr True"
    and "asks_once (g_cfg s) event" and "get_key event \<notin> g_tasks s"
    and "task_new E data (g_cfg s) p event (s\<lparr>g_tasks := insert (get_key event) (g_tasks s)\<rparr>) = Some (Inl e, t)"
    and "decode w' = Inr event'" and "get_key event' = get_key event" and "\<not> updates_ref event'"
  shows "handle_line E data hs decode (Bytes w) s = Some (Inr (), t) \<and> g_live t = g_live s \<and>
    handle_line E data hs decode (Bytes w') t = Some (Inr (), t)"
proof -
  have reg: "register_task E data p event s = Some (Inl e, t)"
    using assms(6,7) by (simp add: register_task_def bnd_run)
  then have "get_task E data event s = Some (Inl e, t)"
    using assms(3-5) by (auto simp: get_task_def asks_once_def)
  then have "handle_line E data hs decode (Bytes w) s = Some (Inr (), t)"
    using assms(1,2) by (simp add: handle_line_def handle_event_def bnd_run catch_run)
  moreover from register_task_result [OF reg] have "g_live t = g_live s" "get_key event' \<in> g_tasks t"
    using assms(9) by (auto simp: same_stream_def fresh_key_def)
  moreover have "register_task E data q event' t = Some (Inr None, t)" for q
    using \<open>get_key event' \<in> g_tasks t\<close> by (simp add: register_task_def)
  ultimately show ?thesis using duplicate_line [where event = event'] assms(8,10) by blast
qed

theorem failed_task_leaks_key_witness:
  "\<exists>t. handle_line (demo_env []) [hd demo_project] [] demo_decode (Bytes ''created'') demo_gst = Some (Inr (), t) \<and> g_live t = [] \<and>
     handle_line (demo_env []) [hd demo_project] [] demo_decode (Bytes ''recheck'') t = Some (Inr (), t)"
proof -
  let ?data = "[hd demo_project]"
  let ?s = "demo_gst\<lparr>g_tasks := insert (get_key demo_event) (g_tasks demo_gst)\<rparr>"
  have "map_option fst (task_new (demo_env []) ?data demo_stream ''p'' demo_event ?s) = Some (Inl (KeyError ''job''))" by code_simp
  then obtain t where t: "task_new (demo_env []) ?data (g_cfg demo_gst) ''p'' demo_event ?s = Some (Inl (KeyError ''job''), t)"
    by (auto simp: demo_gst_def)
  have "event_project demo_event = Inr (Some (PStr ''p''))" by (simp add: event_project_def demo_event_def)
  moreover have "project_known ?data (PStr ''p'') = Inr True" by (simp add: project_known_def demo_project_def)
  moreover have "asks_once (g_cfg demo_gst) demo_event" by (simp add: asks_once_def demo_event_def)
  moreover have "get_key demo_event \<notin> g_tasks demo_gst" by (simp add: demo_gst_def)
  moreover have "get_key (projr (demo_decode ''recheck'')) = get_key demo_event"
    by (simp add: demo_decode_def get_key_def demo_event_def)
  moreover have "\<not> updates_ref (projr (demo_decode ''recheck''))" by (simp add: demo_decode_def updates_ref_def)
  ultimately have "handle_line (demo_env []) ?data [] demo_decode (Bytes ''created'') demo_gst = Some (Inr (), t) \<and> g_live t = g_live demo_gst \<and>
     handle_line (demo_env []) ?data [] demo_decode (Bytes ''recheck'') t = Some (Inr (), t)"
    by (intro failed_task_leaks_key [OF _ _ _ _ _ _ t]) (simp_all add: demo_decode_def)
  then show ?thesis by (auto simp: demo_gst_def)
qed

text \<open>C25: a line that is not valid JSON ends the stream: the lines before it are handled, the error leaves \<^verbatim>\<open>run\<close>, and whatever
  the server sent after it is lost.\<close>

theorem bad_line_stops_stream:
  assumes "getdef (g_cfg s) ''fake-stream'' PNone = Inr fake" and "\<not> truthy fake"
    and "default_port (g_cfg s) = Inr cfg" and "getitem cfg ''ssh'' = Inr c" and "no_cb_key c = Inr ()"
    and "ssh_of_cfg c (s\<lparr>g_cfg := cfg\<rparr>) = Some (Inr h, s1)" and "\<not> is_ready h s1" and "ssh_wait E h 300 s1 = Some (Inr (), s2)"
    and "spawn E (trace s2) (ssh_argv h None (CmdStr ''gerrit stream-events'')) None = \<lparr>p_lines = ls @ w # rest, p_status = st\<rparr>"
    and "forM ls (\<lambda>l. handle_line E data hs decode (Bytes l)) (s2\<lparr>trace := trace s2 @ [Exec (ssh_argv h None (CmdStr ''gerrit stream-events'')) None]\<rparr>) = Some (Inr (), t)"
    and "w \<noteq> []" and "decode w = Inl e"
  shows "gerrit_run E data hs decode s = Some (Inl e, t)"
proof -
  let ?h = "\<lambda>l. handle_line E data hs decode (Bytes l)"
  let ?argv = "ssh_argv h None (CmdStr ''gerrit stream-events'')"
  have "?h w t = Some (Inl e, t)" using assms(11,12) by (simp add: handle_line_def)
  then have "forM (ls @ w # rest) ?h (s2\<lparr>trace := trace s2 @ [Exec ?argv None]\<rparr>) = Some (Inl e, t)"
    unfolding forM_append using assms(10) by (simp add: bnd_run)
  then have "ssh_exec E h ?h (CmdStr ''gerrit stream-events'') None False True True None s2 = Some (Inl e, t)"
    unfolding ssh_exec_def subprocess_def using assms(9) by (simp add: bnd_run bnd_def [of "io_do _ _"])
  then have "ssh_run E h ?h (CmdStr ''gerrit stream-events'') None False True True None s1 = Some (Inl e, t)"
    unfolding ssh_run_def using assms(7,8) by (simp add: bnd_run catch_run)
  then show ?thesis
    unfolding gerrit_run_def using assms(1-6) by (simp add: bnd_run)
qed

definition demo_ssh_cfg :: pyval where
  "demo_ssh_cfg = PDict [(''vote'', PBool True), (''comment-header'', PStr ''run {succeeded}''), (''comment-job-template'', PStr ''{name} {success}''),
     (''ssh'', PDict [(''hostname'', PStr ''review'')])]"

lemma demo_garbage: "handle_line E data hs demo_decode (Bytes ''garbage'') s = Some (Inl (ValueError ''garbage''), s)"
  by (simp add: handle_line_def demo_decode_def)

theorem bad_line_stops_stream_witness:
  "\<exists>t. gerrit_run (demo_env [''garbage'', ''created'']) demo_project [] demo_decode (demo_gst\<lparr>g_cfg := demo_ssh_cfg\<rparr>) =
     Some (Inl (ValueError ''garbage''), t) \<and> g_live t = []"
proof -
  let ?s = "demo_gst\<lparr>g_cfg := demo_ssh_cfg\<rparr>"
  let ?c = "PDict [(''hostname'', PStr ''review''), (''port'', PInt 29418)]"
  let ?cfg = "PDict [(''vote'', PBool True), (''comment-header'', PStr ''run {succeeded}''), (''comment-job-template'', PStr ''{name} {success}''),
     (''ssh'', ?c)]"
  let ?h = "\<lparr>sid = 0, username = ''root'', hostname = ''review'', key = None, port = ''29418''\<rparr>"
  let ?s1 = "?s\<lparr>g_cfg := ?cfg, trace := [SshNew]\<rparr>"
  let ?s2 = "?s\<lparr>g_cfg := ?cfg, trace := [SshNew, Clock, Connect ''review'' ''29418'', SshReady 0]\<rparr>"
  have 1: "default_port (g_cfg ?s) = Inr ?cfg" by (simp add: default_port_def demo_ssh_cfg_def)
  have p: "int_str 29418 = ''29418''" by (simp add: int_str_def nat_str.simps digit_def char_of_def bit_iff_odd)
  have d: "list_all is_digit ''29418''" by code_simp
  have 2: "ssh_of_cfg ?c (?s\<lparr>g_cfg := ?cfg\<rparr>) = Some (Inr ?h, ?s1)"
    by (simp add: ssh_of_cfg_def opt_str_def ssh_new_def demo_gst_def p)
  have c: "dial (demo_env [''garbage'', ''created'']) tr a q = None" for tr a q by (simp add: demo_env_def quiet_env_def)
  have 3: "ssh_wait (demo_env [''garbage'', ''created'']) ?h 300 ?s1 = Some (Inr (), ?s2)"
    using ssh_wait_reachable [of ?h, OF _ _ c, of 300 ?s1] d by simp
  have 4: "spawn (demo_env [''garbage'', ''created'']) tr argv i = \<lparr>p_lines = [] @ ''garbage'' # [''created''], p_status = Exited 0\<rparr>" for tr argv i
    by (simp add: demo_env_def)
  show ?thesis
    by (rule exI [of _ "?s2\<lparr>trace := trace ?s2 @ [Exec (ssh_argv ?h None (CmdStr ''gerrit stream-events'')) None]\<rparr>"], rule conjI,
        rule bad_line_stops_stream [where fake = PNone, OF _ _ 1 _ _ 2 _ 3 4])
      (simp_all add: demo_ssh_cfg_def demo_decode_def no_cb_key_def is_ready_def demo_gst_def)
qed

section \<open>Where the votes go\<close>

fun port_req :: "string \<Rightarrow> req \<Rightarrow> bool" where
  "port_req p (Connect h q) = (q = p)"
| "port_req p (Exec argv i) = (\<exists>h user cmd. argv = ssh_argv h user cmd \<and> port h = p)"
| "port_req p _ = True"

lemma port_req_conn: "port h = p \<Longrightarrow> conn_req h q \<Longrightarrow> port_req p q"
  by (cases q) simp_all

lemma ssh_of_cfg_port:
  assumes "ssh_of_cfg (PDict e) s = Some (Inr h, t)" and "dlookup e ''port'' = Some (PInt n)"
  shows "port h = int_str n"
  using assms by (auto simp: ssh_of_cfg_def ssh_new_def liftR_def elim!: bnd_InrE split: if_splits)

lemma emits_ssh_of_cfg: "(\<And>q. q = SshNew \<Longrightarrow> P q) \<Longrightarrow> emits P (ssh_of_cfg c)"
proof -
  assume "\<And>q. q = SshNew \<Longrightarrow> P q"
  then have "emits P (ssh_new u h k p)" for u h k p by (auto simp: ssh_new_def emits_def)
  then show ?thesis
    unfolding ssh_of_cfg_def by (cases c) (simp_all only: pyval.case, (intro io_frame | assumption)+)
qed

lemma emits_bnd_result:
  assumes m: "emits P m" and f: "\<And>s a t. m s = Some (Inr a, t) \<Longrightarrow> emits P (f a)"
  shows "emits P (bnd m f)"
  unfolding emits_def
proof (intro allI impI)
  fix s r s'
  assume "bnd m f s = Some (r, s')"
  then show "\<exists>t. s' = s\<lparr>trace := trace s @ t\<rparr> \<and> list_all P t"
  proof (cases rule: bnd_SomeE)
    case (returned a u)
    from m returned(1) obtain t where t: "u = s\<lparr>trace := trace s @ t\<rparr>" "list_all P t" by (rule emitsD)
    from f [OF returned(1)] returned(2) obtain v where "s' = u\<lparr>trace := trace u @ v\<rparr>" "list_all P v" by (rule emitsD)
    with t show ?thesis by (rule emits_trans)
  qed (use m in \<open>auto elim: emitsD\<close>)
qed

lemma emits_liftR_result: "(\<And>a. r = Inr a \<Longrightarrow> emits P (f a)) \<Longrightarrow> emits P (bnd (liftR r) f)"
  by (cases r) (simp_all add: emits_raise)

text \<open>The port the service writes into its configuration when it connects is the one the results are sent to: for a
  configuration without a port, every connection and command of the publication goes to port 29418.\<close>

theorem votes_use_stream_port:
  assumes "getitem cfg ''ssh'' = Inr (PDict e)" and "dlookup e ''port'' = None" and "default_port cfg = Inr cfg'"
  shows "emits (port_req (int_str 29418)) (publish_results E cfg' t)"
proof -
  let ?e = "dset e ''port'' (PInt 29418)"
  obtain d where d: "cfg = PDict d" using assms(1) by (cases cfg) auto
  then have ssh: "getitem cfg' ''ssh'' = Inr (PDict ?e)" using assms by (auto simp: default_port_def)
  have "emits (port_req (int_str 29418)) (bnd (ssh_of_cfg (PDict ?e)) (\<lambda>ssh. bnd (ssh_run E ssh no_cb (CmdList cmd) None False True True None) (\<lambda>_. ret ())))" for cmd
  proof (rule emits_bnd_result)
    show "emits (port_req (int_str 29418)) (ssh_of_cfg (PDict ?e))" by (rule emits_ssh_of_cfg) simp
    fix s h t
    assume "ssh_of_cfg (PDict ?e) s = Some (Inr h, t)"
    then have p: "port h = int_str 29418" by (rule ssh_of_cfg_port) simp
    show "emits (port_req (int_str 29418)) (bnd (ssh_run E h no_cb (CmdList cmd) None False True True None) (\<lambda>_. ret ()))"
      by (rule emits_bnd [OF emits_ssh_run emits_ret]) (use p in \<open>auto intro: port_req_conn emits_no_cb\<close>)
  qed
  then show ?thesis
    unfolding publish_results_def ssh
    by (intro emits_liftR_result emits_if emits_ret) simp
qed

theorem votes_use_stream_port_witness:
  "\<exists>cfg'. default_port demo_ssh_cfg = Inr cfg' \<and> emits (port_req (int_str 29418)) (publish_results (demo_env []) cfg' demo_task)"
proof -
  have "getitem demo_ssh_cfg ''ssh'' = Inr (PDict [(''hostname'', PStr ''review'')])" by (simp add: demo_ssh_cfg_def)
  moreover obtain cfg' where c: "default_port demo_ssh_cfg = Inr cfg'" by (simp add: default_port_def demo_ssh_cfg_def)
  moreover have "dlookup [(''hostname'', PStr ''review'')] ''port'' = None" by simp
  ultimately have "emits (port_req (int_str 29418)) (publish_results (demo_env []) cfg' demo_task)"
    by (blast intro: votes_use_stream_port)
  with c show ?thesis by blast
qed

section \<open>The fake stream\<close>

lemma fake_loop_raises:
  fixes s :: "'z gst_scheme"
  assumes "fake_loop E h path s = Some (r, t)"
  shows "(\<exists>e. r = Inl e) \<and> (\<exists>tr. file_lines E tr path \<noteq> Inr [])"
proof -
  let ?P = "\<lambda>E (h :: stream_line \<Rightarrow> ('z, unit) gprog) path s (y :: unit result \<times> 'z gst_scheme).
    (\<exists>e. fst y = Inl e) \<and> (\<exists>tr. file_lines E tr path \<noteq> Inr [])"
  have "?P E h path s (r, t)"
  proof (rule fake_loop.raw_induct [where P = ?P, OF _ assms])
    fix f :: "env \<Rightarrow> (stream_line \<Rightarrow> ('z, unit) gprog) \<Rightarrow> string \<Rightarrow> ('z, unit) gprog"
    fix E and h :: "stream_line \<Rightarrow> ('z, unit) gprog" and path s y
    assume IH: "\<And>E h path s y. f E h path s = Some y \<Longrightarrow> ?P E h path s y"
      and step: "bnd (replay E h path) (\<lambda>_. f E h path) s = Some y"
    obtain r t where y: "y = (r, t)" by (cases y)
    from step [unfolded y] show "?P E h path s y"
    proof (cases rule: bnd_SomeE)
      case (raised e)
      then have "file_lines E (trace s) path \<noteq> Inr []"
        by (auto simp: replay_def read_lines_def bnd_def)
      with raised y show ?thesis by auto
    next
      case (returned a u)
      from IH [OF returned(2)] y show ?thesis by simp
    qed
  qed
  then show ?thesis by simp
qed

text \<open>Replaying a file as the stream never comes to an end by itself: it can only be left by an exception. With an empty file the
  loop has no suspension point and never returns at all, so the whole event loop stands still.\<close>

theorem fake_stream_spins:
  "(fake_loop E h path s = Some (r, t) \<longrightarrow> (\<exists>e. r = Inl e)) \<and>
   ((\<forall>tr. file_lines E tr path = Inr []) \<longrightarrow> fake_loop E h path s = None)"
  using fake_loop_raises [of E h path s] by (cases "fake_loop E h path s") fastforce+

theorem fake_stream_spins_witness: "fake_loop (demo_env []) (handle_line (demo_env []) [] [] demo_decode) ''f'' demo_gst = None"
  using fake_stream_spins [of "demo_env []" "handle_line (demo_env []) [] [] demo_decode" "''f''" demo_gst]
  by (simp add: demo_env_def quiet_env_def)

end
