(* ===== verification/Status.thy ===== *)
theory Status
  imports Gerrit
begin

text \<open>
  \<^verbatim>\<open>rallyci/services/status.py\<close>, the web page that shows the tasks, with \<^verbatim>\<open>rallyci/common/periodictask.py\<close>. The state of the
  service is a record of its own; its handlers run inside the state of a job and inside the
  state of a stream, so the operations take the selector and the update of that record. A web socket belongs to aiohttp: the
  parameter \<open>W\<close> says whether sending to a client raises. Messages are the values handed to \<^verbatim>\<open>json.dumps\<close>.
\<close>

section \<open>Periodic tasks\<close>

datatype timer = TRun | TMethod  \<comment> \<open>what \<^verbatim>\<open>call_later\<close> will call: \<^verbatim>\<open>_run\<close> or the method\<close>

record ptask =
  active :: bool
  interval :: pyval
  handler :: "nat option"             \<comment> \<open>the attribute \<^verbatim>\<open>_handler\<close>, if it is set\<close>
  timers :: "(nat \<times> timer) list"      \<comment> \<open>the pending calls in the event loop\<close>
  next_timer :: nat

definition ptask_new :: "pyval \<Rightarrow> ptask" where
  "ptask_new i = \<lparr>active = False, interval = i, handler = None, timers = [], next_timer = 0\<rparr>"

definition call_later :: "timer \<Rightarrow> ptask \<Rightarrow> ptask" where
  "call_later k p = p\<lparr>handler := Some (next_timer p), timers := timers p @ [(next_timer p, k)], next_timer := Suc (next_timer p)\<rparr>"

definition pt_run :: "ptask \<Rightarrow> ptask" where
  "pt_run = call_later TMethod"

definition pt_start :: "ptask \<Rightarrow> ptask" where
  "pt_start = call_later TRun"

definition pt_stop :: "ptask \<Rightarrow> ptask" where
  "pt_stop p = (case handler p of None \<Rightarrow> p | Some n \<Rightarrow> p\<lparr>timers := filter (\<lambda>(m, k). m \<noteq> n) (timers p)\<rparr>)"

section \<open>The service\<close>

record status =
  clients :: "nat list"
  finished :: "pyval list"
  sent :: "(nat \<times> pyval) list"        \<comment> \<open>what has been sent so far, to whom\<close>
  stats_sender :: "ptask option"      \<comment> \<open>\<open>None\<close>: \<^verbatim>\<open>run\<close> has not set it yet\<close>
  start_hooks :: "string list"        \<comment> \<open>the handler lists of the root, by name\<close>
  end_hooks :: "string list"
  update_hooks :: "string list"

type_synonym 's lens = "('s \<Rightarrow> status) \<times> ((status \<Rightarrow> status) \<Rightarrow> 's \<Rightarrow> 's)"
type_synonym sockets = "status \<Rightarrow> nat \<Rightarrow> pyval \<Rightarrow> exn option"

abbreviation get_st :: "'s lens \<Rightarrow> ('s, status) prog" where
  "get_st L \<equiv> gets (fst L)"

abbreviation upd_st :: "'s lens \<Rightarrow> (status \<Rightarrow> status) \<Rightarrow> ('s, unit) prog" where
  "upd_st L f \<equiv> modify (snd L f)"

definition send_str :: "'s lens \<Rightarrow> sockets \<Rightarrow> nat \<Rightarrow> pyval \<Rightarrow> ('s, unit) prog" where
  "send_str L W c data =
     bnd (get_st L) (\<lambda>st. case W st c data of
        Some e \<Rightarrow> raise e
      | None \<Rightarrow> upd_st L (\<lambda>st. st\<lparr>sent := sent st @ [(c, data)]\<rparr>))"

definition send_all :: "'s lens \<Rightarrow> sockets \<Rightarrow> pyval \<Rightarrow> ('s, unit) prog" where
  "send_all L W data = bnd (get_st L) (\<lambda>st. forM (clients st) (\<lambda>c. send_str L W c data))"

definition task_started_cb :: "'x io_scheme lens \<Rightarrow> sockets \<Rightarrow> env \<Rightarrow> task \<Rightarrow> ('x io_scheme, unit) prog" where
  "task_started_cb L W E t = bnd (task_to_dict E t) (\<lambda>d.
     send_all L W (PDict [(''type'', PStr ''task-started''), (''task'', d)]))"

definition job_status_cb :: "'x io_scheme lens \<Rightarrow> sockets \<Rightarrow> env \<Rightarrow> job \<Rightarrow> ('x io_scheme, unit) prog" where
  "job_status_cb L W E j = bnd (job_to_dict E j) (\<lambda>d.
     send_all L W (PDict [(''type'', PStr ''job-status-update''), (''job'', d)]))"

text \<open>\<^verbatim>\<open>collections.deque(maxlen=10)\<close>\<close>

definition deque_append :: "nat \<Rightarrow> 'a list \<Rightarrow> 'a \<Rightarrow> 'a list" where
  "deque_append maxlen xs x = drop (Suc (length xs) - maxlen) (xs @ [x])"

definition task_finished_cb :: "'x io_scheme lens \<Rightarrow> sockets \<Rightarrow> env \<Rightarrow> task \<Rightarrow> ('x io_scheme, unit) prog" where
  "task_finished_cb L W E t =
     bnd (task_to_dict E t) (\<lambda>d.
     bnd (upd_st L (\<lambda>st. st\<lparr>finished := deque_append 10 (finished st) d\<rparr>)) (\<lambda>_.
     send_all L W (PDict [(''type'', PStr ''task-finished''), (''id'', PStr (t_id t))])))"

text \<open>\<^verbatim>\<open>Root.get_daemon_statistics\<close>; the memory in use is an input.\<close>

definition daemon_statistics :: "int \<Rightarrow> pyval" where
  "daemon_statistics maxrss = PDict [(''type'', PStr ''daemon-statistics''), (''memory-used'', PInt maxrss)]"

definition send_daemon_statistic :: "'s lens \<Rightarrow> sockets \<Rightarrow> int \<Rightarrow> ('s, unit) prog" where
  "send_daemon_statistic L W maxrss = send_all L W (daemon_statistics maxrss)"

section \<open>A client\<close>

datatype ws_msg = WsClose | WsData | WsGone  \<comment> \<open>\<open>WsGone\<close>: \<^verbatim>\<open>receive\<close> raises \<^verbatim>\<open>ClientDisconnectedError\<close>\<close>

definition sender :: "'s lens \<Rightarrow> ('s, ptask) prog" where
  "sender L = bnd (get_st L) (\<lambda>st. case stats_sender st of None \<Rightarrow> raise AttributeError | Some p \<Rightarrow> ret p)"

text \<open>Up to the greeting: the client is told of the tasks of the root and of the finished ones.\<close>

definition ws_greet :: "'x io_scheme lens \<Rightarrow> sockets \<Rightarrow> env \<Rightarrow> task list \<Rightarrow> nat \<Rightarrow> ('x io_scheme, unit) prog" where
  "ws_greet L W E tasks c =
     bnd (mapM (task_to_dict E) tasks) (\<lambda>ts.
     bnd (get_st L) (\<lambda>st.
     send_str L W c (PDict [(''type'', PStr ''all-tasks''), (''tasks'', PList (ts @ finished st))])))"

fun ws_receive :: "ws_msg list \<Rightarrow> ('s, unit) prog" where
  "ws_receive [] = block"
| "ws_receive (WsClose # ms) = ret ()"
| "ws_receive (WsGone # ms) = raise (ForeignError ''ClientDisconnectedError'')"
| "ws_receive (WsData # ms) = ws_receive ms"

definition ws_enter :: "'s lens \<Rightarrow> nat \<Rightarrow> ('s, unit) prog" where
  "ws_enter L c =
     bnd (upd_st L (\<lambda>st. st\<lparr>clients := clients st @ [c]\<rparr>)) (\<lambda>_.
     bnd (sender L) (\<lambda>p.
     if \<not> active p then upd_st L (\<lambda>st. st\<lparr>stats_sender := Some (pt_start p)\<rparr>) else ret ()))"

definition ws_leave :: "'s lens \<Rightarrow> nat \<Rightarrow> ('s, unit) prog" where
  "ws_leave L c =
     bnd (get_st L) (\<lambda>st. if c \<notin> set (clients st) then raise (ValueError ''list.remove(x): x not in list'') else
     bnd (upd_st L (\<lambda>st. st\<lparr>clients := remove1 c (clients st)\<rparr>)) (\<lambda>_.
     bnd (get_st L) (\<lambda>st.
     bnd (sender L) (\<lambda>p.
     if clients st = [] \<and> active p then upd_st L (\<lambda>st. st\<lparr>stats_sender := Some (pt_stop p)\<rparr>) else ret ()))))"

definition ws :: "'x io_scheme lens \<Rightarrow> sockets \<Rightarrow> env \<Rightarrow> task list \<Rightarrow> nat \<Rightarrow> ws_msg list \<Rightarrow> ('x io_scheme, unit) prog" where
  "ws L W E tasks c ms =
     bnd (ws_enter L c) (\<lambda>_.
     bnd (catch (bnd (ws_greet L W E tasks c) (\<lambda>_. ws_receive ms))
            (\<lambda>e. if e = ForeignError ''ClientDisconnectedError'' then ret () else raise e)) (\<lambda>_.
     ws_leave L c))"

section \<open>Start and end of the service\<close>

text \<open>\<^verbatim>\<open>run\<close> up to the creation of the server, which belongs to the event loop; it returns the address to listen at.\<close>

fun listen_pair :: "pyval \<Rightarrow> (pyval \<times> pyval) result" where
  "listen_pair (PList [a, p]) = Inr (a, p)"
| "listen_pair (PList xs) = Inl (ValueError ''unpack'')"
| "listen_pair (PStr [a, b]) = Inr (PStr [a], PStr [b])"
| "listen_pair (PStr w) = Inl (ValueError ''unpack'')"
| "listen_pair (PDict [(a, x), (b, y)]) = Inr (PStr a, PStr b)"
| "listen_pair (PDict d) = Inl (ValueError ''unpack'')"
| "listen_pair v = Inl TypeError"

definition status_run :: "'s lens \<Rightarrow> pyval \<Rightarrow> ('s, pyval \<times> pyval) prog" where
  "status_run L config =
     bnd (liftR (getdef config ''stats-interval'' (PInt 60))) (\<lambda>i.
     bnd (upd_st L (\<lambda>st. st\<lparr>stats_sender := Some (ptask_new i), start_hooks := start_hooks st @ [''_task_started_cb''],
        end_hooks := end_hooks st @ [''_task_finished_cb''], update_hooks := update_hooks st @ [''_job_status_cb'']\<rparr>)) (\<lambda>_.
     liftR (bindR (getdef config ''listen'' (PList [PStr ''localhost'', PInt 8080])) listen_pair)))"

definition list_remove :: "'a \<Rightarrow> 'a list \<Rightarrow> 'a list result" where
  "list_remove x xs = (if x \<in> set xs then Inr (remove1 x xs) else Inl (ValueError ''list.remove(x): x not in list''))"

text \<open>\<^verbatim>\<open>cleanup\<close>: the closing of the sockets and of the server belongs to aiohttp.\<close>

definition status_cleanup :: "'s lens \<Rightarrow> ('s, unit) prog" where
  "status_cleanup L =
     bnd (sender L) (\<lambda>p.
     bnd (upd_st L (\<lambda>st. st\<lparr>stats_sender := Some (pt_stop p)\<rparr>)) (\<lambda>_.
     bnd (get_st L) (\<lambda>st.
     bnd (liftR (list_remove ''_task_started_cb'' (start_hooks st))) (\<lambda>xs.
     bnd (upd_st L (\<lambda>st. st\<lparr>start_hooks := xs\<rparr>)) (\<lambda>_.
     bnd (liftR (list_remove ''_task_finished_cb'' (end_hooks st))) (\<lambda>ys.
     bnd (upd_st L (\<lambda>st. st\<lparr>end_hooks := ys\<rparr>)) (\<lambda>_.
     bnd (liftR (list_remove ''_job_status_cb'' (update_hooks st))) (\<lambda>zs.
     upd_st L (\<lambda>st. st\<lparr>update_hooks := zs\<rparr>)))))))))"

section \<open>The status inside a larger state\<close>

text \<open>What the operations rely on: the record is read back as it was written, and the trace is another part of the state.\<close>

locale status_lens =
  fixes L :: "'x io_scheme lens"
  assumes get_put: "fst L (snd L f s) = f (fst L s)"
    and put_trace: "trace (snd L f s) = trace s"
    and get_trace: "fst L (s\<lparr>trace := x\<rparr>) = fst L s"
begin

lemma status_emits: "emits P m \<Longrightarrow> keeps (fst L) m"
  by (rule emits_keeps_view) (simp_all add: get_trace)

lemma send_str_result:
  assumes "send_str L W c data s = Some (r, t)"
  shows "(\<exists>e. W (fst L s) c data = Some e \<and> r = Inl e \<and> t = s) \<or>
    (W (fst L s) c data = None \<and> r = Inr () \<and> t = snd L (\<lambda>st. st\<lparr>sent := sent st @ [(c, data)]\<rparr>) s)"
  using assms by (auto simp: send_str_def split: option.splits)

lemma send_list:
  assumes "\<And>st c d. W st c d = w c" and "forM cs (\<lambda>c. send_str L W c data) s = Some (r, t)"
  shows "fst L t = (fst L s)\<lparr>sent := sent (fst L s) @ map (\<lambda>c. (c, data)) (takeWhile (\<lambda>c. w c = None) cs)\<rparr> \<and>
    (r = Inr () \<longleftrightarrow> (\<forall>c \<in> set cs. w c = None))"
  using assms(2)
proof (induction cs arbitrary: s)
  case (Cons c cs)
  from Cons.prems [unfolded forM.simps] show ?case
  proof (cases rule: bnd_SomeE)
    case (raised e)
    with send_str_result [OF raised(1)] assms(1) show ?thesis by auto
  next
    case (returned a u)
    from send_str_result [OF returned(1)] assms(1) have u: "w c = None" "fst L u = (fst L s)\<lparr>sent := sent (fst L s) @ [(c, data)]\<rparr>"
      by (auto simp: get_put)
    from Cons.IH [OF returned(2)] u show ?thesis by simp
  qed
qed simp

lemma returns_send_all [total_intro]: "returns (send_all L W data)"
  unfolding send_all_def send_str_def by (intro total_intro)

lemma keeps_send_all:
  assumes "\<And>f s. g (snd L f s) = g s"
  shows "keeps g (send_all L W data)"
  unfolding send_all_def send_str_def by (intro keeps_intro assms)

lemma keeps_send_str: "(\<And>st x. h (st\<lparr>sent := x\<rparr>) = h st) \<Longrightarrow> keeps (\<lambda>s. h (fst L s)) (send_str L W c data)"
  unfolding send_str_def by (intro keeps_intro) (simp add: get_put)

end

lemma returns_job_to_dict [total_intro]: "returns (job_to_dict E j)"
  unfolding job_to_dict_def by (intro total_intro)

lemma returns_task_to_dict [total_intro]: "returns (task_to_dict E t)"
  unfolding task_to_dict_def by (intro total_intro)

lemma emits_job_to_dict [io_frame]: "emits (\<lambda>_. True) (job_to_dict E j)"
  unfolding job_to_dict_def by (intro io_frame) simp

lemma emits_task_to_dict [io_frame]: "emits (\<lambda>_. True) (task_to_dict E t)"
  unfolding task_to_dict_def by (intro io_frame)

record jsst = jst +
  js_status :: status

record gsst = gst +
  gs_status :: status

definition jlens :: "'z jsst_scheme lens" where
  "jlens = (js_status, js_status_update)"

definition glens :: "'z gsst_scheme lens" where
  "glens = (gs_status, gs_status_update)"

interpretation job_status: status_lens jlens
  by unfold_locales (simp_all add: jlens_def)

interpretation stream_status: status_lens glens
  by unfold_locales (simp_all add: glens_def)

section \<open>The handlers keep their contracts\<close>

interpretation page: job_handlers "[job_status_cb jlens W E]" for W E
proof unfold_locales
  fix cb and j :: job
  assume "cb \<in> set [job_status_cb jlens W E]"
  then have cb: "cb = job_status_cb jlens W E" by simp
  have "keeps jall (job_to_dict E j)" by (rule emits_keeps_view [OF emits_job_to_dict]) (simp add: jall_def)
  then show "keeps jall (cb j)"
    unfolding cb job_status_cb_def by (intro keeps_intro job_status.keeps_send_all) (simp_all add: jall_def jlens_def)
  show "returns (cb j)" unfolding cb job_status_cb_def by (intro total_intro job_status.returns_send_all)
qed

interpretation page_tasks: task_handlers "[task_started_cb glens W E]" for W E
proof unfold_locales
  fix cb and t :: task
  assume "cb \<in> set [task_started_cb glens W E]"
  then have cb: "cb = task_started_cb glens W E" by simp
  have "keeps gview (send_all glens W d)" for d
    by (rule stream_status.keeps_send_all) (simp add: gview_def glens_def)
  then show "keeps gview (cb t)"
    unfolding cb task_started_cb_def by (intro keeps_intro gview_emits [OF emits_task_to_dict])
qed

interpretation page_ends: task_handlers "[task_finished_cb glens W E]" for W E
proof unfold_locales
  fix cb and t :: task
  assume "cb \<in> set [task_finished_cb glens W E]"
  then have cb: "cb = task_finished_cb glens W E" by simp
  have "keeps gview (send_all glens W d)" for d
    by (rule stream_status.keeps_send_all) (simp add: gview_def glens_def)
  then show "keeps gview (cb t)"
    unfolding cb task_finished_cb_def by (intro keeps_intro gview_emits [OF emits_task_to_dict]) (simp_all add: gview_def glens_def)
qed

section \<open>What the clients see\<close>

definition demo_status :: status where
  "demo_status = \<lparr>clients = [7, 8], finished = [], sent = [], stats_sender = Some (ptask_new (PInt 60)),
     start_hooks = [], end_hooks = [], update_hooks = []\<rparr>"

definition demo_gsst :: gsst where
  "demo_gsst = gst.extend demo_gst (gsst.fields demo_status)"

text \<open>A message is sent to the clients in the order they came, each gets it once, up to the first one whose socket fails; only
  when no socket fails does the call return, and nothing else of the service changes.\<close>

theorem send_all_delivery:
  fixes s :: "'z gsst_scheme"
  assumes "\<And>st c d. W st c d = w c" and "send_all glens W data s = Some (r, t)"
  shows "gs_status t = (gs_status s)\<lparr>sent := sent (gs_status s) @ map (\<lambda>c. (c, data)) (takeWhile (\<lambda>c. w c = None) (clients (gs_status s)))\<rparr> \<and>
    (r = Inr () \<longleftrightarrow> (\<forall>c \<in> set (clients (gs_status s)). w c = None))"
proof -
  have "forM (clients (gs_status s)) (\<lambda>c. send_str glens W c data) s = Some (r, t)"
    using assms(2) by (simp add: send_all_def glens_def)
  from stream_status.send_list [OF assms(1) this] show ?thesis by (simp add: glens_def)
qed

theorem send_all_delivery_witness:
  "\<exists>r t. send_all glens (\<lambda>st c d. if c = 8 then Some RuntimeError else None) (PInt 1) demo_gsst = Some (r, t) \<and>
     sent (gs_status t) = [(7, PInt 1)] \<and> r \<noteq> Inr ()"
proof -
  obtain r t where t: "send_all glens (\<lambda>st c d. if c = 8 then Some RuntimeError else None) (PInt 1) demo_gsst = Some (r, t)"
    using stream_status.returns_send_all by (rule totalE)
  have "gs_status demo_gsst = demo_status" by (simp add: demo_gsst_def gsst.defs gst.defs)
  then show ?thesis using send_all_delivery [OF _ t, of "\<lambda>c. if c = 8 then Some RuntimeError else None"] t
    by (auto simp: demo_status_def)
qed

lemma deque_last: "deque_append n (drop (length xs - n) xs) x = drop (Suc (length xs) - n) (xs @ [x])"
proof (cases "length xs \<le> n")
  case False
  then have "Suc (length (drop (length xs - n) xs)) - n = 1" by simp
  with False show ?thesis by (simp add: deque_append_def Suc_diff_le)
qed (simp add: deque_append_def)

text \<open>The bounded queue of the finished tasks holds exactly the last ones, at most as many as its length, in the order they
  finished.\<close>

theorem finished_last: "foldl (deque_append n) [] ds = drop (length ds - n) ds"
  by (induction ds rule: rev_induct) (simp_all add: deque_last)

section \<open>Clients come and go\<close>

definition members :: "status \<Rightarrow> nat list \<times> ptask option" where
  "members st = (clients st, stats_sender st)"

lemma keeps_ws_receive: "keeps g (ws_receive ms)"
  by (induction ms rule: ws_receive.induct) (simp_all only: ws_receive.simps keeps_atomic)

lemma keeps_ws_body: "keeps (\<lambda>s :: 'z gsst_scheme. members (fst glens s)) (bnd (ws_greet glens W E tasks c) (\<lambda>_. ws_receive ms))"
proof -
  have "keeps (\<lambda>s :: 'z gsst_scheme. members (fst glens s)) (task_to_dict E t)" for t
    by (rule keeps_comp [OF stream_status.status_emits [OF emits_task_to_dict]])
  then show ?thesis
    unfolding ws_greet_def by (intro keeps_intro keeps_ws_receive stream_status.keeps_send_str) (simp_all add: members_def)
qed

text \<open>C33: when the handler of a web socket returns, its client is taken off the list again; when it is left by any other error
  than a disconnection, the client stays registered and will be sent to forever.\<close>

theorem ws_clients:
  fixes s :: "'z gsst_scheme"
  assumes "ws glens W E tasks c ms s = Some (r, t)" and "c \<notin> set (clients (gs_status s))" and "stats_sender (gs_status s) = Some p"
  shows "clients (gs_status t) = (if r = Inr () then clients (gs_status s) else clients (gs_status s) @ [c])"
proof -
  let ?body = "catch (bnd (ws_greet glens W E tasks c) (\<lambda>_. ws_receive ms))
    (\<lambda>e. if e = ForeignError ''ClientDisconnectedError'' then ret () else raise e)"
  let ?p = "if active p then p else pt_start p"
  define s1 where "s1 = s\<lparr>gs_status := (gs_status s)\<lparr>clients := clients (gs_status s) @ [c], stats_sender := Some ?p\<rparr>\<rparr>"
  have enter: "ws_enter glens c s = Some (Inr (), s1)"
    using assms(3) by (cases s) (simp add: ws_enter_def sender_def glens_def s1_def bnd_def)
  have kept: "keeps (\<lambda>s :: 'z gsst_scheme. members (fst glens s)) ?body" by (intro keeps_intro keeps_ws_body)
  from assms(1) have "bnd ?body (\<lambda>_. ws_leave glens c) s1 = Some (r, t)" using enter by (simp add: ws_def bnd_run)
  then show ?thesis
  proof (cases rule: bnd_SomeE)
    case (raised e)
    from keepsD [OF kept raised(1)] raised(2) show ?thesis by (simp add: members_def glens_def s1_def)
  next
    case (returned a u)
    from keepsD [OF kept returned(1)] have "clients (gs_status u) = clients (gs_status s) @ [c]" "stats_sender (gs_status u) = Some ?p"
      by (simp_all add: members_def glens_def s1_def)
    with returned(2) assms(2) show ?thesis
      by (auto simp: ws_leave_def sender_def glens_def bnd_def remove1_append split: if_splits)
  qed
qed

theorem ws_clients_witness:
  "\<exists>t. ws glens (\<lambda>st c d. None) (demo_env []) [] 9 [WsData, WsClose] demo_gsst = Some (Inr (), t) \<and> clients (gs_status t) = [7, 8]"
proof -
  have st: "gs_status demo_gsst = demo_status" by (simp add: demo_gsst_def gsst.defs gst.defs)
  have "map_option fst (ws glens (\<lambda>st c d. None) (demo_env []) [] 9 [WsData, WsClose] demo_gsst) = Some (Inr ())" by code_simp
  then obtain t where t: "ws glens (\<lambda>st c d. None) (demo_env []) [] 9 [WsData, WsClose] demo_gsst = Some (Inr (), t)" by auto
  with ws_clients [OF t] show ?thesis by (auto simp: st demo_status_def)
qed

section \<open>The statistics are not periodic\<close>

text \<open>The event loop calls a pending timer: \<open>True\<close> when that calls the method.\<close>

definition fire :: "nat \<Rightarrow> ptask \<Rightarrow> bool \<times> ptask" where
  "fire n p = (let q = p\<lparr>timers := filter (\<lambda>(m, k). m \<noteq> n) (timers p)\<rparr> in
     case map_of (timers p) n of None \<Rightarrow> (False, p) | Some TRun \<Rightarrow> (False, pt_run q) | Some TMethod \<Rightarrow> (True, q))"

datatype pt_op = PStart | PStop | PFire nat

text \<open>A run of the periodic task: how often it was started, and how often its method was called.\<close>

fun pt_exec :: "pt_op list \<Rightarrow> ptask \<Rightarrow> nat \<Rightarrow> nat \<Rightarrow> ptask \<times> nat \<times> nat" where
  "pt_exec [] p starts calls = (p, starts, calls)"
| "pt_exec (PStart # ops) p starts calls = pt_exec ops (pt_start p) (Suc starts) calls"
| "pt_exec (PStop # ops) p starts calls = pt_exec ops (pt_stop p) starts calls"
| "pt_exec (PFire n # ops) p starts calls =
     (let (called, q) = fire n p in pt_exec ops q starts (if called then Suc calls else calls))"

definition pt_inv :: "ptask \<Rightarrow> bool" where
  "pt_inv p \<longleftrightarrow> \<not> active p \<and> distinct (map fst (timers p)) \<and> (\<forall>n \<in> fst ` set (timers p). n < next_timer p)"

lemma call_later_inv: "pt_inv p \<Longrightarrow> pt_inv (call_later k p) \<and> length (timers (call_later k p)) = Suc (length (timers p))"
  by (auto simp: pt_inv_def call_later_def)

lemma distinct_map_filter: "distinct (map f xs) \<Longrightarrow> distinct (map f (filter P xs))"
  by (induction xs) auto

lemma pt_stop_inv: "pt_inv p \<Longrightarrow> pt_inv (pt_stop p) \<and> length (timers (pt_stop p)) \<le> length (timers p)"
  by (auto simp: pt_inv_def pt_stop_def distinct_map_filter split: option.splits)

lemma filter_timer:
  "distinct (map fst xs) \<Longrightarrow> map_of xs n = Some k \<Longrightarrow> Suc (length (filter (\<lambda>(m, k). m \<noteq> n) xs)) = length xs"
proof (induction xs)
  case (Cons x xs)
  obtain m j where x: "x = (m, j)" by (cases x)
  show ?case
  proof (cases "m = n")
    case True
    with Cons.prems x have "filter (\<lambda>(m, k). m \<noteq> n) xs = xs" by (force simp: filter_id_conv)
    with True x show ?thesis by simp
  qed (use Cons x in auto)
qed simp

lemma fire_inv:
  assumes "pt_inv p" and "fire n p = (called, q)"
  shows "pt_inv q \<and> length (timers q) + (if called then 1 else 0) = length (timers p)"
proof (cases "map_of (timers p) n")
  case None
  with assms show ?thesis by (auto simp: fire_def Let_def)
next
  case (Some k)
  let ?q = "p\<lparr>timers := filter (\<lambda>(m, k). m \<noteq> n) (timers p)\<rparr>"
  have "pt_inv ?q" using assms(1) by (auto simp: pt_inv_def distinct_map_filter)
  moreover have "Suc (length (timers ?q)) = length (timers p)"
    using filter_timer [OF _ Some] assms(1) by (simp add: pt_inv_def)
  ultimately show ?thesis
    using assms(2) Some call_later_inv [of ?q TMethod] by (cases k) (auto simp: fire_def Let_def pt_run_def)
qed

lemma pt_exec_count:
  assumes "pt_inv p" and "pt_exec ops p starts calls = (q, starts', calls')" and "calls + length (timers p) \<le> starts"
  shows "pt_inv q \<and> calls' + length (timers q) \<le> starts' \<and>
    (PStop \<notin> set ops \<longrightarrow> calls + length (timers p) = starts \<longrightarrow> calls' + length (timers q) = starts')"
  using assms
proof (induction ops p starts calls rule: pt_exec.induct)
  case (2 ops p starts calls)
  then show ?case using call_later_inv [of p TRun] by (simp add: pt_start_def)
next
  case (3 ops p starts calls)
  then show ?case using pt_stop_inv [of p] by simp
next
  case (4 n ops p starts calls)
  obtain called r where f: "fire n p = (called, r)" by (cases "fire n p")
  from fire_inv [OF 4(2) f] 4(1) [OF f [symmetric]] 4(3,4) f show ?case by (cases called) auto
qed simp

text \<open>C34: the statistics sender is never active and never periodic: however often it is started and stopped and whichever
  timers fire, its method is called at most once for each start, and exactly once when it is not stopped and no timer is pending.\<close>

theorem stats_sent_once_per_start:
  assumes "pt_exec ops (ptask_new i) 0 0 = (p, starts, calls)"
  shows "\<not> active p \<and> calls \<le> starts \<and> (PStop \<notin> set ops \<and> timers p = [] \<longrightarrow> calls = starts)"
proof -
  have "pt_inv (ptask_new i)" by (simp add: pt_inv_def ptask_new_def)
  moreover have "timers (ptask_new i) = []" by (simp add: ptask_new_def)
  ultimately show ?thesis using pt_exec_count [OF _ assms] by (auto simp: pt_inv_def)
qed

theorem stats_sent_once_per_start_witness:
  "\<exists>p. pt_exec [PStart, PFire 0, PFire 1, PFire 2, PFire 3] (ptask_new (PInt 60)) 0 0 = (p, 1, 1) \<and> \<not> active p"
proof -
  let ?ops = "[PStart, PFire 0, PFire 1, PFire 2, PFire 3]"
  obtain p starts calls where p: "pt_exec ?ops (ptask_new (PInt 60)) 0 0 = (p, starts, calls)" by (metis prod_cases3)
  moreover have "fst (snd (pt_exec ?ops (ptask_new (PInt 60)) 0 0)) = 1 \<and> timers (fst (pt_exec ?ops (ptask_new (PInt 60)) 0 0)) = []" by code_simp
  ultimately show ?thesis using stats_sent_once_per_start [OF p] by simp
qed

section \<open>Registration\<close>

text \<open>The cleanup of the service takes back exactly the handlers its \<^verbatim>\<open>run\<close> registered: the handler lists of the root are as
  they were before, and no other handler is lost.\<close>

theorem hooks_roundtrip:
  fixes s :: "'z gsst_scheme"
  assumes "status_run glens config s = Some (Inr addr, t)"
    and "''_task_started_cb'' \<notin> set (start_hooks (gs_status s))" and "''_task_finished_cb'' \<notin> set (end_hooks (gs_status s))"
    and "''_job_status_cb'' \<notin> set (update_hooks (gs_status s))"
  shows "\<exists>u. status_cleanup glens t = Some (Inr (), u) \<and> start_hooks (gs_status u) = start_hooks (gs_status s) \<and>
    end_hooks (gs_status u) = end_hooks (gs_status s) \<and> update_hooks (gs_status u) = update_hooks (gs_status s)"
proof -
  from assms(1) obtain i where "gs_status t = (gs_status s)\<lparr>stats_sender := Some (ptask_new i),
      start_hooks := start_hooks (gs_status s) @ [''_task_started_cb''],
      end_hooks := end_hooks (gs_status s) @ [''_task_finished_cb''], update_hooks := update_hooks (gs_status s) @ [''_job_status_cb'']\<rparr>"
    by (auto simp: status_run_def glens_def liftR_def elim!: bnd_InrE)
  then show ?thesis
    using assms(2-4) by (simp add: status_cleanup_def sender_def glens_def bnd_def list_remove_def remove1_append)
qed

theorem hooks_roundtrip_witness:
  "\<exists>t u. status_run glens (PDict []) demo_gsst = Some (Inr (PStr ''localhost'', PInt 8080), t) \<and> status_cleanup glens t = Some (Inr (), u) \<and>
     start_hooks (gs_status u) = [] \<and> end_hooks (gs_status u) = [] \<and> update_hooks (gs_status u) = []"
proof -
  have st: "gs_status demo_gsst = demo_status" by (simp add: demo_gsst_def gsst.defs gst.defs)
  obtain t where t: "status_run glens (PDict []) demo_gsst = Some (Inr (PStr ''localhost'', PInt 8080), t)"
    by (simp add: status_run_def liftR_def glens_def bnd_def)
  from hooks_roundtrip [OF t] show ?thesis using t by (auto simp: st demo_status_def)
qed

end
