(* ===== verification/Web.thy ===== *)
theory Web
  imports Status
begin

text \<open>
  The HTTP servers: \<^verbatim>\<open>MetadataServer.start\<close> and \<^verbatim>\<open>stop\<close> of \<^verbatim>\<open>rallyci/providers/virsh.py\<close> with \<^verbatim>\<open>Provider.stop\<close>, and the parts of
  \<^verbatim>\<open>rallyci/services/status.py\<close> that start the page, serve it, and close the web sockets and the server at the end. The server itself
  belongs to aiohttp: a record says which of its objects a service holds, and parameters say which calls raise.
\<close>

section \<open>A server\<close>

text \<open>The attributes \<^verbatim>\<open>app\<close>, \<^verbatim>\<open>handler\<close> and \<^verbatim>\<open>srv\<close> of a service, if they are set, and whether the socket is open.\<close>

record http =
  h_app :: "(string \<times> string) list option"   \<comment> \<open>the routes: the path and the method that serves it\<close>
  h_handler :: bool
  h_srv :: "(pyval \<times> pyval) option"           \<comment> \<open>the address and the port of the server\<close>
  h_open :: bool

definition no_server :: http where
  "no_server = \<lparr>h_app = None, h_handler = False, h_srv = None, h_open = False\<rparr>"

type_synonym ports = "pyval \<Rightarrow> pyval \<Rightarrow> exn option"

text \<open>\<^verbatim>\<open>self.srv = yield from self.loop.create_server(self.handler, addr, port)\<close>: the parameter says whether the address can be bound.\<close>

definition create_server :: "ports \<Rightarrow> pyval \<Rightarrow> pyval \<Rightarrow> http \<Rightarrow> unit result \<times> http" where
  "create_server bind a p sv = (case bind a p of
     Some e \<Rightarrow> (Inl e, sv)
   | None \<Rightarrow> (Inr (), sv\<lparr>h_srv := Some (a, p), h_open := True\<rparr>))"

text \<open>The four calls that end a server; the parameter is what \<^verbatim>\<open>finish_connections\<close> raises, if anything.\<close>

definition finish_server :: "exn option \<Rightarrow> http \<Rightarrow> unit result \<times> http" where
  "finish_server fin sv =
     (if \<not> h_handler sv then (Inl AttributeError, sv)
      else (case fin of
          Some e \<Rightarrow> (Inl e, sv)
        | None \<Rightarrow> if h_srv sv = None then (Inl AttributeError, sv) else (Inr (), sv\<lparr>h_open := False\<rparr>)))"

section \<open>The metadata server\<close>

definition mds_routes :: "(string \<times> string) list" where
  "mds_routes = [(''/openstack/{version:.*}/meta_data.json'', ''meta_data''), (''/openstack/{version:.*}/user_data'', ''user_data'')]"

definition mds_start :: "ports \<Rightarrow> pyval \<Rightarrow> http \<Rightarrow> unit result \<times> http" where
  "mds_start bind config sv =
     (let sv1 = sv\<lparr>h_app := Some mds_routes, h_handler := True\<rparr> in
      case listen_address config of Inl e \<Rightarrow> (Inl e, sv1) | Inr (a, p) \<Rightarrow> create_server bind a p sv1)"

definition mds_stop :: "exn option \<Rightarrow> http \<Rightarrow> unit result \<times> http" where
  "mds_stop = finish_server"

text \<open>\<^verbatim>\<open>Provider.start\<close> schedules the start of the metadata server; \<^verbatim>\<open>Provider.stop\<close> cancels it and then iterates over the boolean that
  \<^verbatim>\<open>cancel\<close> returns.\<close>

datatype mds_future = Unset | Pending | Ended | Cancelled

definition provider_mds :: "pyval \<Rightarrow> (pyval \<times> mds_future) result" where
  "provider_mds config = bindR (getdef config ''metadata_server'' (PDict [])) (\<lambda>c. Inr (c, Pending))"

definition provider_stop :: "mds_future \<Rightarrow> unit result \<times> mds_future" where
  "provider_stop f = (case f of Unset \<Rightarrow> (Inl AttributeError, f) | Pending \<Rightarrow> (Inl TypeError, Cancelled) | _ \<Rightarrow> (Inl TypeError, f))"

lemma provider_stop_raises: "\<exists>e f'. provider_stop f = (Inl e, f') \<and> (f = Ended \<longrightarrow> f' = Ended)"
  by (cases f) (auto simp: provider_stop_def)

lemma mds_start_listens:
  assumes "mds_start bind config no_server = (Inr (), sv)"
  shows "\<exists>a p. listen_address config = Inr (a, p) \<and> bind a p = None \<and> h_srv sv = Some (a, p) \<and> h_open sv"
  using assms by (auto simp: mds_start_def create_server_def Let_def split: sum.splits option.splits prod.splits)

lemma mds_stop_closes:
  assumes "mds_start bind config no_server = (Inr (), sv)"
  shows "\<exists>sv'. mds_stop None sv = (Inr (), sv') \<and> \<not> h_open sv'"
  using assms by (auto simp: mds_start_def mds_stop_def create_server_def finish_server_def Let_def no_server_def
      split: sum.splits option.splits prod.splits)

section \<open>The status page\<close>

definition status_routes :: "(string \<times> string) list" where
  "status_routes = [(''/'', ''index''), (''/ws/'', ''ws'')]"

text \<open>\<^verbatim>\<open>index\<close>: the page is a file of the package.\<close>

definition index_page :: "string result \<Rightarrow> response result" where
  "index_page data = bindR data (\<lambda>text. Inr (Response 200 (Some (Raw text))))"

text \<open>\<^verbatim>\<open>run\<close> up to its last statement, which waits for an event that is never set.\<close>

definition page_run :: "'s lens \<Rightarrow> ('s \<Rightarrow> http) \<Rightarrow> (http \<Rightarrow> 's \<Rightarrow> 's) \<Rightarrow> ports \<Rightarrow> pyval \<Rightarrow> ('s, unit) prog" where
  "page_run L get put bind config =
     bnd (status_run L config) (\<lambda>(a, p).
     bnd (modify (\<lambda>s. put ((get s)\<lparr>h_app := Some status_routes, h_handler := True\<rparr>) s)) (\<lambda>_.
     (\<lambda>s. case create_server bind a p (get s) of (r, sv) \<Rightarrow> Some (r, put sv s))))"

text \<open>The loop over the clients at the end of the service. A list is iterated by index, and while a socket is being closed other
  coroutines run: \<open>close c\<close> is all that happens until \<^verbatim>\<open>c.close()\<close> returns.\<close>

partial_function (option) close_clients :: "('s \<Rightarrow> status) \<Rightarrow> (nat \<Rightarrow> ('s, unit) prog) \<Rightarrow> nat \<Rightarrow> ('s, unit) prog" where
  "close_clients get close i s =
     (if i < length (clients (get s)) then bnd (close (clients (get s) ! i)) (\<lambda>_. close_clients get close (Suc i)) s
      else Some (Inr (), s))"

definition page_cleanup :: "'s lens \<Rightarrow> ('s \<Rightarrow> http) \<Rightarrow> (http \<Rightarrow> 's \<Rightarrow> 's) \<Rightarrow> (nat \<Rightarrow> ('s, unit) prog) \<Rightarrow> exn option \<Rightarrow> ('s, unit) prog" where
  "page_cleanup L get put close fin =
     bnd (status_cleanup L) (\<lambda>_.
     bnd (close_clients (fst L) close 0) (\<lambda>_.
     (\<lambda>s. case finish_server fin (get s) of (r, sv) \<Rightarrow> Some (r, put sv s))))"

fun every_other :: "'a list \<Rightarrow> 'a list" where
  "every_other (x # y # xs) = x # every_other xs"
| "every_other xs = xs"

lemma bnd_cong_run: "(\<And>a u. m s = Some (Inr a, u) \<Longrightarrow> f a u = g a u) \<Longrightarrow> bnd m f s = bnd m g s"
  by (auto simp: bnd_def split: bind_splits sum.splits)

lemma close_clients_quiet:
  assumes "\<And>c s t. close c s = Some (Inr (), t) \<Longrightarrow> clients (get t) = clients (get s)"
  shows "close_clients get close i s = forM (drop i (clients (get s))) close s"
proof (induction "length (clients (get s)) - i" arbitrary: i s)
  case 0
  then show ?case by (simp add: close_clients.simps)
next
  case (Suc n)
  then have i: "i < length (clients (get s))" by simp
  have "close_clients get close (Suc i) t = forM (drop (Suc i) (clients (get s))) close t"
    if "close (clients (get s) ! i) s = Some (Inr (), t)" for t
    using Suc.hyps(1) [of t "Suc i"] Suc.hyps(2) assms [OF that] by simp
  then have "bnd (close (clients (get s) ! i)) (\<lambda>_. close_clients get close (Suc i)) s
      = bnd (close (clients (get s) ! i)) (\<lambda>_. forM (drop (Suc i) (clients (get s))) close) s"
    by (intro bnd_cong_run) simp
  with i show ?case by (simp add: close_clients.simps [of _ _ i] Cons_nth_drop_Suc [OF i, symmetric])
qed

lemma remove1_nth: "distinct xs \<Longrightarrow> i < length xs \<Longrightarrow> remove1 (xs ! i) xs = take i xs @ drop (Suc i) xs"
proof (induction xs arbitrary: i)
  case (Cons x xs)
  then show ?case by (cases i) (auto simp: nth_mem)
qed simp

lemma every_other_drop:
  assumes "i < length xs"
  shows "every_other (drop i xs) = xs ! i # every_other (drop (Suc (Suc i)) xs)"
proof (cases "Suc i < length xs")
  case True
  then show ?thesis using assms by (simp add: Cons_nth_drop_Suc [symmetric])
qed (use assms in \<open>simp add: Cons_nth_drop_Suc [symmetric]\<close>)

lemma close_clients_leaving:
  assumes leave: "\<And>c s t. close c s = Some (Inr (), t) \<Longrightarrow> clients (get t) = remove1 c (clients (get s))"
    and "distinct (clients (get s))"
  shows "close_clients get close i s = forM (every_other (drop i (clients (get s)))) close s"
  using assms(2)
proof (induction "length (clients (get s)) - i" arbitrary: i s rule: less_induct)
  case less
  let ?xs = "clients (get s)"
  show ?case
  proof (cases "i < length ?xs")
    case True
    have "close_clients get close (Suc i) t = forM (every_other (drop (Suc (Suc i)) ?xs)) close t"
      if "close (?xs ! i) s = Some (Inr (), t)" for t
    proof -
      have t: "clients (get t) = take i ?xs @ drop (Suc i) ?xs" using leave [OF that] remove1_nth [OF less.prems True] by simp
      have "distinct (clients (get t))" using leave [OF that] less.prems by simp
      with less.hyps [of t "Suc i"] True t show ?thesis by simp
    qed
    then have "bnd (close (?xs ! i)) (\<lambda>_. close_clients get close (Suc i)) s
        = bnd (close (?xs ! i)) (\<lambda>_. forM (every_other (drop (Suc (Suc i)) ?xs)) close) s"
      by (intro bnd_cong_run) simp
    with True show ?thesis by (simp add: close_clients.simps [of _ _ i] every_other_drop)
  qed (simp add: close_clients.simps)
qed

text \<open>C35: at the end of the service the list of the clients is walked while it may change. If nothing else happens during the closing of a socket, all
  clients are closed in order; but if the handler of a client that is being closed takes it off the list, as it does when it
  receives the close message, every second client is skipped.\<close>

theorem closing_skips_clients:
  fixes s :: "'z gsst_scheme"
  assumes "distinct (clients (gs_status s))"
    and "(\<forall>c s t. close c s = Some (Inr (), t) \<longrightarrow> clients (gs_status t) = (if leave then remove1 c (clients (gs_status s)) else clients (gs_status s)))"
  shows "close_clients gs_status close 0 s = forM (if leave then every_other (clients (gs_status s)) else clients (gs_status s)) close s"
proof (cases leave)
  case True
  then show ?thesis using close_clients_leaving [of close gs_status s 0] assms by simp
next
  case False
  then show ?thesis using close_clients_quiet [of close gs_status 0 s] assms by simp
qed

text \<open>A socket whose handler leaves as soon as it is closed, with a record of what was sent to whom.\<close>

definition closing :: "nat \<Rightarrow> (gsst, unit) prog" where
  "closing c = modify (\<lambda>s. s\<lparr>gs_status := (gs_status s)\<lparr>clients := remove1 c (clients (gs_status s)), sent := sent (gs_status s) @ [(c, PStr ''close'')]\<rparr>\<rparr>)"

definition busy_page :: gsst where
  "busy_page = demo_gsst\<lparr>gs_status := demo_status\<lparr>clients := [5, 6, 7]\<rparr>\<rparr>"

theorem closing_skips_clients_witness:
  "\<exists>t. close_clients gs_status closing 0 busy_page = Some (Inr (), t) \<and>
     sent (gs_status t) = [(5, PStr ''close''), (7, PStr ''close'')] \<and> clients (gs_status t) = [6]"
proof -
  have st: "clients (gs_status busy_page) = [5, 6, 7]" "sent (gs_status busy_page) = []" by (simp_all add: busy_page_def demo_status_def)
  have "close_clients gs_status closing 0 busy_page = forM (if True then every_other (clients (gs_status busy_page)) else clients (gs_status busy_page)) closing busy_page"
    by (rule closing_skips_clients) (auto simp: st closing_def)
  then show ?thesis by (simp add: st closing_def)
qed

end
