(* ===== verification/Root.thy ===== *)
theory Root
  imports Status
begin

text \<open>
  \<^verbatim>\<open>rallyci/root.py\<close> and \<^verbatim>\<open>Task.run\<close>: which coroutines are started, waited for, cancelled and cleaned up, on the part of the asyncio
  event loop they rely on. A future is a number. The loop has a queue of handles; a handle resumes a coroutine or
  calls a callback of a future that is done. Services, jobs and cleanups are opaque here: when one is resumed it either
  suspends again or ends, with a result or an exception that \<^verbatim>\<open>run_obj\<close> and \<^verbatim>\<open>run_cleanup\<close> log. Their bodies are
  the definitions of the other theories.
\<close>

section \<open>The event loop\<close>

datatype obj = Service nat | TaskObj nat nat | JobObj nat nat
  \<comment> \<open>\<open>TaskObj t n\<close>: the task \<open>t\<close> with \<open>n\<close> jobs; \<open>JobObj f i\<close>: the job \<open>i\<close> of the task with the future \<open>f\<close>\<close>

datatype coro = MainRun | RunObj obj | RunCleanup obj  \<comment> \<open>\<^verbatim>\<open>Root.run\<close>, \<^verbatim>\<open>Root.run_obj(obj)\<close>, \<^verbatim>\<open>Root.run_cleanup(obj)\<close>\<close>

text \<open>Where a coroutine is: not started, suspended in an opaque body, waiting for futures in \<^verbatim>\<open>Task.run\<close> (the flag: after it was
  cancelled), at one of the three suspension points of \<^verbatim>\<open>Root.run\<close>, or done.\<close>

datatype pc = Fresh | Busy | TaskWait nat "nat list" bool | MainStop | MainWait nat "nat list" | MainCleanups nat | Done

datatype callback = CbCleanup | CbPopTask | CbWake nat nat  \<comment> \<open>\<open>CbWake w i\<close>: the waiter \<open>i\<close> of the coroutine \<open>w\<close>\<close>

datatype handle = Step nat | Call callback nat

record loop =
  ready :: "handle list"
  next_id :: nat
  coro_of :: "nat \<Rightarrow> coro option"
  pcs :: "nat \<Rightarrow> pc"
  cbs :: "nat \<Rightarrow> callback list"
  cancel_req :: "nat \<Rightarrow> bool"
  waiting :: "nat \<Rightarrow> nat"              \<comment> \<open>how many completions a waiter still waits for; 0: it is done\<close>
  running :: "(nat \<times> obj) list"        \<comment> \<open>\<^verbatim>\<open>_running_objects\<close>\<close>
  cleanups :: "(nat \<times> nat) list"       \<comment> \<open>\<^verbatim>\<open>_running_cleanups\<close>, each with the future of its object\<close>
  root_tasks :: "(nat \<times> obj) list"     \<comment> \<open>\<^verbatim>\<open>Root.tasks\<close>\<close>
  services :: nat
  stopped :: bool
  lost :: "nat list"                  \<comment> \<open>futures for which \<^verbatim>\<open>schedule_cleanup\<close> raised \<^verbatim>\<open>KeyError\<close>\<close>

definition call_soon :: "handle \<Rightarrow> loop \<Rightarrow> loop" where
  "call_soon h L = L\<lparr>ready := ready L @ [h]\<rparr>"

text \<open>\<^verbatim>\<open>asyncio.async\<close>: the first step of the coroutine is scheduled.\<close>

definition create_future :: "coro \<Rightarrow> loop \<Rightarrow> nat \<times> loop" where
  "create_future c L = (next_id L, call_soon (Step (next_id L))
     (L\<lparr>next_id := Suc (next_id L), coro_of := (coro_of L)(next_id L \<mapsto> c), pcs := (pcs L)(next_id L := Fresh)\<rparr>))"

definition add_done_callback :: "nat \<Rightarrow> callback \<Rightarrow> loop \<Rightarrow> loop" where
  "add_done_callback f cb L = (if pcs L f = Done then call_soon (Call cb f) L else L\<lparr>cbs := (cbs L)(f := cbs L f @ [cb])\<rparr>)"

definition finish :: "nat \<Rightarrow> loop \<Rightarrow> loop" where
  "finish f L = L\<lparr>pcs := (pcs L)(f := Done), ready := ready L @ map (\<lambda>cb. Call cb f) (cbs L f), cbs := (cbs L)(f := [])\<rparr>"

text \<open>\<^verbatim>\<open>fut.cancel()\<close>: a coroutine that waits for futures is woken up, any other one is told when it is next resumed.\<close>

definition cancel_wait :: "nat \<Rightarrow> nat \<Rightarrow> loop \<Rightarrow> loop" where
  "cancel_wait f i L = (if waiting L i = 0 then L else call_soon (Step f) (L\<lparr>waiting := (waiting L)(i := 0)\<rparr>))"

definition cancel :: "nat \<Rightarrow> loop \<Rightarrow> loop" where
  "cancel f L = (case pcs L f of
     Done \<Rightarrow> L
   | TaskWait i fs b \<Rightarrow> cancel_wait f i (L\<lparr>cancel_req := (cancel_req L)(f := True)\<rparr>)
   | _ \<Rightarrow> L\<lparr>cancel_req := (cancel_req L)(f := True)\<rparr>)"

text \<open>\<^verbatim>\<open>asyncio.wait(fs)\<close> up to its suspension; \<open>n\<close> completions wake it up, one for \<^verbatim>\<open>FIRST_COMPLETED\<close>.\<close>

definition asyncio_wait :: "nat \<Rightarrow> nat list \<Rightarrow> nat \<Rightarrow> loop \<Rightarrow> nat \<times> loop" where
  "asyncio_wait w fs n L = (next_id L, fold (\<lambda>f. add_done_callback f (CbWake w (next_id L))) fs
     (L\<lparr>next_id := Suc (next_id L), waiting := (waiting L)(next_id L := n)\<rparr>))"

definition on_completion :: "nat \<Rightarrow> nat \<Rightarrow> loop \<Rightarrow> loop" where
  "on_completion w i L =
     (if waiting L i = 0 then L
      else (if waiting L i = 1 then call_soon (Step w) else id) (L\<lparr>waiting := (waiting L)(i := waiting L i - 1)\<rparr>))"

text \<open>When \<^verbatim>\<open>asyncio.wait\<close> is resumed it takes its callbacks back.\<close>

definition end_wait :: "nat \<Rightarrow> nat \<Rightarrow> loop \<Rightarrow> loop" where
  "end_wait w i L = L\<lparr>cbs := (\<lambda>f. filter (\<lambda>cb. cb \<noteq> CbWake w i) (cbs L f))\<rparr>"

section \<open>The root\<close>

definition start_obj :: "obj \<Rightarrow> loop \<Rightarrow> nat \<times> loop" where
  "start_obj ob L =
     (let (f, L1) = create_future (RunObj ob) L; L2 = add_done_callback f CbCleanup L1 in
      (f, L2\<lparr>running := running L2 @ [(f, ob)]\<rparr>))"

definition loop_start_task :: "obj \<Rightarrow> loop \<Rightarrow> loop" where
  "loop_start_task ob L =
     (let (f, L1) = start_obj ob L in
      add_done_callback f CbPopTask (L1\<lparr>root_tasks := root_tasks L1 @ [(f, ob)]\<rparr>))"

definition schedule_cleanup :: "nat \<Rightarrow> loop \<Rightarrow> loop" where
  "schedule_cleanup f L =
     (case map_of (running L) f of
        None \<Rightarrow> L\<lparr>lost := lost L @ [f]\<rparr>
      | Some ob \<Rightarrow>
          let (c, L1) = create_future (RunCleanup ob) (L\<lparr>running := filter (\<lambda>(g, x). g \<noteq> f) (running L)\<rparr>) in
          L1\<lparr>cleanups := cleanups L1 @ [(c, f)]\<rparr>)"

definition pop_task :: "nat \<Rightarrow> loop \<Rightarrow> loop" where
  "pop_task f L = L\<lparr>root_tasks := filter (\<lambda>(g, x). g \<noteq> f) (root_tasks L)\<rparr>"

fun start_services :: "nat list \<Rightarrow> loop \<Rightarrow> loop" where
  "start_services [] L = L"
| "start_services (i # is) L = start_services is (snd (start_obj (Service i) L))"

text \<open>\<^verbatim>\<open>Root.run\<close>: start, and after the stop event the cancellation, the two waits and the end.\<close>

definition main_begin :: "loop \<Rightarrow> loop" where
  "main_begin L = (start_services [0..<services L] L)\<lparr>pcs := (pcs (start_services [0..<services L] L))(0 := MainStop)\<rparr>"

definition main_cleanups :: "loop \<Rightarrow> loop" where
  "main_cleanups L =
     (if cleanups L = [] then L\<lparr>stopped := True, pcs := (pcs L)(0 := Done)\<rparr>
      else let (i, L1) = asyncio_wait 0 (map fst (cleanups L)) (length (cleanups L)) L in
        L1\<lparr>pcs := (pcs L1)(0 := MainCleanups i)\<rparr>)"

definition main_wait :: "loop \<Rightarrow> loop" where
  "main_wait L =
     (if running L = [] then main_cleanups L
      else let fs = map fst (running L); (i, L1) = asyncio_wait 0 fs 1 L in L1\<lparr>pcs := (pcs L1)(0 := MainWait i fs)\<rparr>)"

definition main_shutdown :: "loop \<Rightarrow> loop" where
  "main_shutdown L = main_wait (fold cancel (map fst (running L)) L)"

text \<open>One iteration of \<^verbatim>\<open>wait_fs(self._running_objects)\<close>: the futures that are done leave the table of running objects.\<close>

definition main_resume :: "nat \<Rightarrow> nat list \<Rightarrow> loop \<Rightarrow> loop" where
  "main_resume i fs L =
     (let L1 = end_wait 0 i L in
      main_wait (L1\<lparr>running := filter (\<lambda>(f, x). \<not> (f \<in> set fs \<and> pcs L1 f = Done)) (running L1)\<rparr>))"

definition main_stop :: "loop \<Rightarrow> loop" where
  "main_stop L = L\<lparr>stopped := True, pcs := (pcs L)(0 := Done)\<rparr>"

section \<open>Tasks\<close>

fun start_jobs :: "nat \<Rightarrow> nat list \<Rightarrow> loop \<Rightarrow> nat list \<times> loop" where
  "start_jobs f [] L = ([], L)"
| "start_jobs f (i # is) L = (let (g, L1) = start_obj (JobObj f i) L; (gs, L2) = start_jobs f is L1 in (g # gs, L2))"

text \<open>\<^verbatim>\<open>yield from self.root.wait_fs(fs)\<close>, and the end of the coroutine when nothing is left to wait for.\<close>

definition task_wait :: "nat \<Rightarrow> nat list \<Rightarrow> bool \<Rightarrow> loop \<Rightarrow> loop" where
  "task_wait f fs b L =
     (if fs = [] then finish f L
      else let (i, L1) = asyncio_wait f fs 1 L in L1\<lparr>pcs := (pcs L1)(f := TaskWait i fs b)\<rparr>)"

definition task_begin :: "nat \<Rightarrow> nat \<Rightarrow> loop \<Rightarrow> loop" where
  "task_begin f n L = (let (fs, L1) = start_jobs f [0..<n] L in task_wait f fs False L1)"

definition task_resume :: "nat \<Rightarrow> nat \<Rightarrow> nat list \<Rightarrow> bool \<Rightarrow> loop \<Rightarrow> loop" where
  "task_resume f i fs b L =
     (let L1 = end_wait f i L in
      if cancel_req L1 f then
        (let L2 = L1\<lparr>cancel_req := (cancel_req L1)(f := False)\<rparr> in
         if b then finish f L2 else task_wait f fs True (fold cancel fs L2))
      else task_wait f (filter (\<lambda>g. pcs L1 g \<noteq> Done) fs) b L1)"

section \<open>One step of the loop\<close>

definition body_step :: "bool \<Rightarrow> nat \<Rightarrow> loop \<Rightarrow> loop" where
  "body_step b f L = (if b then finish f L else L\<lparr>pcs := (pcs L)(f := Busy)\<rparr>)"

definition resume :: "bool \<Rightarrow> nat \<Rightarrow> loop \<Rightarrow> loop" where
  "resume b f L = (case coro_of L f of
     None \<Rightarrow> L
   | Some c \<Rightarrow> (case pcs L f of
       Done \<Rightarrow> L
     | Fresh \<Rightarrow> if c = MainRun then main_begin L
                else if cancel_req L f then finish f L
                else (case c of RunObj (TaskObj t n) \<Rightarrow> task_begin f n L | _ \<Rightarrow> body_step b f L)
     | Busy \<Rightarrow> body_step b f L
     | TaskWait i fs s \<Rightarrow> task_resume f i fs s L
     | MainStop \<Rightarrow> main_shutdown L
     | MainWait i fs \<Rightarrow> main_resume i fs L
     | MainCleanups i \<Rightarrow> main_stop L))"

fun run_handle :: "bool \<Rightarrow> handle \<Rightarrow> loop \<Rightarrow> loop" where
  "run_handle b (Step f) L = resume b f L"
| "run_handle b (Call CbCleanup f) L = schedule_cleanup f L"
| "run_handle b (Call CbPopTask f) L = pop_task f L"
| "run_handle b (Call (CbWake w i) f) L = on_completion w i L"

datatype loop_event =
    Turn bool             \<comment> \<open>the next handle runs; an opaque body ends if the flag is set\<close>
  | Io nat                \<comment> \<open>what an opaque body waits for has happened\<close>
  | NewTask nat nat nat   \<comment> \<open>the service with this future starts a task with so many jobs\<close>
  | StopEvent

definition apply_event :: "loop_event \<Rightarrow> loop \<Rightarrow> loop option" where
  "apply_event e L = (case e of
     Turn b \<Rightarrow> (case ready L of [] \<Rightarrow> None | h # hs \<Rightarrow> if stopped L then None else Some (run_handle b h (L\<lparr>ready := hs\<rparr>)))
   | Io f \<Rightarrow> if coro_of L f \<noteq> None \<and> pcs L f = Busy then Some (call_soon (Step f) L) else None
   | NewTask f t n \<Rightarrow> (case coro_of L f of
        Some (RunObj (Service i)) \<Rightarrow> if pcs L f = Busy then Some (loop_start_task (TaskObj t n) L) else None
      | _ \<Rightarrow> None)
   | StopEvent \<Rightarrow> if pcs L 0 = MainStop \<and> Step 0 \<notin> set (ready L) then Some (call_soon (Step 0) L) else None)"

inductive loop_step :: "loop \<Rightarrow> loop \<Rightarrow> bool" where
  loop_stepI: "apply_event e L = Some L' \<Longrightarrow> loop_step L L'"

text \<open>The loop before its first step: \<^verbatim>\<open>Root.run\<close> is the future 0.\<close>

definition loop_init :: "nat \<Rightarrow> loop" where
  "loop_init n = \<lparr>ready = [Step 0], next_id = 1, coro_of = [0 \<mapsto> MainRun], pcs = (\<lambda>_. Fresh), cbs = (\<lambda>_. []),
     cancel_req = (\<lambda>_. False), waiting = (\<lambda>_. 0), running = [], cleanups = [], root_tasks = [], services = n, stopped = False, lost = []\<rparr>"

fun apply_events :: "loop_event list \<Rightarrow> loop \<Rightarrow> loop option" where
  "apply_events [] L = Some L"
| "apply_events (e # es) L = Option.bind (apply_event e L) (apply_events es)"

section \<open>Counting the cleanups of an object\<close>

text \<open>How often \<^verbatim>\<open>schedule_cleanup\<close> will be called for a future, how often it has started a cleanup, and how often it has failed.\<close>

definition due :: "nat \<Rightarrow> loop \<Rightarrow> nat" where
  "due f L = count_list (cbs L f) CbCleanup + count_list (ready L) (Call CbCleanup f)"

definition cleaned :: "nat \<Rightarrow> loop \<Rightarrow> nat" where
  "cleaned f L = count_list (map snd (cleanups L)) f"

definition failed :: "nat \<Rightarrow> loop \<Rightarrow> nat" where
  "failed f L = count_list (lost L) f"

definition listed :: "nat \<Rightarrow> loop \<Rightarrow> nat" where
  "listed f L = count_list (map fst (running L)) f"

definition is_obj :: "nat \<Rightarrow> loop \<Rightarrow> bool" where
  "is_obj f L \<longleftrightarrow> (\<exists>ob. coro_of L f = Some (RunObj ob))"

definition counts :: "nat \<Rightarrow> loop \<Rightarrow> nat \<times> nat \<times> nat \<times> nat \<times> bool" where
  "counts f L = (due f L, cleaned f L, failed f L, listed f L, is_obj f L)"

text \<open>What no step but the start of an object, a cleanup and the shutdown changes.\<close>

definition ledger :: "loop \<Rightarrow> (nat \<Rightarrow> nat \<times> nat \<times> nat \<times> nat \<times> bool) \<times> nat list \<times> (nat \<Rightarrow> coro option)" where
  "ledger L = (\<lambda>f. counts f L, lost L, coro_of L)"

lemmas count_defs = due_def cleaned_def failed_def listed_def is_obj_def counts_def ledger_def

lemma ledger_call_soon [simp]: "ledger (call_soon (Step f) L) = ledger L"
  by (auto simp: count_defs call_soon_def fun_eq_iff)

lemma ledger_callback [simp]: "cb \<noteq> CbCleanup \<Longrightarrow> ledger (add_done_callback f cb L) = ledger L"
  by (auto simp: count_defs add_done_callback_def call_soon_def fun_eq_iff)

lemma count_map_Call: "count_list (map (\<lambda>cb. Call cb f) xs) (Call cb g) = (if f = g then count_list xs cb else 0)"
  by (induction xs) auto

lemma ledger_finish [simp]: "ledger (finish f L) = ledger L"
  by (auto simp: count_defs finish_def fun_eq_iff count_map_Call)

lemma ledger_updates [simp]:
  "ledger (L\<lparr>pcs := x\<rparr>) = ledger L" "ledger (L\<lparr>cancel_req := y\<rparr>) = ledger L" "ledger (L\<lparr>waiting := z\<rparr>) = ledger L"
  "ledger (L\<lparr>root_tasks := u\<rparr>) = ledger L" "ledger (L\<lparr>stopped := v\<rparr>) = ledger L" "ledger (L\<lparr>next_id := w\<rparr>) = ledger L"
  by (simp_all add: count_defs)

lemma ledger_cancel [simp]: "ledger (cancel f L) = ledger L"
  unfolding cancel_def cancel_wait_def by (auto split: pc.splits)

lemma ledger_fold: "(\<And>x L. ledger (g x L) = ledger L) \<Longrightarrow> ledger (fold g xs L) = ledger L"
  by (induction xs arbitrary: L) simp_all

lemma ledger_wait: "asyncio_wait w fs n L = (i, L1) \<Longrightarrow> ledger L1 = ledger L"
  unfolding asyncio_wait_def by (auto simp: ledger_fold)

lemma ledger_on_completion [simp]: "ledger (on_completion w i L) = ledger L"
  by (auto simp: on_completion_def)

lemma count_filter: "P x \<Longrightarrow> count_list (filter P xs) x = count_list xs x"
  by (induction xs) auto

lemma ledger_end_wait [simp]: "ledger (end_wait w i L) = ledger L"
  by (simp add: count_defs end_wait_def count_filter)

lemma ledger_task_wait [simp]: "ledger (task_wait f fs b L) = ledger L"
  by (auto dest: ledger_wait simp: task_wait_def split: prod.splits)

lemma ledger_task_resume [simp]: "ledger (task_resume f i fs b L) = ledger L"
  by (auto simp: task_resume_def Let_def ledger_fold)

lemma ledger_body [simp]: "ledger (body_step b f L) = ledger L"
  by (simp add: body_step_def)

lemma ledger_main_cleanups [simp]: "ledger (main_cleanups L) = ledger L"
  by (auto dest: ledger_wait simp: main_cleanups_def split: prod.splits)

lemma ledger_main_wait [simp]: "ledger (main_wait L) = ledger L"
  by (auto dest: ledger_wait simp: main_wait_def Let_def split: prod.splits)

lemma ledger_shutdown [simp]: "ledger (main_shutdown L) = ledger L"
  by (simp add: main_shutdown_def ledger_fold)

lemma ledger_main_stop [simp]: "ledger (main_stop L) = ledger L"
  by (simp add: main_stop_def)

lemma ledger_pop_task [simp]: "ledger (pop_task f L) = ledger L"
  by (simp add: pop_task_def)

section \<open>The books are kept\<close>

lemma frame_simps [simp]:
  "pcs (call_soon h L) = pcs L" "next_id (call_soon h L) = next_id L" "coro_of (call_soon h L) = coro_of L"
  "pcs (add_done_callback f cb L) = pcs L" "next_id (add_done_callback f cb L) = next_id L" "coro_of (add_done_callback f cb L) = coro_of L"
  "pcs (finish f L) = (pcs L)(f := Done)" "next_id (finish f L) = next_id L" "coro_of (finish f L) = coro_of L"
  "pcs (end_wait w i L) = pcs L" "next_id (end_wait w i L) = next_id L" "coro_of (end_wait w i L) = coro_of L"
  "pcs (on_completion w i L) = pcs L" "next_id (on_completion w i L) = next_id L" "coro_of (on_completion w i L) = coro_of L"
  "pcs (pop_task f L) = pcs L" "next_id (pop_task f L) = next_id L" "coro_of (pop_task f L) = coro_of L"
  by (simp_all add: call_soon_def add_done_callback_def finish_def end_wait_def on_completion_def pop_task_def)

lemma frame_cancel [simp]: "pcs (cancel f L) = pcs L" "next_id (cancel f L) = next_id L" "coro_of (cancel f L) = coro_of L" "running (cancel f L) = running L"
  by (auto simp: cancel_def cancel_wait_def call_soon_def split: pc.splits)

lemma fold_view: "(\<And>x L. h (g x L) = h L) \<Longrightarrow> h (fold g xs L) = h L"
  by (induction xs arbitrary: L) simp_all

lemma frame_wait:
  "asyncio_wait w fs n L = (i, L1) \<Longrightarrow> pcs L1 = pcs L \<and> next_id L1 = Suc (next_id L) \<and> coro_of L1 = coro_of L"
  unfolding asyncio_wait_def
  by (auto simp: fold_view [where h = pcs] fold_view [where h = next_id] fold_view [where h = coro_of])

lemma frame_task_wait:
  "next_id L \<le> next_id (task_wait f fs b L) \<and> (\<forall>g. g \<noteq> f \<longrightarrow> pcs (task_wait f fs b L) g = pcs L g) \<and>
   (fs = [] \<and> pcs (task_wait f fs b L) f = Done \<or> fs \<noteq> [] \<and> (\<exists>i. pcs (task_wait f fs b L) f = TaskWait i fs b))"
  by (auto simp: task_wait_def dest: frame_wait split: prod.splits)

lemma frame_main_cleanups:
  "next_id L \<le> next_id (main_cleanups L) \<and> (\<forall>g. g \<noteq> 0 \<longrightarrow> pcs (main_cleanups L) g = pcs L g) \<and>
   (pcs (main_cleanups L) 0 = Done \<or> (\<exists>i. pcs (main_cleanups L) 0 = MainCleanups i))"
  by (auto simp: main_cleanups_def dest: frame_wait split: prod.splits)

lemma frame_main_wait:
  "next_id L \<le> next_id (main_wait L) \<and> (\<forall>g. g \<noteq> 0 \<longrightarrow> pcs (main_wait L) g = pcs L g) \<and>
   (pcs (main_wait L) 0 = Done \<or> (\<exists>i. pcs (main_wait L) 0 = MainCleanups i) \<or> (\<exists>i fs. pcs (main_wait L) 0 = MainWait i fs))"
  using frame_main_cleanups [of L] by (auto simp: main_wait_def Let_def dest: frame_wait split: prod.splits)

text \<open>The two statements of the books: the calls of \<^verbatim>\<open>schedule_cleanup\<close> for an object add up to one, and before the shutdown
  every call that is due finds its object.\<close>

definition books :: "loop \<Rightarrow> bool" where
  "books L \<longleftrightarrow> (\<forall>f. due f L + cleaned f L + failed f L = (if is_obj f L then 1 else 0)) \<and> (\<forall>f. listed f L \<le> due f L)"

definition clean_books :: "loop \<Rightarrow> bool" where
  "clean_books L \<longleftrightarrow> lost L = [] \<and> (\<forall>f. listed f L = due f L)"

lemma books_ledger: "ledger L' = ledger L \<Longrightarrow> books L' = books L \<and> clean_books L' = clean_books L"
  by (auto simp: books_def clean_books_def ledger_def counts_def fun_eq_iff)

fun main_pc :: "pc \<Rightarrow> bool" where
  "main_pc MainStop = True"
| "main_pc (MainWait i fs) = True"
| "main_pc (MainCleanups i) = True"
| "main_pc _ = False"

fun obj_pc :: "pc \<Rightarrow> bool" where
  "obj_pc Busy = True"
| "obj_pc (TaskWait i fs b) = True"
| "obj_pc _ = False"

definition before_stop :: "loop \<Rightarrow> bool" where
  "before_stop L \<longleftrightarrow> pcs L 0 = Fresh \<or> pcs L 0 = MainStop"

definition loop_inv :: "loop \<Rightarrow> bool" where
  "loop_inv L \<longleftrightarrow> books L \<and> (before_stop L \<longrightarrow> clean_books L) \<and> (\<forall>f \<ge> next_id L. coro_of L f = None) \<and> (\<forall>f. coro_of L f = Some MainRun \<longleftrightarrow> f = 0) \<and>
     (\<forall>f. f \<noteq> 0 \<longrightarrow> \<not> main_pc (pcs L f)) \<and> \<not> obj_pc (pcs L 0)"

lemma loop_inv_transfer:
  assumes "loop_inv L" and "ledger L' = ledger L" and "next_id L \<le> next_id L'"
    and "\<And>g. g \<noteq> 0 \<Longrightarrow> \<not> main_pc (pcs L' g)" and "\<not> obj_pc (pcs L' 0)" and "before_stop L' \<Longrightarrow> before_stop L"
  shows "loop_inv L'"
  using assms books_ledger [OF assms(2)] by (auto simp: loop_inv_def ledger_def)

lemma start_obj_result:
  assumes "start_obj ob L = (f, L')"
  shows "f = next_id L \<and> next_id L' = Suc f \<and> coro_of L' = (coro_of L)(f \<mapsto> RunObj ob) \<and> pcs L' = (pcs L)(f := Fresh) \<and> lost L' = lost L \<and>
    (\<forall>g. due g L' = due g L + (if g = f then 1 else 0)) \<and> (\<forall>g. listed g L' = listed g L + (if g = f then 1 else 0)) \<and>
    (\<forall>g. cleaned g L' = cleaned g L)"
  using assms by (auto simp: start_obj_def create_future_def add_done_callback_def call_soon_def due_def listed_def cleaned_def Let_def)

lemma loop_inv_start_obj:
  assumes "loop_inv L" and "start_obj ob L = (f, L')"
  shows "loop_inv L' \<and> before_stop L' = before_stop L"
proof -
  note r = start_obj_result [OF assms(2)]
  have main: "\<forall>g. coro_of L g = Some MainRun \<longleftrightarrow> g = 0" and "\<forall>g \<ge> next_id L. coro_of L g = None" using assms(1) by (simp_all add: loop_inv_def)
  then have none: "coro_of L f = None" using r by simp
  moreover have "coro_of L 0 = Some MainRun" using main by blast
  ultimately have f: "f \<noteq> 0" "coro_of L f = None" by (cases "f = 0"; simp)+
  then have "due f L + cleaned f L + failed f L = 0" "listed f L \<le> due f L"
    using assms(1) by (auto simp: loop_inv_def books_def is_obj_def)
  moreover have "failed g L' = failed g L" for g using r by (simp add: failed_def)
  moreover have "is_obj g L' \<longleftrightarrow> is_obj g L \<or> g = f" for g using r f by (auto simp: is_obj_def)
  ultimately have "books L'" using assms(1) r f by (auto simp: loop_inv_def books_def is_obj_def)
  moreover have "before_stop L' = before_stop L" using r f by (simp add: before_stop_def)
  moreover have "clean_books L' = clean_books L" using r by (auto simp: clean_books_def)
  ultimately show ?thesis using assms(1) r f by (auto simp: loop_inv_def)
qed

lemma loop_inv_start_services: "loop_inv L \<Longrightarrow> loop_inv (start_services is L) \<and> before_stop (start_services is L) = before_stop L"
proof (induction "is" L rule: start_services.induct)
  case (2 i "is" L)
  then show ?case using loop_inv_start_obj [of L "Service i"] by (cases "start_obj (Service i) L") auto
qed simp

lemma loop_inv_start_jobs: "loop_inv L \<Longrightarrow> start_jobs f is L = (gs, L') \<Longrightarrow> loop_inv L' \<and> before_stop L' = before_stop L"
proof (induction f "is" L arbitrary: gs L' rule: start_jobs.induct)
  case (2 f i "is" L)
  obtain g L1 where g: "start_obj (JobObj f i) L = (g, L1)" by fastforce
  obtain hs L2 where h: "start_jobs f is L1 = (hs, L2)" by fastforce
  from loop_inv_start_obj [OF 2(2) g] have "loop_inv L1" "before_stop L1 = before_stop L" by blast+
  with 2(1) [OF g [symmetric] refl this(1) h] 2(3) g h show ?case by simp
qed simp

lemma loop_inv_pc:
  assumes "loop_inv L" and "f \<noteq> 0" and "\<not> main_pc p"
  shows "loop_inv (L\<lparr>pcs := (pcs L)(f := p)\<rparr>)"
  by (rule loop_inv_transfer [OF assms(1)]) (use assms in \<open>auto simp: loop_inv_def before_stop_def\<close>)

lemma loop_inv_finish: "loop_inv L \<Longrightarrow> f \<noteq> 0 \<Longrightarrow> loop_inv (finish f L)"
  by (rule loop_inv_transfer) (auto simp: loop_inv_def before_stop_def)

lemma loop_inv_task_wait: "loop_inv L \<Longrightarrow> f \<noteq> 0 \<Longrightarrow> loop_inv (task_wait f fs b L)"
proof -
  assume inv: "loop_inv L" and f: "f \<noteq> 0"
  note fr = frame_task_wait [of L f fs b]
  have same: "pcs (task_wait f fs b L) g = pcs L g" if "g \<noteq> f" for g using fr that by blast
  have "\<not> main_pc (pcs (task_wait f fs b L) f)" using fr by auto
  then have "\<not> main_pc (pcs (task_wait f fs b L) g)" if "g \<noteq> 0" for g
    using same [of g] inv that by (cases "g = f") (auto simp: loop_inv_def)
  then show ?thesis
    using inv f same [of 0] fr by (intro loop_inv_transfer [OF inv]) (auto simp: loop_inv_def before_stop_def)
qed

lemma loop_inv_neutral:
  assumes "loop_inv L" and "ledger L' = ledger L" and "next_id L' = next_id L" and "pcs L' = pcs L"
  shows "loop_inv L'"
  by (rule loop_inv_transfer [OF assms(1,2)]) (use assms in \<open>auto simp: loop_inv_def before_stop_def\<close>)

lemma loop_inv_cancels: "loop_inv L \<Longrightarrow> loop_inv (fold cancel fs L)"
  by (erule loop_inv_neutral)
    (simp_all add: ledger_fold fold_view [where h = pcs] fold_view [where h = next_id])

lemma loop_inv_task_resume:
  assumes "loop_inv L" and "f \<noteq> 0"
  shows "loop_inv (task_resume f i fs b L)"
proof -
  let ?L1 = "end_wait f i L"
  let ?L2 = "?L1\<lparr>cancel_req := (cancel_req ?L1)(f := False)\<rparr>"
  have "loop_inv ?L1" by (rule loop_inv_neutral [OF assms(1)]) simp_all
  moreover from this have "loop_inv ?L2" by (rule loop_inv_neutral) simp_all
  ultimately show ?thesis
    using assms(2) unfolding task_resume_def Let_def
    by (auto intro: loop_inv_finish loop_inv_task_wait loop_inv_cancels)
qed

lemma loop_inv_task_begin: "loop_inv L \<Longrightarrow> f \<noteq> 0 \<Longrightarrow> loop_inv (task_begin f n L)"
  using loop_inv_start_jobs [of L f "[0..<n]"]
  by (auto simp: task_begin_def split: prod.splits intro: loop_inv_task_wait)

lemma loop_inv_main:
  assumes "loop_inv L" and "ledger L' = ledger L" and "next_id L \<le> next_id L'" and "\<And>g. g \<noteq> 0 \<Longrightarrow> pcs L' g = pcs L g"
    and "pcs L' 0 = Done \<or> (\<exists>i. pcs L' 0 = MainCleanups i) \<or> (\<exists>i fs. pcs L' 0 = MainWait i fs)"
  shows "loop_inv L'"
  by (rule loop_inv_transfer [OF assms(1-3)]) (use assms in \<open>auto simp: loop_inv_def before_stop_def\<close>)

lemma loop_inv_main_wait: "loop_inv L \<Longrightarrow> loop_inv (main_wait L)"
  by (rule loop_inv_main) (use frame_main_wait [of L] in auto)

lemma count_map_filter_le: "count_list (map f (filter P xs)) x \<le> count_list (map f xs) x"
  by (induction xs) auto

lemma ledger_drop_running:
  "books L \<Longrightarrow> books (L\<lparr>running := filter P (running L)\<rparr>)"
  using count_map_filter_le [of fst P "running L"]
  by (auto simp: books_def due_def cleaned_def failed_def listed_def is_obj_def intro: order_trans)

lemma loop_inv_main_resume:
  assumes "loop_inv L" and "pcs L 0 = MainWait i fs"
  shows "loop_inv (main_resume i fs L)"
proof -
  have "loop_inv (end_wait 0 i L)" by (rule loop_inv_neutral [OF assms(1)]) simp_all
  then have "loop_inv ((end_wait 0 i L)\<lparr>running := filter P (running (end_wait 0 i L))\<rparr>)" for P
    using assms(2) ledger_drop_running [of "end_wait 0 i L" P] by (auto simp: loop_inv_def before_stop_def)
  then show ?thesis unfolding main_resume_def Let_def by (intro loop_inv_main_wait)
qed

lemma loop_inv_main_begin:
  assumes "loop_inv L" and "pcs L 0 = Fresh"
  shows "loop_inv (main_begin L)"
proof -
  let ?L = "start_services [0..<services L] L"
  have inv: "loop_inv ?L" "before_stop ?L"
    using loop_inv_start_services [OF assms(1)] assms(2) by (auto simp: before_stop_def)
  show ?thesis unfolding main_begin_def
    by (rule loop_inv_transfer [OF inv(1)]) (use inv in \<open>auto simp: loop_inv_def\<close>)
qed

lemma loop_inv_resume:
  assumes "loop_inv L"
  shows "loop_inv (resume b f L)"
proof (cases "f = 0")
  case True
  have c: "coro_of L 0 = Some MainRun" and pc: "\<not> obj_pc (pcs L 0)" using assms by (auto simp: loop_inv_def)
  have "loop_inv (main_shutdown L)"
    unfolding main_shutdown_def by (intro loop_inv_main_wait loop_inv_cancels assms)
  moreover have "loop_inv (main_stop L)"
    by (rule loop_inv_main [OF assms]) (simp_all add: main_stop_def)
  ultimately show ?thesis
    using assms c pc True loop_inv_main_begin [OF assms] loop_inv_main_resume [OF assms]
    by (cases "pcs L 0") (auto simp: resume_def)
next
  case False
  have pc: "\<not> main_pc (pcs L f)" using assms False by (auto simp: loop_inv_def)
  show ?thesis
  proof (cases "coro_of L f")
    case (Some c)
    have body: "loop_inv (body_step b f L)"
      using assms False loop_inv_pc [OF assms False, of Busy] by (simp add: body_step_def loop_inv_finish)
    have "c \<noteq> MainRun" using assms Some False by (auto simp: loop_inv_def)
    then show ?thesis
      using assms Some pc False body
      by (cases "pcs L f"; cases c) (auto simp: resume_def loop_inv_finish loop_inv_task_begin loop_inv_task_resume split: obj.splits)
  qed (use assms in \<open>simp add: resume_def\<close>)
qed

lemma count_list_pos: "x \<in> set xs \<longleftrightarrow> 0 < count_list xs x"
  by (induction xs) auto

lemma map_of_None_count: "map_of xs f = None \<longleftrightarrow> count_list (map fst xs) f = 0"
  by (induction xs) auto

lemma count_filter_key: "count_list (map fst (filter (\<lambda>(g, x). g \<noteq> f) xs)) g = (if g = f then 0 else count_list (map fst xs) g)"
  by (induction xs) auto

lemma schedule_cleanup_result:
  assumes "L' = schedule_cleanup f L"
  shows "(\<forall>g. due g L' = due g L) \<and> next_id L \<le> next_id L' \<and> (\<forall>g. g \<noteq> next_id L \<longrightarrow> pcs L' g = pcs L g) \<and>
    (listed f L = 0 \<and> next_id L' = next_id L \<and> coro_of L' = coro_of L \<and> lost L' = lost L @ [f] \<and> pcs L' = pcs L \<and>
       (\<forall>g. cleaned g L' = cleaned g L \<and> listed g L' = listed g L) \<or>
     listed f L \<noteq> 0 \<and> next_id L' = Suc (next_id L) \<and> (\<exists>ob. coro_of L' = (coro_of L)(next_id L \<mapsto> RunCleanup ob)) \<and> lost L' = lost L \<and>
       pcs L' (next_id L) = Fresh \<and>
       (\<forall>g. cleaned g L' = cleaned g L + (if g = f then 1 else 0)) \<and> (\<forall>g. listed g L' = (if g = f then 0 else listed g L)))"
proof (cases "map_of (running L) f")
  case None
  with assms show ?thesis by (simp add: schedule_cleanup_def due_def listed_def cleaned_def map_of_None_count)
next
  case (Some ob)
  then have "listed f L \<noteq> 0" using map_of_None_count [of "running L" f] by (simp add: listed_def)
  with assms Some show ?thesis
    by (auto simp: schedule_cleanup_def create_future_def call_soon_def due_def listed_def cleaned_def count_filter_key)
qed

lemma loop_inv_schedule_cleanup:
  assumes inv: "loop_inv L" and ready: "ready L = Call CbCleanup f # hs"
  shows "loop_inv (schedule_cleanup f (L\<lparr>ready := hs\<rparr>))"
proof -
  let ?L = "L\<lparr>ready := hs\<rparr>"
  define L' where "L' = schedule_cleanup f ?L"
  have keys: "due f L + cleaned f L + failed f L = (if is_obj f L then 1 else 0)" and le: "\<And>g. listed g L \<le> due g L"
    and all: "\<And>g. due g L + cleaned g L + failed g L = (if is_obj g L then 1 else 0)"
    and clean: "before_stop L \<Longrightarrow> lost L = [] \<and> (\<forall>g. listed g L = due g L)"
    and bound: "\<And>g. next_id L \<le> g \<Longrightarrow> coro_of L g = None"
    and main: "\<And>g. coro_of L g = Some MainRun \<longleftrightarrow> g = 0" and pc: "\<And>g. g \<noteq> 0 \<Longrightarrow> \<not> main_pc (pcs L g)" "\<not> obj_pc (pcs L 0)"
    using inv by (auto simp: loop_inv_def books_def clean_books_def)
  have d: "due g ?L + (if g = f then 1 else 0) = due g L" for g using ready by (simp add: due_def)
  have same: "cleaned g ?L = cleaned g L" "failed g ?L = failed g L" "listed g ?L = listed g L" "is_obj g ?L = is_obj g L" for g
    by (simp_all add: cleaned_def failed_def listed_def is_obj_def)
  have f: "is_obj f L" "due f ?L = 0" "cleaned f L = 0" "failed f L = 0" using keys d [of f] by (auto split: if_splits)
  have ids: "0 < next_id L" using bound [of 0] main [of 0] by (cases "next_id L") auto
  note r = schedule_cleanup_result [OF L'_def]
  have objs: "is_obj g L' = is_obj g L" for g
    using r bound [of "next_id L"] by (cases "g = next_id L") (auto simp: is_obj_def)
  have cnt: "cleaned g L' + failed g L' = cleaned g L + failed g L + (if g = f then 1 else 0)" for g
    using r same [of g] by (auto simp: failed_def)
  have "books L'"
    unfolding books_def
  proof (intro conjI allI)
    fix g
    show "due g L' + cleaned g L' + failed g L' = (if is_obj g L' then 1 else 0)"
      using all [of g] cnt [of g] d [of g] r objs by (auto split: if_splits)
    show "listed g L' \<le> due g L'"
      using r le [of g] d [of g] same [of g] f by (cases "g = f") auto
  qed
  moreover have stop: "before_stop L' = before_stop L" using r ids by (simp add: before_stop_def)
  moreover have "clean_books L'" if "before_stop L"
  proof -
    have "listed f L = 1" using clean [OF that] d [of f] f by simp
    then have "listed f ?L \<noteq> 0" using same(3) [of f] by simp
    with r have "lost L' = lost L" and l: "\<And>g. listed g L' = (if g = f then 0 else listed g ?L)" and d': "\<And>g. due g L' = due g ?L" by auto
    moreover have "listed g L' = due g L'" for g
      using clean [OF that] d [of g] same(3) [of g] f(2) unfolding l d' by (cases "g = f") auto
    ultimately show ?thesis using clean [OF that] by (simp add: clean_books_def)
  qed
  moreover have "coro_of L' g = Some MainRun \<longleftrightarrow> g = 0" for g using r main [of g] ids by (cases "g = next_id L") auto
  moreover have "coro_of L' g = None" if "next_id L' \<le> g" for g using r bound [of g] that by auto
  moreover have "\<not> main_pc (pcs L' g)" if "g \<noteq> 0" for g using r pc(1) [OF that] by (cases "g = next_id L") auto
  moreover have "\<not> obj_pc (pcs L' 0)" using r pc(2) ids by auto
  ultimately show ?thesis unfolding L'_def [symmetric] loop_inv_def by blast
qed

lemma ledger_pop: "ready L = h # hs \<Longrightarrow> (\<And>f. h \<noteq> Call CbCleanup f) \<Longrightarrow> ledger (L\<lparr>ready := hs\<rparr>) = ledger L"
  by (auto simp: count_defs)

lemma loop_inv_run_handle:
  assumes inv: "loop_inv L" and ready: "ready L = h # hs"
  shows "loop_inv (run_handle b h (L\<lparr>ready := hs\<rparr>))"
proof (cases "\<exists>f. h = Call CbCleanup f")
  case True
  with loop_inv_schedule_cleanup [OF inv] ready show ?thesis by auto
next
  case False
  have L1: "loop_inv (L\<lparr>ready := hs\<rparr>)"
    by (rule loop_inv_neutral [OF inv ledger_pop [OF ready]]) (use False in auto)
  show ?thesis
  proof (cases h)
    case (Step f)
    with loop_inv_resume [OF L1] show ?thesis by simp
  next
    case (Call cb f)
    with False show ?thesis
      by (cases cb) (auto intro!: loop_inv_neutral [OF L1])
  qed
qed

lemma loop_step_inv: "loop_step L L' \<Longrightarrow> loop_inv L \<Longrightarrow> loop_inv L'"
proof (induction rule: loop_step.induct)
  case (loop_stepI e L L')
  have soon: "loop_inv (call_soon (Step f) L)" for f by (rule loop_inv_neutral [OF loop_stepI(2)]) simp_all
  have new: "loop_inv (loop_start_task ob L)" for ob
  proof -
    obtain f L1 where f: "start_obj ob L = (f, L1)" by fastforce
    from loop_inv_start_obj [OF loop_stepI(2) f] have "loop_inv L1" by blast
    then show ?thesis by (rule loop_inv_neutral) (simp_all add: loop_start_task_def f)
  qed
  show ?case
    using loop_stepI soon new loop_inv_run_handle [OF loop_stepI(2)]
    by (cases e) (auto simp: apply_event_def split: list.splits if_splits option.splits coro.splits obj.splits)
qed

lemma loop_inv_init: "loop_inv (loop_init n)"
  by (auto simp: loop_inv_def loop_init_def books_def clean_books_def due_def cleaned_def failed_def listed_def is_obj_def)

section \<open>A future that is done has no callbacks left\<close>

definition settled :: "loop \<Rightarrow> bool" where
  "settled L \<longleftrightarrow> (\<forall>f. f \<noteq> 0 \<longrightarrow> pcs L f = Done \<longrightarrow> cbs L f = [])"

named_theorems settled_intro \<open>operations of the loop that leave no callback on a future that is done\<close>

lemma settled_ops [settled_intro]:
  "settled L \<Longrightarrow> settled (call_soon h L)"
  "settled L \<Longrightarrow> settled (add_done_callback f cb L)"
  "settled L \<Longrightarrow> settled (finish f L)"
  "settled L \<Longrightarrow> settled (cancel f L)"
  "settled L \<Longrightarrow> settled (on_completion w i L)"
  "settled L \<Longrightarrow> settled (end_wait w i L)"
  "settled L \<Longrightarrow> settled (pop_task f L)"
  "settled L \<Longrightarrow> settled (main_stop L)"
  by (auto simp: settled_def call_soon_def add_done_callback_def finish_def cancel_def cancel_wait_def on_completion_def
      end_wait_def pop_task_def main_stop_def split: pc.splits if_splits)

lemma settled_updates [settled_intro]:
  "settled L \<Longrightarrow> settled (L\<lparr>running := x\<rparr>)" "settled L \<Longrightarrow> settled (L\<lparr>cleanups := y\<rparr>)" "settled L \<Longrightarrow> settled (L\<lparr>root_tasks := z\<rparr>)"
  "settled L \<Longrightarrow> settled (L\<lparr>cancel_req := u\<rparr>)" "settled L \<Longrightarrow> settled (L\<lparr>waiting := v\<rparr>)" "settled L \<Longrightarrow> settled (L\<lparr>next_id := w\<rparr>)"
  "settled L \<Longrightarrow> settled (L\<lparr>lost := q\<rparr>)" "settled L \<Longrightarrow> settled (L\<lparr>ready := r\<rparr>)" "settled L \<Longrightarrow> settled (L\<lparr>stopped := b\<rparr>)"
  "settled L \<Longrightarrow> settled (L\<lparr>stopped := b, pcs := (pcs L)(0 := p)\<rparr>)"
  "settled L \<Longrightarrow> f = 0 \<or> p \<noteq> Done \<Longrightarrow> settled (L\<lparr>pcs := (pcs L)(f := p)\<rparr>)"
  by (auto simp: settled_def)

lemma settled_fold: "(\<And>x L. settled L \<Longrightarrow> settled (g x L)) \<Longrightarrow> settled L \<Longrightarrow> settled (fold g xs L)"
  by (induction xs arbitrary: L) simp_all

lemma settled_wait: "settled L \<Longrightarrow> asyncio_wait w fs n L = (i, L') \<Longrightarrow> settled L'"
  unfolding asyncio_wait_def by (auto intro!: settled_fold settled_intro)

lemma settled_create: "settled L \<Longrightarrow> create_future c L = (f, L') \<Longrightarrow> settled L'"
  by (auto simp: create_future_def call_soon_def settled_def split: if_splits)

lemma settled_start_obj: "settled L \<Longrightarrow> start_obj ob L = (f, L') \<Longrightarrow> settled L'"
  unfolding start_obj_def Let_def by (auto split: prod.splits intro!: settled_intro dest: settled_create)

lemma settled_start_services [settled_intro]: "settled L \<Longrightarrow> settled (start_services is L)"
proof (induction "is" L rule: start_services.induct)
  case (2 i "is" L)
  then show ?case using settled_start_obj [of L "Service i"] by (cases "start_obj (Service i) L") simp
qed simp

lemma settled_start_jobs: "settled L \<Longrightarrow> start_jobs f is L = (gs, L') \<Longrightarrow> settled L'"
proof (induction f "is" L arbitrary: gs L' rule: start_jobs.induct)
  case (2 f i "is" L)
  obtain g L1 where g: "start_obj (JobObj f i) L = (g, L1)" by fastforce
  obtain hs L2 where h: "start_jobs f is L1 = (hs, L2)" by fastforce
  from 2(1) [OF g [symmetric] refl settled_start_obj [OF 2(2) g] h] 2(3) g h show ?case by simp
qed simp

lemma settled_schedule_cleanup [settled_intro]: "settled L \<Longrightarrow> settled (schedule_cleanup f L)"
  unfolding schedule_cleanup_def Let_def
  by (auto split: option.splits prod.splits intro!: settled_intro elim!: settled_create [rotated])

lemma settled_waits [settled_intro]:
  "settled L \<Longrightarrow> settled (task_wait f fs b L)"
  "settled L \<Longrightarrow> settled (main_cleanups L)"
  by (auto simp: task_wait_def main_cleanups_def split: prod.splits intro!: settled_intro dest: settled_wait)

lemma settled_main_wait [settled_intro]: "settled L \<Longrightarrow> settled (main_wait L)"
  by (auto simp: main_wait_def Let_def split: prod.splits intro!: settled_intro dest: settled_wait)

lemma settled_mains [settled_intro]:
  "settled L \<Longrightarrow> settled (main_shutdown L)"
  "settled L \<Longrightarrow> settled (main_resume i fs L)"
  "settled L \<Longrightarrow> settled (main_begin L)"
  unfolding main_shutdown_def main_resume_def main_begin_def Let_def by (intro settled_intro settled_fold; simp)+

lemma settled_tasks [settled_intro]:
  "settled L \<Longrightarrow> settled (task_begin f n L)"
  "settled L \<Longrightarrow> settled (task_resume f i fs b L)"
  "settled L \<Longrightarrow> settled (body_step e f L)"
  by (auto simp: task_begin_def task_resume_def body_step_def Let_def split: prod.splits
      intro!: settled_intro settled_fold dest: settled_start_jobs)

lemma settled_resume [settled_intro]: "settled L \<Longrightarrow> settled (resume b f L)"
  unfolding resume_def by (auto split: option.splits pc.splits coro.splits obj.splits intro!: settled_intro)

lemma settled_run_handle: "settled L \<Longrightarrow> settled (run_handle b h L)"
  by (induction b h L rule: run_handle.induct) (auto intro: settled_intro)

lemma loop_step_settled: "loop_step L L' \<Longrightarrow> settled L \<Longrightarrow> settled L'"
proof (induction rule: loop_step.induct)
  case (loop_stepI e L L')
  have "settled (loop_start_task ob L)" for ob
    using loop_stepI(2) by (auto simp: loop_start_task_def split: prod.splits intro!: settled_intro dest: settled_start_obj)
  with loop_stepI show ?case
    by (cases e) (auto simp: apply_event_def split: list.splits if_splits option.splits coro.splits obj.splits
        intro: settled_intro settled_run_handle)
qed

section \<open>Every object is cleaned up once\<close>

text \<open>C4: in every state the event loop can reach, the cleanup of a service, job or task has been started at most once. Until the
  program is told to stop no cleanup is lost, and whenever the loop has nothing to do, each object whose \<^verbatim>\<open>run\<close> has ended, in
  whatever way, has had its cleanup started.\<close>

theorem cleanup_exactly_once:
  assumes "loop_step\<^sup>*\<^sup>* (loop_init n) L" and "coro_of L f = Some (RunObj ob)"
  shows "cleaned f L \<le> 1 \<and> (before_stop L \<longrightarrow> lost L = [] \<and> (pcs L f = Done \<and> ready L = [] \<longrightarrow> cleaned f L = 1))"
proof -
  have "settled (loop_init n)" by (simp add: settled_def loop_init_def)
  with assms(1) have "loop_inv L \<and> settled L"
    by (induction rule: rtranclp_induct) (auto intro: loop_inv_init loop_step_inv loop_step_settled)
  then have inv: "loop_inv L" and "settled L" by blast+
  have one: "due f L + cleaned f L + failed f L = 1" using inv assms(2) by (auto simp: loop_inv_def books_def is_obj_def)
  have "coro_of L 0 = Some MainRun" using inv by (simp add: loop_inv_def)
  with assms(2) have "f \<noteq> 0" by (metis coro.distinct(1) option.inject)
  with \<open>settled L\<close> have "due f L = 0" if "pcs L f = Done" "ready L = []" using that by (simp add: due_def settled_def)
  moreover have "failed f L = 0" if "before_stop L" using inv that by (simp add: loop_inv_def clean_books_def failed_def)
  ultimately show ?thesis using one inv by (auto simp: loop_inv_def clean_books_def)
qed

lemma apply_events_reach: "apply_events es L = Some L' \<Longrightarrow> loop_step\<^sup>*\<^sup>* L L'"
proof (induction es arbitrary: L)
  case (Cons e es)
  then obtain L1 where "apply_event e L = Some L1" "apply_events es L1 = Some L'" by (auto simp: Option.bind_eq_Some_conv)
  with Cons.IH show ?case by (meson converse_rtranclp_into_rtranclp loop_stepI)
qed simp

definition demo_events :: "loop_event list" where
  "demo_events = [Turn False, Turn False, NewTask 1 5 1, Turn False, Turn False, Io 3, Turn True, Turn False, Turn False, Turn True, Turn True, Turn False, Turn False, Turn True]"


lemma demo_events_run:
  "map_option (\<lambda>L. (coro_of L 3, pcs L 3, ready L, pcs L 0, running L)) (apply_events demo_events (loop_init 1)) =
     Some (Some (RunObj (JobObj 2 0)), Done, [], MainStop, [(1, Service 0)])"
  by code_simp

theorem cleanup_exactly_once_witness:
  "\<exists>L. loop_step\<^sup>*\<^sup>* (loop_init 1) L \<and> coro_of L 3 = Some (RunObj (JobObj 2 0)) \<and> pcs L 3 = Done \<and> cleaned 3 L = 1"
proof -
  from demo_events_run obtain L where L: "apply_events demo_events (loop_init 1) = Some L" "coro_of L 3 = Some (RunObj (JobObj 2 0))"
    "pcs L 3 = Done" "ready L = []" "pcs L 0 = MainStop" by auto
  from cleanup_exactly_once [OF apply_events_reach [OF L(1)] L(2)] L have "cleaned 3 L = 1" by (simp add: before_stop_def)
  with apply_events_reach [OF L(1)] L show ?thesis by blast
qed

section \<open>The shutdown loses a cleanup\<close>

definition race_events :: "loop_event list" where
  "race_events = [Turn False, Turn False, Turn False, StopEvent, Turn False, Io 1, Turn True, Io 2, Turn False, Turn False, Turn True,
     Turn True, Turn False, Turn False, Turn False, Turn False, Turn False]"

lemma race_run:
  "map_option (\<lambda>L. (coro_of L 2, pcs L 2, cleaned 2 L, lost L, stopped L)) (apply_events race_events (loop_init 2)) =
     Some (Some (RunObj (Service 1)), Done, 0, [2], True)"
  by code_simp

text \<open>C36: the shutdown can lose a cleanup. \<^verbatim>\<open>Root.run\<close> waits on the very table from which \<^verbatim>\<open>schedule_cleanup\<close> takes the objects; when a second
  service ends between the wake-up for the first one and its own callback, the wait removes it from the table, the callback
  fails with \<^verbatim>\<open>KeyError\<close>, and the loop stops without having cleaned it up.\<close>

theorem shutdown_loses_cleanup:
  "\<exists>L. loop_step\<^sup>*\<^sup>* (loop_init 2) L \<and> stopped L \<and> coro_of L 2 = Some (RunObj (Service 1)) \<and> pcs L 2 = Done \<and> lost L = [2] \<and> cleaned 2 L = 0"
proof -
  from race_run obtain L where L: "apply_events race_events (loop_init 2) = Some L" "coro_of L 2 = Some (RunObj (Service 1))"
    "pcs L 2 = Done" "cleaned 2 L = 0" "lost L = [2]" "stopped L" by auto
  with apply_events_reach [OF L(1)] show ?thesis by blast
qed

section \<open>A task ends after its jobs\<close>

definition is_task :: "nat \<Rightarrow> loop \<Rightarrow> bool" where
  "is_task p L \<longleftrightarrow> (\<exists>t n. coro_of L p = Some (RunObj (TaskObj t n)))"

definition is_job :: "nat \<Rightarrow> nat \<Rightarrow> loop \<Rightarrow> bool" where
  "is_job p g L \<longleftrightarrow> (\<exists>i. coro_of L g = Some (RunObj (JobObj p i)))"

text \<open>A task waits for all of its jobs that are not done. It is cancelled once at most, by the shutdown, so that the wait
  after a cancellation is never left early.\<close>

definition jobs_inv :: "loop \<Rightarrow> bool" where
  "jobs_inv L \<longleftrightarrow>
     (\<forall>g p. is_job p g L \<longrightarrow> pcs L g = Done \<or> (\<exists>w fs b. pcs L p = TaskWait w fs b \<and> g \<in> set fs)) \<and>
     (\<forall>p w fs b. pcs L p = TaskWait w fs b \<longrightarrow> is_task p L \<and> (\<forall>g \<in> set fs. is_job p g L)) \<and>
     (\<forall>p w fs. pcs L p = TaskWait w fs True \<longrightarrow> \<not> cancel_req L p \<and> \<not> before_stop L) \<and>
     (\<forall>p. is_task p L \<and> cancel_req L p \<longrightarrow> \<not> before_stop L) \<and>
     (\<forall>f. cancel_req L f \<longrightarrow> coro_of L f \<noteq> None)"

lemma jobs_invD:
  assumes "jobs_inv L"
  shows "is_job p g L \<Longrightarrow> pcs L g = Done \<or> (\<exists>w fs b. pcs L p = TaskWait w fs b \<and> g \<in> set fs)"
    and "pcs L p = TaskWait w fs b \<Longrightarrow> is_task p L" and "pcs L p = TaskWait w fs b \<Longrightarrow> g \<in> set fs \<Longrightarrow> is_job p g L"
    and "pcs L p = TaskWait w fs True \<Longrightarrow> \<not> cancel_req L p" and "pcs L p = TaskWait w fs True \<Longrightarrow> \<not> before_stop L"
    and "is_task p L \<Longrightarrow> cancel_req L p \<Longrightarrow> \<not> before_stop L" and "cancel_req L f \<Longrightarrow> coro_of L f \<noteq> None"
  using assms unfolding jobs_inv_def by metis+

text \<open>What the invariant depends on.\<close>

definition jview_of :: "loop \<Rightarrow> (nat \<Rightarrow> coro option) \<times> (nat \<Rightarrow> pc) \<times> (nat \<Rightarrow> bool)" where
  "jview_of L = (coro_of L, pcs L, cancel_req L)"

lemma jobs_inv_view: "jview_of L' = jview_of L \<Longrightarrow> jobs_inv L' = jobs_inv L"
  by (simp add: jobs_inv_def jview_of_def is_task_def is_job_def before_stop_def)

lemma cancel_req_frame [simp]:
  "cancel_req (call_soon h L) = cancel_req L" "cancel_req (add_done_callback f cb L) = cancel_req L" "cancel_req (finish f L) = cancel_req L"
  "cancel_req (end_wait w i L) = cancel_req L" "cancel_req (on_completion w i L) = cancel_req L" "cancel_req (pop_task f L) = cancel_req L"
  by (simp_all add: call_soon_def add_done_callback_def finish_def end_wait_def on_completion_def pop_task_def)

lemma jview_frame [simp]:
  "jview_of (call_soon h L) = jview_of L" "jview_of (add_done_callback f cb L) = jview_of L" "jview_of (end_wait w i L) = jview_of L"
  "jview_of (on_completion w i L) = jview_of L" "jview_of (pop_task f L) = jview_of L" "jview_of (L\<lparr>ready := x\<rparr>) = jview_of L"
  "jview_of (L\<lparr>running := y\<rparr>) = jview_of L" "jview_of (L\<lparr>root_tasks := z\<rparr>) = jview_of L"
  by (simp_all add: jview_of_def)

lemma jview_wait: "asyncio_wait w fs n L = (i, L') \<Longrightarrow> jview_of L' = jview_of L"
  unfolding asyncio_wait_def by (auto simp: fold_view [where h = jview_of]) (simp add: jview_of_def)

lemma cancel_req_cancel: "cancel_req (cancel f L) g \<longleftrightarrow> cancel_req L g \<or> g = f \<and> pcs L f \<noteq> Done"
  by (auto simp: cancel_def cancel_wait_def split: pc.splits)

lemma cancel_req_cancels: "cancel_req (fold cancel fs L) g \<longleftrightarrow> cancel_req L g \<or> g \<in> set fs \<and> pcs L g \<noteq> Done"
  by (induction fs arbitrary: L) (auto simp: cancel_req_cancel)

lemma cancels_frame [simp]: "pcs (fold cancel fs L) = pcs L" "coro_of (fold cancel fs L) = coro_of L" "running (fold cancel fs L) = running L"
  by (simp_all add: fold_view [where h = pcs] fold_view [where h = coro_of] fold_view [where h = running])

lemma jview_task_wait:
  "\<exists>x. (if fs = [] then x = Done else (\<exists>w. x = TaskWait w fs b)) \<and> jview_of (task_wait f fs b L) = (coro_of L, (pcs L)(f := x), cancel_req L)"
proof (cases "fs = []")
  case True
  then show ?thesis by (simp add: task_wait_def jview_of_def)
next
  case False
  obtain i L1 where w: "asyncio_wait f fs (Suc 0) L = (i, L1)" by fastforce
  from jview_wait [OF w] False show ?thesis by (intro exI [of _ "TaskWait i fs b"]) (simp add: task_wait_def w jview_of_def)
qed

lemma jobs_inv_finish:
  assumes "jobs_inv L" and "f \<noteq> 0" and "\<And>w fs b. pcs L f \<noteq> TaskWait w fs b"
  shows "jobs_inv (finish f L)"
  using assms unfolding jobs_inv_def by (auto simp: is_job_def is_task_def before_stop_def) metis+

lemma jobs_inv_busy:
  assumes "jobs_inv L" and "f \<noteq> 0" and "pcs L f = Fresh \<or> pcs L f = Busy"
  shows "jobs_inv (L\<lparr>pcs := (pcs L)(f := Busy)\<rparr>)"
  using assms unfolding jobs_inv_def by (auto simp: is_job_def is_task_def before_stop_def) (metis pc.distinct)+

lemma fresh_id: "loop_inv L \<Longrightarrow> coro_of L (next_id L) = None \<and> next_id L \<noteq> 0"
proof -
  assume inv: "loop_inv L"
  then have none: "coro_of L (next_id L) = None" and main: "coro_of L 0 = Some MainRun" by (simp_all add: loop_inv_def)
  then show ?thesis by (cases "next_id L = 0") simp_all
qed

lemma cancel_req_start_obj: "start_obj ob L = (f, L') \<Longrightarrow> cancel_req L' = cancel_req L"
  by (auto simp: start_obj_def create_future_def Let_def)

lemma jobs_inv_new:
  assumes inv: "jobs_inv L" and f: "coro_of L f = None" "f \<noteq> 0" and ob: "\<And>p i. x \<noteq> RunObj (JobObj p i)"
    and r: "coro_of L' = (coro_of L)(f \<mapsto> x)" "pcs L' = (pcs L)(f := Fresh)" and c: "cancel_req L' = cancel_req L"
  shows "jobs_inv L'"
proof -
  have job: "is_job p g L' = is_job p g L" for p g using r ob f by (cases "g = f") (auto simp: is_job_def)
  have task: "is_task p L' = is_task p L" if "p \<noteq> f" for p using r that by (auto simp: is_task_def)
  have old: "\<not> is_task f L" "\<not> cancel_req L f" using f jobs_invD(7) [OF inv, of f] by (auto simp: is_task_def)
  then have nw: "pcs L f \<noteq> TaskWait w fs b" for w fs b using jobs_invD(2) [OF inv] by blast
  have pc: "pcs L' g = (if g = f then Fresh else pcs L g)" for g using r by simp
  have stop: "before_stop L' = before_stop L" using pc f by (simp add: before_stop_def)
  show ?thesis unfolding jobs_inv_def job c stop
  proof (intro conjI allI impI)
    fix g p assume "is_job p g L"
    then have "pcs L g = Done \<or> (\<exists>w fs b. pcs L p = TaskWait w fs b \<and> g \<in> set fs)" by (rule jobs_invD(1) [OF inv])
    moreover have "g \<noteq> f" using f \<open>is_job p g L\<close> by (auto simp: is_job_def)
    ultimately show "pcs L' g = Done \<or> (\<exists>w fs b. pcs L' p = TaskWait w fs b \<and> g \<in> set fs)" using pc nw by (cases "p = f") auto
  next
    fix p w fs b assume w: "pcs L' p = TaskWait w fs b"
    then have "p \<noteq> f" "pcs L p = TaskWait w fs b" using pc by (auto split: if_splits)
    then show "is_task p L'" "\<forall>g \<in> set fs. is_job p g L" using task jobs_invD(2,3) [OF inv] by blast+
  next
    fix p w fs assume w: "pcs L' p = TaskWait w fs True"
    then have "pcs L p = TaskWait w fs True" using pc by (auto split: if_splits)
    then show "\<not> cancel_req L p" "\<not> before_stop L" using jobs_invD(4,5) [OF inv] by blast+
  next
    fix p assume "is_task p L' \<and> cancel_req L p"
    then show "\<not> before_stop L" using task [of p] old jobs_invD(6) [OF inv] by (cases "p = f") auto
  next
    fix g assume "cancel_req L g"
    then show "coro_of L' g \<noteq> None" using jobs_invD(7) [OF inv] r by auto
  qed
qed

lemma jobs_inv_start_obj:
  assumes "jobs_inv L" and "loop_inv L" and "start_obj ob L = (f, L')" and "\<And>p i. ob \<noteq> JobObj p i"
  shows "jobs_inv L'"
  by (rule jobs_inv_new [OF assms(1), where f = f and x = "RunObj ob"])
    (use fresh_id [OF assms(2)] start_obj_result [OF assms(3)] cancel_req_start_obj [OF assms(3)] assms(4) in auto)

lemma start_jobs_result:
  assumes "start_jobs f is L = (gs, L')"
  shows "next_id L \<le> next_id L' \<and> cancel_req L' = cancel_req L \<and>
    (\<forall>g \<in> set gs. next_id L \<le> g \<and> pcs L' g = Fresh \<and> is_job f g L') \<and> (\<forall>g. g \<notin> set gs \<longrightarrow> pcs L' g = pcs L g \<and> coro_of L' g = coro_of L g)"
  using assms
proof (induction f "is" L arbitrary: gs L' rule: start_jobs.induct)
  case (2 f i "is" L)
  obtain g L1 where g: "start_obj (JobObj f i) L = (g, L1)" by fastforce
  obtain hs L2 where h: "start_jobs f is L1 = (hs, L2)" by fastforce
  note r = start_obj_result [OF g] cancel_req_start_obj [OF g] and IH = 2(1) [OF g [symmetric] refl h]
  have "g \<notin> set hs" using r IH by auto
  then have "pcs L2 g = Fresh \<and> is_job f g L2" using r IH by (auto simp: is_job_def)
  moreover have "gs = g # hs" "L' = L2" using 2(2) g h by simp_all
  ultimately show ?case using r IH by auto
qed simp

lemma jobs_inv_task_begin:
  assumes inv: "jobs_inv L" and linv: "loop_inv L" and f: "is_task f L" "pcs L f = Fresh" "\<not> cancel_req L f" "f \<noteq> 0"
  shows "jobs_inv (task_begin f n L)"
proof -
  obtain gs L1 where g: "start_jobs f [0..<n] L = (gs, L1)" by fastforce
  note r = start_jobs_result [OF g]
  obtain x where x: "if gs = [] then x = Done else (\<exists>w. x = TaskWait w gs False)"
    "jview_of (task_wait f gs False L1) = (coro_of L1, (pcs L1)(f := x), cancel_req L1)" using jview_task_wait by blast
  define L' where "L' = task_begin f n L"
  have L': "coro_of L' = coro_of L1" "pcs L' = (pcs L1)(f := x)" "cancel_req L' = cancel_req L"
    using x(2) r by (simp_all add: L'_def task_begin_def g jview_of_def)
  have none: "coro_of L h = None" if "next_id L \<le> h" for h using linv that by (simp add: loop_inv_def)
  have new: "coro_of L h = None" if "h \<in> set gs" for h using r that none by blast
  have fg: "f \<notin> set gs" using new f(1) by (auto simp: is_task_def)
  have zero: "0 \<notin> set gs"
  proof
    assume "0 \<in> set gs"
    then have "next_id L = 0" using r by auto
    with fresh_id [OF linv] show False by simp
  qed
  have job: "is_job p h L' \<longleftrightarrow> (if h \<in> set gs then p = f else is_job p h L)" for p h
    using r L'(1) by (auto simp: is_job_def)
  have task: "is_task p L' \<longleftrightarrow> p \<notin> set gs \<and> is_task p L" for p
    using r L'(1) by (cases "p \<in> set gs") (auto simp: is_job_def is_task_def)
  have pc: "pcs L' h = (if h = f then x else if h \<in> set gs then Fresh else pcs L h)" for h using r L'(2) by auto
  have stop: "before_stop L' = before_stop L" using pc [of 0] zero f(4) by (simp add: before_stop_def)
  show ?thesis unfolding L'_def [symmetric] jobs_inv_def L'(3) stop
  proof (intro conjI allI impI)
    fix h p assume h: "is_job p h L'"
    show "pcs L' h = Done \<or> (\<exists>w fs b. pcs L' p = TaskWait w fs b \<and> h \<in> set fs)"
    proof (cases "h \<in> set gs")
      case True
      with x(1) obtain w where "x = TaskWait w gs False" by (auto split: if_splits)
      with True h pc [of f] show ?thesis by (auto simp: job)
    next
      case False
      with h have old: "is_job p h L" by (simp add: job)
      have "\<not> is_task p L" if "p \<in> set gs" using new [OF that] by (simp add: is_task_def)
      then have "p \<notin> set gs \<or> pcs L h = Done" using jobs_invD(1) [OF inv old] jobs_invD(2) [OF inv] by blast
      moreover have "h \<noteq> f" "p \<noteq> f \<or> pcs L h = Done"
        using jobs_invD(1) [OF inv old] old f(1,2) by (auto simp: is_task_def is_job_def)
      ultimately show ?thesis using jobs_invD(1) [OF inv old] False pc by auto
    qed
  next
    fix p w fs b assume w: "pcs L' p = TaskWait w fs b"
    then have "p = f \<and> fs = gs \<or> p \<noteq> f \<and> p \<notin> set gs \<and> pcs L p = TaskWait w fs b" using pc [of p] x(1) by (auto split: if_splits)
    then have "is_task p L' \<and> (\<forall>g \<in> set fs. is_job p g L')"
    proof
      assume "p = f \<and> fs = gs" then show ?thesis using f(1) fg task job by auto
    next
      assume p: "p \<noteq> f \<and> p \<notin> set gs \<and> pcs L p = TaskWait w fs b"
      then have "is_task p L" "\<forall>g \<in> set fs. is_job p g L" using jobs_invD(2,3) [OF inv] by blast+
      moreover have "g \<notin> set gs" if "g \<in> set fs" for g using calculation(2) that new by (auto simp: is_job_def)
      ultimately show ?thesis using p task job by auto
    qed
    then show "is_task p L'" "\<forall>g \<in> set fs. is_job p g L'" by blast+
  next
    fix p w fs assume w: "pcs L' p = TaskWait w fs True"
    then have "pcs L p = TaskWait w fs True" using pc [of p] x(1) by (auto split: if_splits)
    then show "\<not> cancel_req L p" "\<not> before_stop L" using jobs_invD(4,5) [OF inv] by blast+
  next
    fix p assume "is_task p L' \<and> cancel_req L p"
    then show "\<not> before_stop L" using task jobs_invD(6) [OF inv] by blast
  next
    fix g assume "cancel_req L g"
    then show "coro_of L' g \<noteq> None" using jobs_invD(7) [OF inv, of g] r new [of g] unfolding L'(1) by (cases "g \<in> set gs") auto
  qed
qed


lemma jobs_inv_cancels:
  assumes "jobs_inv L" and "\<And>g. g \<in> set fs \<Longrightarrow> \<not> is_task g L \<and> coro_of L g \<noteq> None"
  shows "jobs_inv (fold cancel fs L)"
proof -
  have same: "is_job p g (fold cancel fs L) = is_job p g L" "is_task p (fold cancel fs L) = is_task p L"
    "before_stop (fold cancel fs L) = before_stop L" for p g by (simp_all add: is_job_def is_task_def before_stop_def)
  show ?thesis
    unfolding jobs_inv_def same cancel_req_cancels cancels_frame
    using assms(1) assms(2) jobs_invD(2) [OF assms(1)] unfolding jobs_inv_def by blast
qed

lemma jobs_inv_uncancel:
  assumes "jobs_inv L"
  shows "jobs_inv (L\<lparr>cancel_req := (cancel_req L)(f := False)\<rparr>)"
proof -
  let ?L = "L\<lparr>cancel_req := (cancel_req L)(f := False)\<rparr>"
  have same: "is_job p g ?L = is_job p g L" "is_task p ?L = is_task p L" "before_stop ?L = before_stop L" "pcs ?L = pcs L" "coro_of ?L = coro_of L" for p g
    by (simp_all add: is_job_def is_task_def before_stop_def)
  have "cancel_req ?L g \<Longrightarrow> cancel_req L g" for g by (simp split: if_splits)
  then show ?thesis using assms unfolding jobs_inv_def same by blast
qed

lemma jobs_inv_task_wait:
  assumes inv: "jobs_inv L" and f: "is_task f L" "f \<noteq> 0" and fs: "\<And>g. g \<in> set fs \<Longrightarrow> is_job f g L"
    and all: "\<And>g. is_job f g L \<Longrightarrow> pcs L g = Done \<or> g \<in> set fs" and b: "b \<Longrightarrow> \<not> cancel_req L f \<and> \<not> before_stop L"
  shows "jobs_inv (task_wait f fs b L)"
proof -
  obtain x where x: "if fs = [] then x = Done else (\<exists>w. x = TaskWait w fs b)"
    "jview_of (task_wait f fs b L) = (coro_of L, (pcs L)(f := x), cancel_req L)" using jview_task_wait by blast
  define L' where "L' = task_wait f fs b L"
  have L': "coro_of L' = coro_of L" "pcs L' = (pcs L)(f := x)" "cancel_req L' = cancel_req L" using x(2) by (simp_all add: L'_def jview_of_def)
  have same: "is_job p g L' = is_job p g L" "is_task p L' = is_task p L" "before_stop L' = before_stop L" for p g
    using L' f(2) by (simp_all add: is_job_def is_task_def before_stop_def)
  have nj: "\<not> is_job p f L" for p using f(1) by (auto simp: is_job_def is_task_def)
  show ?thesis unfolding L'_def [symmetric] jobs_inv_def same L'
  proof (intro conjI allI impI)
    fix g p assume g: "is_job p g L"
    then have "g \<noteq> f" using nj by blast
    show "((pcs L)(f := x)) g = Done \<or> (\<exists>w hs b. ((pcs L)(f := x)) p = TaskWait w hs b \<and> g \<in> set hs)"
    proof (cases "p = f")
      case True
      with all g x(1) \<open>g \<noteq> f\<close> show ?thesis by (auto split: if_splits)
    next
      case False
      with jobs_invD(1) [OF inv g] \<open>g \<noteq> f\<close> show ?thesis by simp
    qed
  next
    fix p w hs c assume w: "((pcs L)(f := x)) p = TaskWait w hs c"
    have "is_task p L \<and> (\<forall>g \<in> set hs. is_job p g L)"
    proof (cases "p = f")
      case True
      with w x(1) have "hs = fs" by (auto split: if_splits)
      with True f(1) fs show ?thesis by blast
    next
      case False
      with w jobs_invD(2,3) [OF inv] show ?thesis by auto
    qed
    then show "is_task p L" "\<forall>g \<in> set hs. is_job p g L" by blast+
  next
    fix p w hs assume w: "((pcs L)(f := x)) p = TaskWait w hs True"
    have "\<not> cancel_req L p \<and> \<not> before_stop L"
    proof (cases "p = f")
      case True
      with w x(1) b show ?thesis by (auto split: if_splits)
    next
      case False
      with w jobs_invD(4,5) [OF inv] show ?thesis by auto
    qed
    then show "\<not> cancel_req L p" "\<not> before_stop L" by blast+
  next
    fix p assume "is_task p L \<and> cancel_req L p"
    then show "\<not> before_stop L" using jobs_invD(6) [OF inv] by blast
  next
    fix g assume "cancel_req L g"
    then show "coro_of L g \<noteq> None" by (rule jobs_invD(7) [OF inv])
  qed
qed

lemma jobs_inv_task_resume:
  assumes inv: "jobs_inv L" and pc: "pcs L f = TaskWait w fs b" and f: "f \<noteq> 0"
  shows "jobs_inv (task_resume f w fs b L)"
proof -
  let ?L1 = "end_wait f w L"
  have inv1: "jobs_inv ?L1" using jobs_inv_view [of ?L1 L] inv by simp
  have task: "is_task f ?L1" and js: "\<And>g. g \<in> set fs \<Longrightarrow> is_job f g ?L1" using jobs_invD(2,3) [OF inv pc] by (auto simp: is_task_def is_job_def)
  have all: "pcs ?L1 g = Done \<or> g \<in> set fs" if "is_job f g ?L1" for g
    using jobs_invD(1) [OF inv, of f g] that pc by (auto simp: is_job_def)
  show ?thesis
  proof (cases "cancel_req ?L1 f")
    case False
    have "jobs_inv (task_wait f (filter (\<lambda>g. pcs ?L1 g \<noteq> Done) fs) b ?L1)"
      using jobs_invD(4,5) [OF inv, of f w fs] pc
      by (intro jobs_inv_task_wait [OF inv1 task f]) (use js all in \<open>auto simp: before_stop_def\<close>)
    with False show ?thesis by (simp add: task_resume_def Let_def)
  next
    case True
    then have "\<not> b" and stop: "\<not> before_stop L" using jobs_invD(4) [OF inv, of f w fs] jobs_invD(6) [OF inv jobs_invD(2) [OF inv pc]] pc by auto
    let ?L2 = "?L1\<lparr>cancel_req := (cancel_req ?L1)(f := False)\<rparr>"
    have inv2: "jobs_inv ?L2" using inv1 by (rule jobs_inv_uncancel)
    have "\<not> is_task g ?L2 \<and> coro_of ?L2 g \<noteq> None" if "g \<in> set fs" for g using js [OF that] by (auto simp: is_job_def is_task_def)
    from jobs_inv_cancels [OF inv2 this] have inv3: "jobs_inv (fold cancel fs ?L2)" .
    have "f \<notin> set fs" using js [of f] task by (auto simp: is_job_def is_task_def)
    then have "jobs_inv (task_wait f fs True (fold cancel fs ?L2))"
      by (intro jobs_inv_task_wait [OF inv3 _ f])
        (use task js all stop in \<open>auto simp: is_job_def is_task_def before_stop_def cancel_req_cancels\<close>)
    with True \<open>\<not> b\<close> show ?thesis by (simp add: task_resume_def Let_def)
  qed
qed


lemma jobs_inv_schedule_cleanup:
  assumes inv: "jobs_inv L" and fresh: "coro_of L (next_id L) = None \<and> next_id L \<noteq> 0"
  shows "jobs_inv (schedule_cleanup f L)"
proof (cases "map_of (running L) f")
  case None
  then have "jview_of (schedule_cleanup f L) = jview_of L" by (simp add: schedule_cleanup_def jview_of_def)
  with inv jobs_inv_view show ?thesis by blast
next
  case (Some ob)
  with fresh show ?thesis
    by (intro jobs_inv_new [OF inv, where f = "next_id L" and x = "RunCleanup ob"])
      (simp_all add: schedule_cleanup_def create_future_def call_soon_def)
qed

lemma main_not_job: "loop_inv L \<Longrightarrow> \<not> is_job p 0 L"
proof -
  assume "loop_inv L"
  then have "coro_of L 0 = Some MainRun" by (simp add: loop_inv_def)
  then show ?thesis by (simp add: is_job_def)
qed

lemma jobs_inv_main:
  assumes inv: "jobs_inv L" and linv: "loop_inv L" and r: "coro_of L' = coro_of L" "\<And>g. g \<noteq> 0 \<Longrightarrow> pcs L' g = pcs L g"
    and pc: "\<not> obj_pc (pcs L' 0)" "before_stop L' \<Longrightarrow> before_stop L"
    and c: "\<And>p. is_task p L \<Longrightarrow> cancel_req L' p \<Longrightarrow> \<not> before_stop L'"
      "\<And>g. cancel_req L' g \<Longrightarrow> coro_of L g \<noteq> None" "\<And>p w fs. pcs L p = TaskWait w fs True \<Longrightarrow> \<not> cancel_req L' p"
  shows "jobs_inv L'"
proof -
  have same: "is_job p g L' = is_job p g L" "is_task p L' = is_task p L" for p g using r by (simp_all add: is_job_def is_task_def)
  have tw: "pcs L' p = TaskWait w fs b \<longleftrightarrow> pcs L p = TaskWait w fs b" for p w fs b
    using r(2) [of p] pc(1) linv by (cases "p = 0") (auto simp: loop_inv_def)
  have jp: "pcs L' g = pcs L g" if "is_job p g L" for p g
    using that r(2) [of g] main_not_job [OF linv] by (cases "g = 0") auto
  show ?thesis unfolding jobs_inv_def same r(1) tw
  proof (intro conjI allI impI)
    fix g p assume "is_job p g L"
    with jobs_invD(1) [OF inv this] jp show "pcs L' g = Done \<or> (\<exists>w fs b. pcs L p = TaskWait w fs b \<and> g \<in> set fs)" by metis
  qed (use jobs_invD(2,3,5) [OF inv] c pc(2) in blast)+
qed

lemma main_wait_view: "coro_of (main_wait L) = coro_of L \<and> cancel_req (main_wait L) = cancel_req L \<and> \<not> before_stop (main_wait L) \<and> \<not> obj_pc (pcs (main_wait L) 0)"
proof -
  have v: "coro_of L1 = coro_of L \<and> cancel_req L1 = cancel_req L" if "asyncio_wait 0 fs n L = (i, L1)" for fs n i L1
    using jview_wait [OF that] by (simp add: jview_of_def)
  have "coro_of (main_cleanups L) = coro_of L \<and> cancel_req (main_cleanups L) = cancel_req L"
    by (auto simp: main_cleanups_def dest: v split: prod.splits)
  then show ?thesis using frame_main_wait [of L]
    by (auto simp: main_wait_def Let_def before_stop_def dest: v split: prod.splits)
qed

lemma jobs_inv_main_wait: "jobs_inv L \<Longrightarrow> loop_inv L \<Longrightarrow> jobs_inv (main_wait L)"
  by (rule jobs_inv_main) (use main_wait_view [of L] frame_main_wait [of L] jobs_invD(4,7) [of L] in \<open>simp_all, blast+\<close>)

lemma jobs_inv_shutdown:
  assumes inv: "jobs_inv L" and linv: "loop_inv L" and "pcs L 0 = MainStop"
  shows "jobs_inv (main_shutdown L)"
proof (rule jobs_inv_main [OF inv linv])
  let ?L = "fold cancel (map fst (running L)) L"
  note v = main_wait_view [of ?L] and fr = frame_main_wait [of ?L]
  have stop: "before_stop L" using assms(3) by (simp add: before_stop_def)
  show "coro_of (main_shutdown L) = coro_of L" "\<not> obj_pc (pcs (main_shutdown L) 0)"
    using v by (simp_all add: main_shutdown_def)
  show "pcs (main_shutdown L) g = pcs L g" if "g \<noteq> 0" for g using fr that by (simp add: main_shutdown_def)
  show "before_stop L" by (rule stop)
  show "\<not> before_stop (main_shutdown L)" using v by (simp add: main_shutdown_def)
  show "coro_of L g \<noteq> None" if "cancel_req (main_shutdown L) g" for g
  proof -
    have "cancel_req L g \<or> g \<in> fst ` set (running L)" using that v by (auto simp: main_shutdown_def cancel_req_cancels)
    moreover have "is_obj g L" if "g \<in> fst ` set (running L)"
    proof -
      have "0 < listed g L" using that count_list_pos [of g "map fst (running L)"] by (simp add: listed_def)
      then have "0 < due g L" using linv by (metis books_def loop_inv_def order_less_le_trans)
      then show ?thesis using linv by (auto simp: loop_inv_def books_def split: if_splits)
    qed
    ultimately show ?thesis using jobs_invD(7) [OF inv] by (auto simp: is_obj_def)
  qed
  show "\<not> cancel_req (main_shutdown L) p" if "pcs L p = TaskWait w fs True" for p w fs
    using jobs_invD(5) [OF inv that] stop by blast
qed

lemma jobs_inv_main_begin:
  assumes "jobs_inv L" and "loop_inv L" and "pcs L 0 = Fresh"
  shows "jobs_inv (main_begin L)"
proof -
  have sv: "jobs_inv (start_services is L) \<and> loop_inv (start_services is L) \<and> pcs (start_services is L) 0 = pcs L 0"
    if "jobs_inv L" "loop_inv L" for "is" L
    using that
  proof (induction "is" L rule: start_services.induct)
    case (2 i "is" L)
    obtain f L1 where s: "start_obj (Service i) L = (f, L1)" by fastforce
    have "jobs_inv L1" by (rule jobs_inv_start_obj [OF 2(2,3) s]) simp
    moreover have "loop_inv L1" using loop_inv_start_obj [OF 2(3) s] by blast
    moreover have "pcs L1 0 = pcs L 0" using start_obj_result [OF s] fresh_id [OF 2(3)] by simp
    ultimately show ?case using 2(1) s by simp
  qed simp
  let ?L = "start_services [0..<services L] L"
  have "jobs_inv ?L" "loop_inv ?L" "pcs ?L 0 = Fresh" using sv [OF assms(1,2)] assms(3) by auto
  then have inv: "jobs_inv ?L" and linv: "loop_inv ?L" and pc: "pcs ?L 0 = Fresh" by blast+
  have stop: "before_stop ?L" using pc by (simp add: before_stop_def)
  show ?thesis unfolding main_begin_def
  proof (rule jobs_inv_main [OF inv linv])
    fix p assume "is_task p ?L" "cancel_req (?L\<lparr>pcs := (pcs ?L)(0 := MainStop)\<rparr>) p"
    then have "\<not> before_stop ?L" using jobs_invD(6) [OF inv] by simp
    with stop show "\<not> before_stop (?L\<lparr>pcs := (pcs ?L)(0 := MainStop)\<rparr>)" by blast
  next
    fix g assume "cancel_req (?L\<lparr>pcs := (pcs ?L)(0 := MainStop)\<rparr>) g"
    then show "coro_of ?L g \<noteq> None" using jobs_invD(7) [OF inv] by simp
  next
    fix p w fs assume "pcs ?L p = TaskWait w fs True"
    then show "\<not> cancel_req (?L\<lparr>pcs := (pcs ?L)(0 := MainStop)\<rparr>) p" using jobs_invD(4) [OF inv] by simp
  qed (use stop in simp_all)
qed

lemma jobs_inv_resume:
  assumes inv: "jobs_inv L" and linv: "loop_inv L"
  shows "jobs_inv (resume b f L)"
proof (cases "f = 0")
  case True
  have c: "coro_of L 0 = Some MainRun" and pc: "\<not> obj_pc (pcs L 0)" using linv by (simp_all add: loop_inv_def)
  have "jobs_inv (main_resume i fs L)" if "pcs L 0 = MainWait i fs" for i fs
  proof -
    let ?L1 = "end_wait 0 i L"
    let ?L2 = "?L1\<lparr>running := filter (\<lambda>(f, x). \<not> (f \<in> set fs \<and> pcs ?L1 f = Done)) (running ?L1)\<rparr>"
    have "jview_of ?L2 = jview_of L" by simp
    then have v: "jobs_inv ?L2" using jobs_inv_view inv by blast
    have "jobs_inv (main_wait ?L2)"
    proof (rule jobs_inv_main [OF inv linv])
      show "coro_of (main_wait ?L2) = coro_of L" "\<not> obj_pc (pcs (main_wait ?L2) 0)" using main_wait_view [of ?L2] by simp_all
      show "pcs (main_wait ?L2) g = pcs L g" if "g \<noteq> 0" for g using frame_main_wait [of ?L2] that by simp
      show "before_stop L" if "before_stop (main_wait ?L2)" using that main_wait_view [of ?L2] by blast
      show "\<not> before_stop (main_wait ?L2)" using main_wait_view [of ?L2] by blast
      show "coro_of L g \<noteq> None" if "cancel_req (main_wait ?L2) g" for g
        using that main_wait_view [of ?L2] jobs_invD(7) [OF inv] by simp
      show "\<not> cancel_req (main_wait ?L2) p" if "pcs L p = TaskWait w fs True" for p w fs
        using jobs_invD(4) [OF inv that] main_wait_view [of ?L2] by simp
    qed
    then show ?thesis by (simp only: main_resume_def Let_def)
  qed
  moreover have "jobs_inv (main_stop L)"
    by (rule jobs_inv_main [OF inv linv]) (use jobs_invD(4,7) [OF inv] in \<open>simp_all add: main_stop_def before_stop_def\<close>)
  ultimately show ?thesis
    using inv c pc True jobs_inv_main_begin [OF inv linv] jobs_inv_shutdown [OF inv linv]
    by (cases "pcs L 0") (auto simp: resume_def)
next
  case False
  have pc: "\<not> main_pc (pcs L f)" using linv False by (simp add: loop_inv_def)
  show ?thesis
  proof (cases "coro_of L f")
    case (Some c)
    have c: "c \<noteq> MainRun" using linv Some False by (auto simp: loop_inv_def)
    have body: "jobs_inv (body_step b f L)" if "pcs L f = Fresh \<or> pcs L f = Busy"
      using jobs_inv_finish [OF inv False] jobs_inv_busy [OF inv False that] that by (auto simp: body_step_def)
    have fin: "jobs_inv (finish f L)" if "pcs L f = Fresh" using jobs_inv_finish [OF inv False] that by simp
    have start: "jobs_inv (task_begin f n L)" if "pcs L f = Fresh" "\<not> cancel_req L f" "c = RunObj (TaskObj t n)" for t n
      using that Some by (intro jobs_inv_task_begin [OF inv linv _ that(1,2) False]) (simp add: is_task_def)
    show ?thesis
    proof (cases "pcs L f")
      case Fresh
      then show ?thesis using Some c fin start body
        by (cases c) (auto simp: resume_def split: obj.splits)
    next
      case (TaskWait w fs s)
      with jobs_inv_task_resume [OF inv TaskWait False] Some show ?thesis by (simp add: resume_def)
    qed (use Some body pc inv in \<open>simp_all add: resume_def\<close>)
  qed (use inv in \<open>simp add: resume_def\<close>)
qed

lemma loop_step_jobs: "loop_step L L' \<Longrightarrow> loop_inv L \<Longrightarrow> jobs_inv L \<Longrightarrow> jobs_inv L'"
proof (induction rule: loop_step.induct)
  case (loop_stepI e L L')
  note inv = loop_stepI(3) and linv = loop_stepI(2)
  have soon: "jobs_inv (call_soon (Step f) L)" for f using jobs_inv_view [of "call_soon (Step f) L" L] inv by simp
  have new: "jobs_inv (loop_start_task (TaskObj t n) L)" for t n
  proof -
    obtain f L1 where f: "start_obj (TaskObj t n) L = (f, L1)" by fastforce
    have "jobs_inv L1" by (rule jobs_inv_start_obj [OF inv linv f]) simp
    moreover have "jview_of (loop_start_task (TaskObj t n) L) = jview_of L1" by (simp add: loop_start_task_def f)
    ultimately show ?thesis using jobs_inv_view by blast
  qed
  have handle: "jobs_inv (run_handle b h (L\<lparr>ready := hs\<rparr>))" if ready: "ready L = h # hs" for b h hs
  proof (cases h)
    case (Step f)
    have "loop_inv (L\<lparr>ready := hs\<rparr>)"
      by (rule loop_inv_neutral [OF linv ledger_pop [OF ready]]) (simp_all add: Step)
    moreover have "jobs_inv (L\<lparr>ready := hs\<rparr>)" using jobs_inv_view [of "L\<lparr>ready := hs\<rparr>" L] inv by simp
    ultimately show ?thesis using jobs_inv_resume by (simp add: Step)
  next
    case (Call cb f)
    have v: "jobs_inv (L\<lparr>ready := hs\<rparr>)" using jobs_inv_view [of "L\<lparr>ready := hs\<rparr>" L] inv by simp
    show ?thesis
    proof (cases cb)
      case CbCleanup
      have "coro_of (L\<lparr>ready := hs\<rparr>) (next_id (L\<lparr>ready := hs\<rparr>)) = None \<and> next_id (L\<lparr>ready := hs\<rparr>) \<noteq> 0" using fresh_id [OF linv] by simp
      with jobs_inv_schedule_cleanup [OF v] Call CbCleanup show ?thesis by simp
    next
      case CbPopTask
      with Call v jobs_inv_view [of "pop_task f (L\<lparr>ready := hs\<rparr>)" "L\<lparr>ready := hs\<rparr>"] show ?thesis by simp
    next
      case (CbWake w i)
      with Call v jobs_inv_view [of "on_completion w i (L\<lparr>ready := hs\<rparr>)" "L\<lparr>ready := hs\<rparr>"] show ?thesis by simp
    qed
  qed
  show ?case
    using loop_stepI(1) soon new handle inv
    by (cases e) (auto simp: apply_event_def split: list.splits if_splits option.splits coro.splits obj.splits)
qed

lemma loop_reach_inv: "loop_step\<^sup>*\<^sup>* (loop_init n) L \<Longrightarrow> loop_inv L \<and> jobs_inv L"
proof (induction rule: rtranclp_induct)
  case base
  have "jobs_inv (loop_init n)" by (auto simp: jobs_inv_def loop_init_def is_job_def is_task_def split: if_splits)
  then show ?case using loop_inv_init by blast
qed (auto intro: loop_step_inv loop_step_jobs)

text \<open>C5: in every state the event loop can reach, also while the program is being stopped, a task whose \<^verbatim>\<open>run\<close> has ended has no job that is
  still running: the votes its cleanup publishes are those of jobs that have all ended.\<close>

theorem task_ends_after_jobs:
  assumes "loop_step\<^sup>*\<^sup>* (loop_init n) L" and "coro_of L f = Some (RunObj (TaskObj t m))" and "pcs L f = Done"
    and "coro_of L g = Some (RunObj (JobObj f i))"
  shows "pcs L g = Done"
  using jobs_invD(1) [of L f g] loop_reach_inv [OF assms(1)] assms(3,4) by (auto simp: is_job_def)

theorem task_ends_after_jobs_witness:
  "\<exists>L. loop_step\<^sup>*\<^sup>* (loop_init 1) L \<and> coro_of L 2 = Some (RunObj (TaskObj 5 1)) \<and> coro_of L 3 = Some (RunObj (JobObj 2 0)) \<and> pcs L 3 = Done"
proof -
  have "map_option (\<lambda>L. (coro_of L 2, pcs L 2, coro_of L 3)) (apply_events demo_events (loop_init 1)) =
     Some (Some (RunObj (TaskObj 5 1)), Done, Some (RunObj (JobObj 2 0)))" by code_simp
  then obtain L where L: "apply_events demo_events (loop_init 1) = Some L" "coro_of L 2 = Some (RunObj (TaskObj 5 1))" "pcs L 2 = Done"
    "coro_of L 3 = Some (RunObj (JobObj 2 0))" by auto
  with task_ends_after_jobs [OF apply_events_reach [OF L(1)] L(2,3,4)] apply_events_reach [OF L(1)] show ?thesis by blast
qed

section \<open>The daemon\<close>

text \<open>
  \<^verbatim>\<open>rallyci/daemon.py\<close>: the configuration is loaded before the loop runs; the first step of \<^verbatim>\<open>Root.run\<close> creates the services and then
  the providers without a suspension, so the first exception there ends the daemon before any coroutine has run. \<open>mk\<close> and \<open>mkp\<close>
  are the constructor calls, for a provider with its \<^verbatim>\<open>start\<close>.
\<close>

definition daemon_run :: "(string \<Rightarrow> 'm result) \<Rightarrow> ('m \<Rightarrow> pyval \<Rightarrow> 'o result) \<Rightarrow> ('m \<Rightarrow> pyval \<Rightarrow> 'p result) \<Rightarrow> args \<Rightarrow> pyval \<Rightarrow> loop result" where
  "daemon_run imp mk mkp a raw =
     bindR (load_config raw) (\<lambda>data.
     bindR (configure_logging a data) (\<lambda>_.
     case iter_instances imp mk [] data ''service'' of (svcs, e, ms) \<Rightarrow> (case e of Some x \<Rightarrow> Inl x | None \<Rightarrow>
     case iter_instances imp mkp ms data ''provider'' of (provs, e', _) \<Rightarrow> (case e' of Some x \<Rightarrow> Inl x | None \<Rightarrow>
     Inr (loop_init (length svcs))))))"

lemma yield_all: "yield_instances imp mk ms cfgs = (obs, None, ms') \<Longrightarrow> length obs = length cfgs"
proof (induction cfgs arbitrary: ms obs)
  case (Cons cfg cfgs)
  then show ?case by (auto split: sum.splits prod.splits)
qed simp

lemma iter_all:
  assumes "iter_instances imp mk ms data sec = (obs, None, ms')"
  shows "length obs = length (sect_values (dlookup data sec))"
  using assms by (auto simp: iter_instances_def section_values_def dest!: yield_all split: option.splits sect.splits)

lemma start_services_running: "map snd (running (start_services is L)) = map snd (running L) @ map Service is"
  by (induction "is" arbitrary: L) (simp_all add: start_obj_def create_future_def add_done_callback_def call_soon_def)

lemma first_turn: "\<exists>L. apply_event (Turn b) (loop_init n) = Some L \<and> map snd (running L) = map Service [0..<n] \<and> pcs L 0 = MainStop"
  by (auto simp: apply_event_def loop_init_def resume_def main_begin_def start_services_running)

text \<open>C32: a daemon that comes up has a valid document, and the first turn of its loop starts one service for each entry of the section
  \<^verbatim>\<open>service\<close> of that document, in order, before the root waits for its stop event.\<close>

theorem daemon_services:
  assumes "daemon_run imp mk mkp a (PList items) = Inr L"
  shows "valid_document items \<and> (\<exists>L1. apply_event (Turn b) L = Some L1 \<and>
    map snd (running L1) = map Service [0..<length (entries ''service'' items)] \<and> pcs L1 0 = MainStop)"
proof -
  from assms obtain data where load: "load_config (PList items) = Inr data" by (auto simp: daemon_run_def bindR_Inr_iff)
  then have items: "load_items [] items = Inr data" by (simp add: load_config_def)
  obtain svcs e ms where svcs: "iter_instances imp mk [] data ''service'' = (svcs, e, ms)" by (metis surj_pair)
  with assms load have "e = None" and L: "L = loop_init (length svcs)"
    by (auto simp: daemon_run_def bindR_Inr_iff split: option.splits prod.splits)
  with svcs have "length svcs = length (entries ''service'' items)"
    using iter_all [of imp mk "[]" data "''service''" svcs ms] load_items_values [OF items, of "''service''"] by simp
  moreover have "valid_document items" using load_items_ok_iff [of "[]" items] items by blast
  ultimately show ?thesis using L first_turn [of b "length svcs"] by simp
qed

definition demo_daemon :: "pyval list" where
  "demo_daemon = [PDict [(''service'', PDict [(''name'', PStr ''a''), (''module'', PStr ''m'')])],
     PDict [(''service'', PDict [(''name'', PStr ''b''), (''module'', PStr ''m'')])],
     PDict [(''provider'', PDict [(''name'', PStr ''v''), (''module'', PStr ''n'')])]]"

theorem daemon_services_witness:
  "\<exists>L L1. daemon_run (\<lambda>n. Inr ()) (\<lambda>m c. Inr ()) (\<lambda>m c. Inr ()) \<lparr>quiet = False, verbose = False\<rparr> (PList demo_daemon) = Inr L \<and>
     apply_event (Turn True) L = Some L1 \<and> map snd (running L1) = [Service 0, Service 1]"
proof -
  have n: "[0..<length (entries ''service'' demo_daemon)] = [0, 1]" by (simp add: demo_daemon_def upt_rec)
  have run: "daemon_run (\<lambda>n. Inr ()) (\<lambda>m c. Inr ()) (\<lambda>m c. Inr ()) \<lparr>quiet = False, verbose = False\<rparr> (PList demo_daemon) = Inr (loop_init 2)"
    by (simp add: daemon_run_def load_config_def demo_daemon_def add_item_def configure_logging_def iter_instances_def section_values_def get_module_def Let_def numeral_2_eq_2)
  from daemon_services [OF run, of True] run show ?thesis unfolding n by auto
qed

section \<open>What the loop makes of the bodies\<close>

text \<open>\<^verbatim>\<open>Root.run_obj\<close> and \<^verbatim>\<open>Root.run_cleanup\<close> around a body that is modelled in another theory: every exception is logged, a
  cancellation too.\<close>

definition run_obj :: "('s, 'a) prog \<Rightarrow> ('s, unit) prog" where
  "run_obj m = catch (bnd m (\<lambda>_. ret ())) (\<lambda>e. ret ())"

definition run_cleanup :: "('s, 'a) prog \<Rightarrow> ('s, unit) prog" where
  "run_cleanup m = catch (bnd m (\<lambda>_. ret ())) (\<lambda>e. ret ())"

lemma run_obj_ends:
  assumes "returns m"
  shows "\<exists>t. run_obj m s = Some (Inr (), t) \<and> run_cleanup m s = Some (Inr (), t)"
proof -
  from assms obtain r t where "m s = Some (r, t)" by (rule totalE)
  then show ?thesis by (cases r) (auto simp: run_obj_def run_cleanup_def catch_def bnd_def)
qed

end
