(* ===== verification/Legacy.thy ===== *)
theory Legacy
  imports Task Regex
begin

text \<open>
  \<^verbatim>\<open>rallyci/cr.py\<close> and \<^verbatim>\<open>rallyci/environments\<close>: the change request that preceded \<^verbatim>\<open>Task\<close>, and the two environment classes, which no
  other module uses any more. A change request calls \<^verbatim>\<open>Job(self, job_name, cfg, self.event)\<close>, a constructor that takes two arguments,
  so every change request that has a job to prepare raises \<open>TypeError\<close>.
\<close>

section \<open>Environments\<close>

definition dummy_build :: "pyval \<Rightarrow> (string \<times> pyval) list \<Rightarrow> (string \<times> pyval) list result" where
  "dummy_build export env = bindR (py_items export) (\<lambda>kvs. Inr (foldl (\<lambda>d (k, v). dset d k v) env kvs))"

text \<open>Unlike \<^verbatim>\<open>Task._get_env\<close>, a path that misses a key is an error; what was stored before it stays.\<close>

fun event_exports :: "pyval \<Rightarrow> (string \<times> pyval) list \<Rightarrow> (string \<times> pyval) list \<Rightarrow> exn option \<times> (string \<times> pyval) list" where
  "event_exports event [] env = (None, env)"
| "event_exports event ((k, v) # kvs) env =
     (case bindR (as_str AttributeError v) (\<lambda>path. walk event (split_on (CHR ''.'') path)) of
        Inl e \<Rightarrow> (Some e, env)
      | Inr value \<Rightarrow> event_exports event kvs (dset env k value))"

definition event_build :: "pyval \<Rightarrow> pyval \<Rightarrow> (string \<times> pyval) list \<Rightarrow> exn option \<times> (string \<times> pyval) list" where
  "event_build cfg raw_event env =
     (case bindR (getitem cfg ''export-event'') py_items of Inl e \<Rightarrow> (Some e, env) | Inr kvs \<Rightarrow> event_exports raw_event kvs env)"

section \<open>Change requests\<close>

text \<open>\<^verbatim>\<open>_prepare_job\<close>: the configuration is looked up, then the constructor of the job fails.\<close>

definition prepare_job :: "cfgdata \<Rightarrow> string \<Rightarrow> unit result" where
  "prepare_job data name = bindR (data_item data ''jobs'' name) (\<lambda>cfg. Inl TypeError)"

definition prepare_jobs :: "cfgdata \<Rightarrow> pyval \<Rightarrow> unit result" where
  "prepare_jobs data project =
     bindR (bindR (getdef project ''jobs'' (PList [])) py_iter) (\<lambda>js.
     bindR (mapR (\<lambda>j. bindR (as_str Unmodelled j) (prepare_job data)) js) (\<lambda>_.
     bindR (bindR (getdef project ''non-voting-jobs'' (PList [])) py_iter) (\<lambda>ks.
     bindR (mapR (\<lambda>j. bindR (as_str Unmodelled j) (prepare_job data)) ks) (\<lambda>_. Inr ()))))"

definition project_cfg :: "cfgdata \<Rightarrow> string \<Rightarrow> pyval result" where
  "project_cfg data name = (case dlookup data ''projects'' of
     None \<Rightarrow> Inl (KeyError ''projects'')
   | Some (Unnamed vs) \<Rightarrow> Inl AttributeError
   | Some (Named d) \<Rightarrow> Inr (case dlookup d name of None \<Rightarrow> PNone | Some v \<Rightarrow> v))"

definition recheck_regexp :: "cfgdata \<Rightarrow> pyval result" where
  "recheck_regexp data = (case dlookup data ''recheck'' of
     None \<Rightarrow> Inr PNone
   | Some (Unnamed vs) \<Rightarrow> Inl AttributeError
   | Some (Named d) \<Rightarrow> Inr (case dlookup d ''regexp'' of None \<Rightarrow> PNone | Some v \<Rightarrow> v))"

definition cr_new :: "env \<Rightarrow> cfgdata \<Rightarrow> pyval \<Rightarrow> ('x io_scheme, string) prog" where
  "cr_new E data event =
     bnd (get_rnd_name E ''CR'' 10) (\<lambda>i.
     bnd (liftR (getitem event ''type'')) (\<lambda>etype.
     if etype = PStr ''ref-updated'' then ret i else
     bnd (liftR (bindR (bindR (getitem event ''change'') (\<lambda>c. getitem c ''project'')) (as_str Unmodelled))) (\<lambda>name.
     bnd (liftR (project_cfg data name)) (\<lambda>project.
     if \<not> truthy project then ret i
     else if etype = PStr ''patchset-created'' then bnd (liftR (prepare_jobs data project)) (\<lambda>_. ret i)
     else if etype = PStr ''comment-added'' then
       bnd (liftR (recheck_regexp data)) (\<lambda>r.
       if \<not> truthy r then ret i else
       bnd (liftR (getitem event ''comment'')) (\<lambda>c.
       bnd (liftR (bindR (as_str TypeError r) re_compile)) (\<lambda>its.
       bnd (liftR (as_str TypeError c)) (\<lambda>comment.
       if search its None comment \<noteq> None then bnd (liftR (prepare_jobs data project)) (\<lambda>_. ret i) else ret i))))
     else ret i))))"

text \<open>The dictionary of a change request, which never has jobs.\<close>

definition cr_to_dict :: "string \<Rightarrow> pyval \<Rightarrow> pyval result" where
  "cr_to_dict i event =
     bindR (bindR (getdef event ''change'' (PDict [])) (\<lambda>c. bindR (getdef c ''subject'' (PStr [])) (as_str AttributeError))) (\<lambda>subject.
     bindR (bindR (getdef event ''change'' (PDict [])) (\<lambda>c. bindR (getdef c ''project'' (PStr [])) (as_str AttributeError))) (\<lambda>project.
     Inr (PDict [(''id'', PStr i), (''jobs'', PList []), (''subject'', PStr (cgi_escape subject)), (''project'', PStr (cgi_escape project))])))"

section \<open>No change request has jobs\<close>

lemma prepare_job_raises: "\<exists>e. prepare_job data name = Inl e"
  by (cases "data_item data ''jobs'' name") (simp_all add: prepare_job_def)

lemma prepare_jobs_none:
  assumes "prepare_jobs data project = Inr u"
  shows "bindR (getdef project ''jobs'' (PList [])) py_iter = Inr [] \<and> bindR (getdef project ''non-voting-jobs'' (PList [])) py_iter = Inr []"
proof -
  have none: "js = []" if "mapR (\<lambda>j. bindR (as_str Unmodelled j) (prepare_job data)) js = Inr ys" for js ys
  proof (cases js)
    case (Cons j js')
    from that [unfolded Cons] obtain name y where "prepare_job data name = Inr y" by (auto simp: bindR_Inr_iff)
    with prepare_job_raises [of data name] show ?thesis by auto
  qed
  from assms show ?thesis by (auto simp: prepare_jobs_def bindR_Inr_iff dest!: none)
qed

text \<open>A change request for a new patch set of a project that has any job, voting or not, cannot be created: the
  constructor raises.\<close>

theorem cr_with_jobs_raises:
  assumes "getitem event ''type'' = Inr (PStr ''patchset-created'')"
    and "bindR (getitem event ''change'') (\<lambda>c. getitem c ''project'') = Inr (PStr name)" and "project_cfg data name = Inr (PDict d)"
    and "dlookup d ''jobs'' = Some (PList (j # js)) \<or> dlookup d ''non-voting-jobs'' = Some (PList (j # js))"
  shows "cr_new E data event s \<noteq> Some (Inr i, t)"
proof
  assume run: "cr_new E data event s = Some (Inr i, t)"
  have "d \<noteq> []" using assms(4) by auto
  then obtain x where "prepare_jobs data (PDict d) = Inr x"
    using run assms(1-3) by (auto simp: cr_new_def liftR_def elim!: bnd_InrE)
  from prepare_jobs_none [OF this] assms(4) show False by auto
qed

definition old_data :: cfgdata where
  "old_data = [(''projects'', Named [(''p'', PDict [(''jobs'', PList [PStr ''unit''])])]), (''jobs'', Named [(''unit'', PDict [])])]"

theorem cr_with_jobs_raises_witness:
  "\<forall>i t. cr_new (demo_env []) old_data demo_event \<lparr>trace = []\<rparr> \<noteq> Some (Inr i, t)"
  by (intro allI, rule cr_with_jobs_raises [where name = "''p''" and d = "[(''jobs'', PList [PStr ''unit''])]"])
    (simp_all add: demo_event_def old_data_def project_cfg_def)

section \<open>Running a change request\<close>

text \<open>\<^verbatim>\<open>run\<close> of a change request, which has no jobs: nothing is gathered, and the publisher would be made by a method that the configuration
  does not have. The project is not set for a change request of a reference update.\<close>

definition cr_run :: "cfgdata \<Rightarrow> pyval option \<Rightarrow> pyval list result" where
  "cr_run data project = (case project of
     None \<Rightarrow> Inl AttributeError
   | Some p \<Rightarrow> bindR (getdef p ''silent'' PNone) (\<lambda>silent.
       if \<not> truthy silent then
         (case dlookup data ''publisher'' of
            None \<Rightarrow> Inr []
          | Some sec \<Rightarrow> if section_true sec then Inl AttributeError else Inr [])
       else Inr []))"

lemma cr_run_publishes_nothing:
  assumes "cr_run data (Some (PDict d)) = r"
  shows "r = Inr [] \<or> (r = Inl AttributeError \<and> (\<exists>sec. dlookup data ''publisher'' = Some sec \<and> section_true sec))"
  using assms by (auto simp: cr_run_def split: option.splits if_splits)

end
