(* ===== verification/Spec2Isabelle.thy ===== *)
theory Spec2Isabelle
  imports World Regex Provider Net Job Task Gerrit Status Web Root Legacy
begin

text \<open>
  A verification library for rally-ci, a continuous integration daemon: it listens to a Gerrit event
  stream, starts a task for an event, runs the jobs of the task on virtual machines and publishes a vote.

  \<^bold>\<open>How the program is modelled.\<close> A pure Python computation that may raise is a value of \<open>exn + 'a\<close>. A coroutine is a function from a
  state to \<open>((exn + 'a) \<times> state) option\<close>, where \<open>None\<close> means that it never returns; polling loops are
  defined by \<^theory_text>\<open>partial_function (option)\<close> and that they end is proved. Every state extends the record
  \<open>io\<close> with the trace of the requests made of the outside world; the answers (subprocesses, connections, clock, random
  source, cancellation, files) are a record \<open>env\<close> of functions of the trace, so that a theorem about all \<open>env\<close> holds for every behaviour of the
  hosts. Dictionaries are association lists in insertion order, floating point numbers are exact rationals, configuration values and
  JSON documents are the type \<open>pyval\<close>. Logging calls are left out.

  \<^bold>\<open>Parts.\<close>
  \<^item> \<open>Prelude\<close>, \<open>World\<close>: exceptions, values, the program combinators, the contracts \<open>keeps\<close>, \<open>returns\<close>, \<open>succeeds\<close>, \<open>emits\<close>, \<open>advances\<close>, and \<^verbatim>\<open>asyncio.wait_for\<close>.
  \<^item> \<open>Py_Strings\<close>, \<open>Regex\<close>: the string methods and the fragment of \<^verbatim>\<open>re\<close> the sources use, with what a search finds.
  \<^item> \<open>Ssh\<close> (\<^verbatim>\<open>common/asyncssh.py\<close>), \<open>Utils\<close> (\<^verbatim>\<open>utils.py\<close>), \<open>Config\<close> (\<^verbatim>\<open>config.py\<close>).
  \<^item> \<open>Storage\<close>, \<open>Vm\<close>, \<open>Host\<close>, \<open>Provider\<close>: the classes of \<^verbatim>\<open>providers/virsh.py\<close>. The locale \<open>storage_backend\<close> states what a
    host relies on and is interpreted on ZFS and BTRFS; \<open>vhost\<close> and \<open>placement\<close> state what a provider and a runner rely on and are interpreted on the
    hosts the provider creates.
  \<^item> \<open>Net\<close>: the dynamic bridges of a host when placements and destructions interleave, the same methods cut at their suspension points,
    with the lock they take; its steps are events of \<open>net_step\<close>.
  \<^item> \<open>Job\<close>: \<^verbatim>\<open>job.py\<close> and the runners \<^verbatim>\<open>runners/fake.py\<close>, \<^verbatim>\<open>runners/ssh.py\<close>. The locale \<open>job_runner\<close> is the interface of a runner,
    \<open>job_handlers\<close> that of the status handlers, \<open>deployment\<close> joins them with the providers.
  \<^item> \<open>Task\<close>: \<^verbatim>\<open>task.py\<close> without \<^verbatim>\<open>Task.run\<close>. \<open>Gerrit\<close>: \<^verbatim>\<open>services/gerrit.py\<close>, with the step relation \<open>stream_step\<close> of a stream and its tasks
    and the locale \<open>task_handlers\<close>.
  \<^item> \<open>Status\<close>: \<^verbatim>\<open>services/status.py\<close> and \<^verbatim>\<open>common/periodictask.py\<close>; its handlers are interpretations of \<open>job_handlers\<close> and \<open>task_handlers\<close>.
  \<^item> \<open>Web\<close>: the servers of the status page and of the metadata, from their start to the closing of the web sockets.
  \<^item> \<open>Root\<close>: \<^verbatim>\<open>root.py\<close>, \<^verbatim>\<open>daemon.py\<close> and \<^verbatim>\<open>Task.run\<close> on the queue, the futures and the callbacks of the asyncio loop, as the step relation \<open>loop_step\<close>.
  \<^item> \<open>Legacy\<close>: \<^verbatim>\<open>cr.py\<close> and \<^verbatim>\<open>environments\<close>, which no other module uses any more.

  \<^bold>\<open>What is shown.\<close> Jobs: a job that ends is SUCCESS exactly when its error is false, and it always ends, the timeout cutting off whatever the
  hosts do. Votes: the theorem \<open>vote_reflects_runs\<close> below leads from the event to the review command. Streams: no patch set is
  tested by two tasks at once. Loop: cleanups are started exactly once until the shutdown, a task ends after its jobs, and
  the shutdown can lose a cleanup. Hosts: fresh bridge numbers, bridges that interleaved placements do not share until a cleanup crashes, the domain description, what is destroyed, when an image is
  built; providers: only suitable hosts, spaced placements. Configuration: which documents are accepted, that the loaded data are
  well formed and represent the document, that the module cache is invisible, and which services the daemon starts. Formats: times,
  environments, keys, finished tasks. Errors of the code that the model shows are theorems too (keys that leak, a stream that ends with a bad line, a shutdown
  that kills at the first poll, machines that are not cleaned up, statistics that are not periodic, clients that are not closed,
  a failed download that counts as an image, a bridge that is deleted under a running machine).

  \<^bold>\<open>Bounds.\<close> No fuel is used. Termination rests on \<open>clock_ok\<close> (the clock does not run backwards and a completed sleep takes its time), on
  the timeouts of the code, and for images on a rank that decreases from an image to its parent.

  \<^bold>\<open>Interleaving.\<close> A coroutine of \<open>Job\<close>, \<open>Task\<close> or the provider is run without interference; what may interleave is
  modelled in \<open>stream_step\<close> (lines and cleanups), in \<open>net_step\<close> (bridges of a host) and in \<open>loop_step\<close> (all coroutines, at the granularity
  of the handles of the loop).

  \<^bold>\<open>Not modelled.\<close> What aiohttp does behind its calls (a parameter says which calls raise; the routing of a request is left out), the YAML
  and JSON decoders and the import of modules (parameters), \<^verbatim>\<open>providers/lxc.py\<close> (empty methods), \<^verbatim>\<open>streams/fake.py\<close> (its base class does not
  exist), the text of the log messages, the packaging, the tests.
\<close>

section \<open>From an event to a vote\<close>

lemma make_jobs_unrun:
  fixes s :: "'x io_scheme"
  assumes "make_jobs E data tid env voting cfg sec s = Some (Inr js, t)"
  shows "\<forall>j \<in> set js. job_error j = PInt 254"
proof -
  define one :: "pyval \<Rightarrow> ('x io_scheme, job) prog" where "one n = bnd (liftR (as_str Unmodelled n)) (\<lambda>name.
    bnd (job_new E data tid name) (\<lambda>j. ret (j\<lparr>job_env := dupdate (job_env j) env, job_voting := voting\<rparr>)))" for n
  have one: "job_error j = PInt 254" if "one n u = Some (Inr j, w)" for n u j w
    using that by (auto elim!: bnd_InrE dest!: job_new_fresh simp: fresh_job_def one_def)
  have "\<forall>j \<in> set js. job_error j = PInt 254" if "mapM one ns u = Some (Inr js, w)" for ns u w
    using that
  proof (induction ns arbitrary: js u)
    case (Cons n ns)
    from Cons.prems obtain j u1 js' where j: "one n u = Some (Inr j, u1)" "mapM one ns u1 = Some (Inr js', w)" "js = j # js'"
      by (auto elim!: bnd_InrE)
    with one [OF j(1)] Cons.IH [OF j(2)] show ?case by simp
  qed simp
  moreover obtain ns u where "mapM one ns u = Some (Inr js, t)"
    using assms by (auto simp: make_jobs_def one_def [abs_def] elim!: bnd_InrE)
  ultimately show ?thesis by blast
qed

lemma task_new_unrun:
  assumes "task_new E data cfg project event s = Some (Inr t, u)"
  shows "\<forall>j \<in> set (t_jobs t). truthy (job_error j)"
  using assms unfolding task_new_def by (auto elim!: bnd_InrE dest!: make_jobs_unrun split: if_splits)

lemma review_cmd_vote:
  assumes "review_cmd cfg t header = Inr cmd" and "getdef cfg ''vote'' PNone = Inr v" and "truthy v"
  shows "cmd ! 2 = (if task_failed t then ''--verified=-1'' else ''--verified=+1'')"
  using assms by (auto simp: review_cmd_def bindR_Inr_iff)

text \<open>One run of a job: it starts without a runner, and \<open>j'\<close> is the job when \<^verbatim>\<open>Job.run\<close> has returned or raised.\<close>

definition ran :: "'z handlers \<Rightarrow> cfgdata \<Rightarrow> (string \<times> 'z jst_ext prov) list \<Rightarrow> job \<Rightarrow> unit result \<times> job \<Rightarrow> bool" where
  "ran hs data provs j = (\<lambda>(r, j'). \<exists>E s u. the_job s = j \<and> \<not> has_runner s \<and>
     job_run E hs data (runner_modules hs data provs) s = Some (r, u) \<and> the_job u = j')"

text \<open>C1: from the event to the vote. For a task made from an event, whose jobs have been run by the modelled runners in any
  environments, with any handlers that do not raise, the review command of a voting stream says +1 exactly when the run of every
  voting job returned and left it in the state SUCCESS.\<close>

theorem vote_reflects_runs:
  fixes hs :: "'z handlers"
  assumes "task_new E data cfg project event s0 = Some (Inr t, u0)"
    and "list_all2 (ran hs data provs) (t_jobs t) rs"
    and "\<And>cb j. cb \<in> set hs \<Longrightarrow> keeps jall (cb j) \<and> returns (cb j)" and "quiet_handlers hs"
    and "\<And>name P i. (name, P) \<in> set provs \<Longrightarrow> \<exists>E config k c s0 s1. host_new E config k i c s0 = Some (Inr (p_host P i), s1)"
    and "\<And>name P i m p. (name, P) \<in> set provs \<Longrightarrow> image_parent (p_host P i) m = Some p \<Longrightarrow> (rank :: string \<Rightarrow> nat) p < rank m"
    and "review_cmd cfg (t\<lparr>t_jobs := map snd rs\<rparr>) header = Inr cmd" and "getdef cfg ''vote'' PNone = Inr v" and "truthy v"
  shows "cmd ! 2 = (if \<forall>(r, j) \<in> set rs. job_voting j \<longrightarrow> r = Inr () \<and> job_status j = ''SUCCESS'' then ''--verified=+1'' else ''--verified=-1'')"
proof -
  have site: "deployment hs provs rank" using assms(3,5,6) by (rule deploymentI)
  have one: "(r = Inr () \<and> job_status j' = ''SUCCESS'') \<longleftrightarrow> \<not> truthy (job_error j')"
    if "ran hs data provs j (r, j')" "truthy (job_error j)" for j r j'
  proof -
    from that(1) obtain E s u where run: "the_job s = j" "\<not> has_runner s" "the_job u = j'"
      "job_run E hs data (runner_modules hs data provs) s = Some (r, u)" by (auto simp: ran_def)
    from deployment.job_run_result [OF site assms(4) _ run(2,4)] run that(2) show ?thesis by auto
  qed
  have ok: "(r = Inr () \<and> job_status j' = ''SUCCESS'') \<longleftrightarrow> \<not> truthy (job_error j')" if "(r, j') \<in> set rs" for r j'
  proof -
    from that obtain i where i: "i < length rs" "rs ! i = (r, j')" by (auto simp: in_set_conv_nth)
    with assms(2) have "ran hs data provs (t_jobs t ! i) (r, j')" "i < length (t_jobs t)" by (auto simp: list_all2_conv_all_nth)
    moreover have "truthy (job_error (t_jobs t ! i))" using task_new_unrun [OF assms(1)] calculation(2) by simp
    ultimately show ?thesis using one by blast
  qed
  have "(case x of (r, j) \<Rightarrow> job_voting j \<longrightarrow> r = Inr () \<and> job_status j = ''SUCCESS'') \<longleftrightarrow> \<not> (job_voting (snd x) \<and> truthy (job_error (snd x)))"
    if "x \<in> set rs" for x using ok [of "fst x" "snd x"] that by (cases x) auto
  then have "task_failed (t\<lparr>t_jobs := map snd rs\<rparr>) \<longleftrightarrow> \<not> (\<forall>(r, j) \<in> set rs. job_voting j \<longrightarrow> r = Inr () \<and> job_status j = ''SUCCESS'')"
    by (simp add: task_failed_iff)
  then show ?thesis unfolding review_cmd_vote [OF assms(7-9)] by (simp only: if_not_P if_P split: if_split) simp
qed

definition full_data :: cfgdata where
  "full_data = [(''project'', Named [(''p'', PDict [(''name'', PStr ''p''), (''jobs'', PList [PStr ''unit''])])]),
     (''job'', Named [(''unit'', PDict [(''name'', PStr ''unit''), (''runner'', PDict [(''name'', PStr ''r'')])])]),
     (''runner'', Named [(''r'', PDict [(''name'', PStr ''r''), (''module'', PStr ''rallyci.runners.fake'')])])]"

definition full_run :: "(task \<times> unit result \<times> job) option" where
  "full_run = (case task_new (demo_env []) full_data demo_stream ''p'' demo_event demo_jst of
     Some (Inr t, u) \<Rightarrow> (case t_jobs t of
       [j] \<Rightarrow> map_option (\<lambda>(r, u). (t, r, the_job u)) (job_run (demo_env []) [] full_data (runner_modules [] full_data []) (demo_jst\<lparr>the_job := j\<rparr>))
     | _ \<Rightarrow> None)
   | _ \<Rightarrow> None)"

lemma full_run_eval:
  "map_option (\<lambda>(t, r, j). (r, job_status j, job_voting j, map_sum (\<lambda>e. ()) (\<lambda>c. c ! 2) (review_cmd demo_stream (t\<lparr>t_jobs := [j]\<rparr>) ''run {succeeded}''))) full_run =
     Some (Inr (), ''SUCCESS'', True, Inr ''--verified=+1'')"
  by code_simp


theorem vote_reflects_runs_witness:
  "\<exists>t r j cmd. full_run = Some (t, r, j) \<and> review_cmd demo_stream (t\<lparr>t_jobs := [j]\<rparr>) ''run {succeeded}'' = Inr cmd \<and> cmd ! 2 = ''--verified=+1''"
proof -
  obtain x where x: "full_run = Some x" "(case x of (t, r, j) \<Rightarrow> (r, job_status j, job_voting j,
      map_sum (\<lambda>e. ()) (\<lambda>c. c ! 2) (review_cmd demo_stream (t\<lparr>t_jobs := [j]\<rparr>) ''run {succeeded}''))) = (Inr (), ''SUCCESS'', True, Inr ''--verified=+1'')"
    using full_run_eval unfolding map_option_eq_Some by blast
  obtain t r j where t: "x = (t, r, j)" by (cases x)
  note full = x(1) [unfolded t]
  have r: "r = Inr ()" "job_status j = ''SUCCESS''" using x(2) by (simp_all add: t)
  obtain cmd where cmd: "review_cmd demo_stream (t\<lparr>t_jobs := map snd [(r, j)]\<rparr>) ''run {succeeded}'' = Inr cmd"
    using x(2) by (cases "review_cmd demo_stream (t\<lparr>t_jobs := [j]\<rparr>) ''run {succeeded}''") (auto simp: t)
  from full obtain u0 j0 u where new: "task_new (demo_env []) full_data demo_stream ''p'' demo_event demo_jst = Some (Inr t, u0)"
    and j0: "t_jobs t = [j0]" and run: "job_run (demo_env []) [] full_data (runner_modules [] full_data []) (demo_jst\<lparr>the_job := j0\<rparr>) = Some (r, u)" "the_job u = j"
    by (auto simp: full_run_def split: option.splits prod.splits sum.splits list.splits)
  have "\<not> has_runner demo_jst" by (simp add: demo_jst_def jst.defs vst.defs)
  with run have "ran ([] :: unit handlers) full_data [] j0 (r, j)" unfolding ran_def prod.case
    by (intro exI [of _ "demo_env []"] exI [of _ "demo_jst\<lparr>the_job := j0\<rparr>"] exI [of _ u]) simp
  then have "list_all2 (ran ([] :: unit handlers) full_data []) (t_jobs t) [(r, j)]" by (simp add: j0)
  from vote_reflects_runs [OF new this _ _ _ _ cmd, of "\<lambda>_. 0" "PBool True"] r have "cmd ! 2 = ''--verified=+1''"
    by (simp add: quiet_handlers_def demo_stream_def)
  with full cmd show ?thesis by auto
qed

end
